(* ===== verification/Prelude.thy ===== *)
theory Prelude
  imports Main "HOL-Library.Word"
begin

text \<open>
  Shared vocabulary of the development: C integer types as words, little-endian access to byte
  arrays (the layout of every on-disk structure), the monad in which kernel code is written (a state
  monad whose computations may also end in a panic or go to sleep), its partial-correctness triples
  and frame conditions, and the generic lemmas the components use.
\<close>

unbundle bit_operations_syntax

type_synonym u8 = "8 word"
type_synonym u16 = "16 word"
type_synonym u32 = "32 word"
type_synonym bytes = "u8 list"

named_theorems hoare_rules \<open>partial-correctness rules of the kernel monad\<close>
named_theorems stay_rules \<open>which part of the state no outcome of an operation changes\<close>
named_theorems frame_rules \<open>which part of the state an operation leaves alone\<close>

lemma unat32_bound: "unat (a :: u32) < 2 ^ 32"
  using unsigned_less[of a, where ?'a = nat] by simp

lemma unat_add32: "unat a + n < 2 ^ 32 \<Longrightarrow> unat (a + of_nat n :: u32) = unat a + n"
  by (simp add: unat_word_ariths unat_of_nat take_bit_nat_eq_self)

subsection \<open>The kernel monad\<close>

text \<open>
  \<open>panic()\<close> never returns: the computation ends in \<open>Panic\<close> with the message. \<open>sleep()\<close> gives the
  processor away until another process changes what the caller waits for: the run of the call alone
  ends in \<open>Asleep\<close> with the channel waited on. \<open>Switched\<close>: the process has given the processor away in another way, by
  \<open>yield\<close> or by \<open>exit\<close>. In every case the state reached is part of the outcome.
\<close>

datatype chan = ChLog | ChBufLock nat | ChInodeLock nat | ChProc nat | ChPipeRead nat
  | ChPipeWrite nat | ChInput | ChTicks

datatype kerr = Panic string | Asleep chan | Switched

type_synonym ('s, 'a) kmon = "'s \<Rightarrow> (kerr \<times> 's) + ('a \<times> 's)"

definition ret :: "'a \<Rightarrow> ('s, 'a) kmon" where
  "ret x = (\<lambda>s. Inr (x, s))"

definition bnd :: "('s, 'a) kmon \<Rightarrow> ('a \<Rightarrow> ('s, 'b) kmon) \<Rightarrow> ('s, 'b) kmon" where
  "bnd m f = (\<lambda>s. case m s of Inl e \<Rightarrow> Inl e | Inr (x, s') \<Rightarrow> f x s')"

definition sq :: "('s, 'a) kmon \<Rightarrow> ('s, 'b) kmon \<Rightarrow> ('s, 'b) kmon" where
  "sq m m' = bnd m (\<lambda>_. m')"

definition panic :: "string \<Rightarrow> ('s, 'a) kmon" where
  "panic msg = (\<lambda>s. Inl (Panic msg, s))"

definition asleep :: "chan \<Rightarrow> ('s, 'a) kmon" where
  "asleep c = (\<lambda>s. Inl (Asleep c, s))"

definition rd :: "('s \<Rightarrow> 'a) \<Rightarrow> ('s, 'a) kmon" where
  "rd f = (\<lambda>s. Inr (f s, s))"

definition upd :: "('s \<Rightarrow> 's) \<Rightarrow> ('s, unit) kmon" where
  "upd f = (\<lambda>s. Inr ((), f s))"

definition whenk :: "bool \<Rightarrow> ('s, unit) kmon \<Rightarrow> ('s, unit) kmon" where
  "whenk b m = (if b then m else ret ())"

text \<open>A \<open>for\<close> loop whose body may \<open>return\<close> or \<open>break\<close> with a value.\<close>

fun for_ret :: "'i list \<Rightarrow> ('i \<Rightarrow> ('s, 'r option) kmon) \<Rightarrow> ('s, 'r option) kmon" where
  "for_ret [] body = ret None"
| "for_ret (i # is) body =
     bnd (body i) (\<lambda>r. case r of Some x \<Rightarrow> ret (Some x) | None \<Rightarrow> for_ret is body)"

text \<open>A \<open>for\<close> loop that always runs to its end.\<close>

fun for_all :: "'i list \<Rightarrow> ('i \<Rightarrow> ('s, unit) kmon) \<Rightarrow> ('s, unit) kmon" where
  "for_all [] body = ret ()"
| "for_all (i # is) body = sq (body i) (for_all is body)"

lemma ret_simp [simp]: "ret x s = Inr (x, s)"
  by (simp add: ret_def)

lemma rd_simp [simp]: "rd f s = Inr (f s, s)"
  by (simp add: rd_def)

lemma upd_simp [simp]: "upd f s = Inr ((), f s)"
  by (simp add: upd_def)

lemma panic_simp [simp]: "panic msg s = Inl (Panic msg, s)"
  by (simp add: panic_def)

lemma asleep_simp [simp]: "asleep c s = Inl (Asleep c, s)"
  by (simp add: asleep_def)

lemma whenk_simp [simp]: "whenk True m = m" "whenk False m = ret ()"
  by (simp_all add: whenk_def)

lemma bnd_Inr: "bnd m f s = Inr (y, t) \<longleftrightarrow> (\<exists>x s'. m s = Inr (x, s') \<and> f x s' = Inr (y, t))"
  by (auto simp: bnd_def split: sum.splits prod.splits)

lemma bnd_step [simp]: "m s = Inr (x, s') \<Longrightarrow> bnd m f s = f x s'"
  by (simp add: bnd_def)

lemma bnd_fail: "m s = Inl e \<Longrightarrow> bnd m f s = Inl e"
  by (simp add: bnd_def)

lemma sq_step [simp]: "m s = Inr (x, s') \<Longrightarrow> sq m m' s = m' s'"
  by (simp add: sq_def)

lemma sq_fail: "m s = Inl e \<Longrightarrow> sq m m' s = Inl e"
  by (simp add: sq_def bnd_fail)

lemma sq_Inr: "sq m m' s = Inr (y, t) \<longleftrightarrow> (\<exists>x s'. m s = Inr (x, s') \<and> m' s' = Inr (y, t))"
  by (simp add: sq_def bnd_Inr)

subsection \<open>Triples\<close>

text \<open>
  \<open>valid P m Q\<close>: every run of \<open>m\<close> from a state in \<open>P\<close> that returns, returns in \<open>Q\<close>.
  \<open>validT P m Q\<close>: every run of \<open>m\<close> from a state in \<open>P\<close> returns, and in \<open>Q\<close>: it neither panics
  nor sleeps.
\<close>

definition valid :: "('s \<Rightarrow> bool) \<Rightarrow> ('s, 'a) kmon \<Rightarrow> ('a \<Rightarrow> 's \<Rightarrow> bool) \<Rightarrow> bool" where
  "valid P m Q \<longleftrightarrow> (\<forall>s x s'. P s \<longrightarrow> m s = Inr (x, s') \<longrightarrow> Q x s')"

definition validT :: "('s \<Rightarrow> bool) \<Rightarrow> ('s, 'a) kmon \<Rightarrow> ('a \<Rightarrow> 's \<Rightarrow> bool) \<Rightarrow> bool" where
  "validT P m Q \<longleftrightarrow> (\<forall>s. P s \<longrightarrow> (\<exists>x s'. m s = Inr (x, s') \<and> Q x s'))"

lemma validI: "(\<And>s x s'. P s \<Longrightarrow> m s = Inr (x, s') \<Longrightarrow> Q x s') \<Longrightarrow> valid P m Q"
  by (auto simp: valid_def)

lemma validD: "valid P m Q \<Longrightarrow> P s \<Longrightarrow> m s = Inr (x, s') \<Longrightarrow> Q x s'"
  by (auto simp: valid_def)

lemma validTD: "validT P m Q \<Longrightarrow> P s \<Longrightarrow> \<exists>x s'. m s = Inr (x, s') \<and> Q x s'"
  by (auto simp: validT_def)

lemma validT_valid: "validT P m Q \<Longrightarrow> valid P m Q"
  by (fastforce simp: validT_def valid_def)

lemma valid_ret [hoare_rules]: "valid (Q x) (ret x) Q"
  by (simp add: valid_def)

lemma valid_rd [hoare_rules]: "valid (\<lambda>s. Q (f s) s) (rd f) Q"
  by (simp add: valid_def)

lemma valid_upd [hoare_rules]: "valid (\<lambda>s. Q () (f s)) (upd f) Q"
  by (simp add: valid_def)

lemma valid_panic [hoare_rules]: "valid P (panic msg) Q"
  by (simp add: valid_def)

lemma valid_asleep [hoare_rules]: "valid P (asleep c) Q"
  by (simp add: valid_def)

lemma valid_bnd: "valid P m R \<Longrightarrow> (\<And>x. valid (R x) (f x) Q) \<Longrightarrow> valid P (bnd m f) Q"
  by (fastforce simp: valid_def bnd_Inr)

lemma valid_sq: "valid P m (\<lambda>_. R) \<Longrightarrow> valid R m' Q \<Longrightarrow> valid P (sq m m') Q"
  by (fastforce simp: valid_def sq_Inr)

lemma valid_weaken: "valid P' m Q' \<Longrightarrow> (\<And>s. P s \<Longrightarrow> P' s) \<Longrightarrow> (\<And>x s. Q' x s \<Longrightarrow> Q x s) \<Longrightarrow> valid P m Q"
  by (simp add: valid_def) blast

lemma valid_if:
  "(b \<Longrightarrow> valid P m Q) \<Longrightarrow> (\<not> b \<Longrightarrow> valid P m' Q) \<Longrightarrow> valid P (if b then m else m') Q"
  by simp

lemma valid_for_all:
  assumes "\<And>i. i \<in> set is \<Longrightarrow> valid I (body i) (\<lambda>_. I)"
  shows "valid I (for_all is body) (\<lambda>_. I)"
  using assms
proof (induction "is")
  case Nil
  then show ?case by (simp add: valid_def)
next
  case (Cons i "is")
  then show ?case unfolding for_all.simps by (intro valid_sq) simp_all
qed

lemma valid_for_ret:
  assumes "\<And>i. i \<in> set is \<Longrightarrow> valid I (body i) (\<lambda>r s. case r of None \<Rightarrow> I s | Some x \<Rightarrow> Q (Some x) s)"
    and "\<And>s. I s \<Longrightarrow> Q None s"
  shows "valid I (for_ret is body) Q"
  using assms(1)
proof (induction "is")
  case Nil
  with assms(2) show ?case by (simp add: valid_def)
next
  case (Cons i "is")
  have "valid I (body i) (\<lambda>r s. case r of None \<Rightarrow> I s | Some x \<Rightarrow> Q (Some x) s)"
    using Cons.prems by simp
  moreover have "valid I (for_ret is body) Q"
    using Cons by simp
  ultimately show ?case
    unfolding for_ret.simps by (intro valid_bnd) (auto simp: valid_def split: option.splits)
qed

text \<open>A counting loop that returns: an invariant indexed by the counter.\<close>

lemma for_all_upt:
  assumes "\<And>k s. k < n \<Longrightarrow> I k s \<Longrightarrow> \<exists>s'. body k s = Inr ((), s') \<and> I (Suc k) s'" "I 0 s"
  shows "\<exists>s'. for_all [0..<n] body s = Inr ((), s') \<and> I n s'"
proof -
  have "\<exists>s'. for_all [k..<n] body s = Inr ((), s') \<and> I n s'" if "I k s" "k \<le> n" for k s
    using that
  proof (induction "n - k" arbitrary: k s)
    case 0
    then show ?case by simp
  next
    case (Suc m)
    then have k: "k < n" by simp
    obtain t where t: "body k s = Inr ((), t)" "I (Suc k) t" using assms(1)[OF k Suc.prems(1)] by blast
    have "m = n - Suc k" "Suc k \<le> n" using Suc.hyps(2) k by auto
    from Suc.hyps(1)[OF this(1) t(2) this(2)] t(1) k show ?case by (simp add: upt_conv_Cons)
  qed
  with assms(2) show ?thesis by simp
qed

lemma valid_conj: "valid P m Q \<Longrightarrow> valid P' m Q' \<Longrightarrow> valid (\<lambda>s. P s \<and> P' s) m (\<lambda>x s. Q x s \<and> Q' x s)"
  by (auto simp: valid_def)

subsection \<open>Frame conditions\<close>

definition keeps :: "('s \<Rightarrow> 'v) \<Rightarrow> ('s, 'a) kmon \<Rightarrow> bool" where
  "keeps f m \<longleftrightarrow> (\<forall>s x s'. m s = Inr (x, s') \<longrightarrow> f s' = f s)"

lemma keepsD: "keeps f m \<Longrightarrow> m s = Inr (x, s') \<Longrightarrow> f s' = f s"
  by (auto simp: keeps_def)

lemma keeps_ret [frame_rules]: "keeps f (ret x)"
  by (simp add: keeps_def)

lemma keeps_rd [frame_rules]: "keeps f (rd g)"
  by (simp add: keeps_def)

lemma keeps_panic [frame_rules]: "keeps f (panic msg)"
  by (simp add: keeps_def)

lemma keeps_asleep [frame_rules]: "keeps f (asleep c)"
  by (simp add: keeps_def)

lemma keeps_bnd [frame_rules]: "keeps f m \<Longrightarrow> (\<And>x. keeps f (g x)) \<Longrightarrow> keeps f (bnd m g)"
  by (fastforce simp: keeps_def bnd_Inr)

lemma keeps_sq [frame_rules]: "keeps f m \<Longrightarrow> keeps f m' \<Longrightarrow> keeps f (sq m m')"
  by (fastforce simp: keeps_def sq_Inr)

lemma keeps_if [frame_rules]: "keeps f m \<Longrightarrow> keeps f m' \<Longrightarrow> keeps f (if b then m else m')"
  by simp

lemma keeps_whenk [frame_rules]: "keeps f m \<Longrightarrow> keeps f (whenk b m)"
  by (simp add: whenk_def keeps_ret)

lemma keeps_case_option [frame_rules]:
  "keeps f m \<Longrightarrow> (\<And>x. keeps f (g x)) \<Longrightarrow> keeps f (case r of None \<Rightarrow> m | Some x \<Rightarrow> g x)"
  by (cases r) auto

lemma keeps_let [frame_rules]: "keeps f (g x) \<Longrightarrow> keeps f (let y = x in g y)"
  by simp

lemma keeps_case_prod [frame_rules]:
  "(\<And>x y. keeps f (g x y)) \<Longrightarrow> keeps f (case p of (x, y) \<Rightarrow> g x y)"
  by (cases p) auto

lemma keeps_upd: "(\<And>s. f (g s) = f s) \<Longrightarrow> keeps f (upd g)"
  by (simp add: keeps_def)

lemma keeps_for_all [frame_rules]: "(\<And>i. keeps f (body i)) \<Longrightarrow> keeps f (for_all is body)"
  by (induction "is") (auto intro: frame_rules)

lemma keeps_for_ret [frame_rules]: "(\<And>i. keeps f (body i)) \<Longrightarrow> keeps f (for_ret is body)"
  by (induction "is") (auto intro!: frame_rules)

subsection \<open>What no outcome changes\<close>

text \<open>
  The state in which a computation ends, however it ends, and the frame condition over all outcomes,
  panics and sleeps included; computations that never return.
\<close>

definition final :: "(kerr \<times> 's) + ('a \<times> 's) \<Rightarrow> 's" where
  "final r = (case r of Inl (_, s) \<Rightarrow> s | Inr (_, s) \<Rightarrow> s)"

definition stays :: "('s \<Rightarrow> 'v) \<Rightarrow> ('s, 'a) kmon \<Rightarrow> bool" where
  "stays f m \<longleftrightarrow> (\<forall>s. f (final (m s)) = f s)"

lemma final_simps [simp]: "final (Inl (e, s)) = s" "final (Inr (x, s)) = s"
  by (simp_all add: final_def)

lemma stays_basic [stay_rules]:
  "stays f (ret x)" "stays f (rd g)" "stays f (panic msg)" "stays f (asleep c)"
  by (simp_all add: stays_def)

lemma stays_bnd [stay_rules]:
  assumes "stays f m" "\<And>x. stays f (g x)"
  shows "stays f (bnd m g)"
proof -
  have "f (final (bnd m g s)) = f s" for s
  proof (cases "m s")
    case (Inl e)
    then show ?thesis using assms(1) by (cases e) (auto simp: bnd_fail stays_def dest: spec[of _ s])
  next
    case (Inr r)
    obtain x t where r: "r = (x, t)" by (cases r)
    have "f t = f s" using assms(1) Inr r by (auto simp: stays_def dest: spec[of _ s])
    then show ?thesis using assms(2)[of x] Inr r by (simp add: stays_def)
  qed
  then show ?thesis by (simp add: stays_def)
qed

lemma stays_sq [stay_rules]: "stays f m \<Longrightarrow> stays f m' \<Longrightarrow> stays f (sq m m')"
  unfolding sq_def by (intro stays_bnd)

lemma stays_if [stay_rules]: "(b \<Longrightarrow> stays f m) \<Longrightarrow> (\<not> b \<Longrightarrow> stays f m') \<Longrightarrow> stays f (if b then m else m')"
  by simp

lemma stays_whenk [stay_rules]: "stays f m \<Longrightarrow> stays f (whenk b m)"
  by (simp add: whenk_def stays_basic)

lemma stays_case_option [stay_rules]:
  "(r = None \<Longrightarrow> stays f m) \<Longrightarrow> (\<And>x. r = Some x \<Longrightarrow> stays f (g x)) \<Longrightarrow> stays f (case r of None \<Rightarrow> m | Some x \<Rightarrow> g x)"
  by (cases r) auto

lemma stays_case_prod [stay_rules]: "(\<And>x y. p = (x, y) \<Longrightarrow> stays f (g x y)) \<Longrightarrow> stays f (case p of (x, y) \<Rightarrow> g x y)"
  by (cases p) auto

lemma stays_case_list [stay_rules]:
  "(xs = [] \<Longrightarrow> stays f m) \<Longrightarrow> (\<And>y ys. xs = y # ys \<Longrightarrow> stays f (g y ys)) \<Longrightarrow> stays f (case xs of [] \<Rightarrow> m | y # ys \<Rightarrow> g y ys)"
  by (cases xs) auto

lemma stays_let [stay_rules]: "stays f (g x) \<Longrightarrow> stays f (let y = x in g y)"
  by simp

lemma stays_for_all [stay_rules]: "(\<And>i. stays f (body i)) \<Longrightarrow> stays f (for_all is body)"
  by (induction "is") (auto intro: stay_rules)

lemma stays_for_ret [stay_rules]: "(\<And>i. stays f (body i)) \<Longrightarrow> stays f (for_ret is body)"
  by (induction "is") (auto intro!: stay_rules)

lemma stays_upd [stay_rules]: "(\<And>s. f (g s) = f s) \<Longrightarrow> stays f (upd g)"
  by (simp add: stays_def)

lemma stays_final: "stays f m \<Longrightarrow> f (final (m s)) = f s"
  by (simp add: stays_def)

lemma final_bnd:
  assumes "f (final (m s)) = f s" "\<And>x t. m s = Inr (x, t) \<Longrightarrow> f (final (g x t)) = f t"
  shows "f (final (bnd m g s)) = f s"
proof (cases "m s")
  case (Inl e)
  then show ?thesis using assms(1) by (cases e) (simp add: bnd_fail)
next
  case (Inr r)
  then show ?thesis using assms by (cases r) simp
qed

lemma final_sq:
  "f (final (m s)) = f s \<Longrightarrow> (\<And>x t. m s = Inr (x, t) \<Longrightarrow> f (final (m' t)) = f t) \<Longrightarrow> f (final (sq m m' s)) = f s"
  unfolding sq_def by (rule final_bnd)

lemma stays_return: "stays f m \<Longrightarrow> m s = Inr (x, t) \<Longrightarrow> f t = f s"
  unfolding stays_def by (metis final_simps(2))

definition noreturn :: "('s, 'a) kmon \<Rightarrow> bool" where
  "noreturn m \<longleftrightarrow> (\<forall>s. \<exists>e. m s = Inl e)"

lemma noreturn_basic: "noreturn (panic msg)" "noreturn (asleep c)"
  by (simp_all add: noreturn_def)

lemma noreturn_bnd: "(\<And>x. noreturn (g x)) \<Longrightarrow> noreturn (bnd m g)"
  by (fastforce simp: noreturn_def bnd_def split: sum.splits)

lemma noreturn_sq: "noreturn m' \<Longrightarrow> noreturn (sq m m')"
  unfolding sq_def by (rule noreturn_bnd)

lemma noreturn_if: "noreturn m \<Longrightarrow> noreturn m' \<Longrightarrow> noreturn (if b then m else m')"
  by simp

subsection \<open>Little-endian values in byte arrays\<close>

definition byte_of :: "nat \<Rightarrow> 'w::len word \<Rightarrow> u8" where
  "byte_of i v = ucast (drop_bit i v)"

definition get16 :: "bytes \<Rightarrow> nat \<Rightarrow> u16" where
  "get16 d k = ucast (d ! k) OR push_bit 8 (ucast (d ! (k + 1)))"

definition get32 :: "bytes \<Rightarrow> nat \<Rightarrow> u32" where
  "get32 d k = ucast (d ! k) OR push_bit 8 (ucast (d ! (k + 1)))
     OR push_bit 16 (ucast (d ! (k + 2))) OR push_bit 24 (ucast (d ! (k + 3)))"

definition get_bytes :: "bytes \<Rightarrow> nat \<Rightarrow> nat \<Rightarrow> bytes" where
  "get_bytes d k n = take n (drop k d)"

definition put_bytes :: "bytes \<Rightarrow> nat \<Rightarrow> bytes \<Rightarrow> bytes" where
  "put_bytes d k xs = take k d @ xs @ drop (k + length xs) d"

definition put16 :: "bytes \<Rightarrow> nat \<Rightarrow> u16 \<Rightarrow> bytes" where
  "put16 d k v = put_bytes d k [byte_of 0 v, byte_of 8 v]"

definition put32 :: "bytes \<Rightarrow> nat \<Rightarrow> u32 \<Rightarrow> bytes" where
  "put32 d k v = put_bytes d k [byte_of 0 v, byte_of 8 v, byte_of 16 v, byte_of 24 v]"

lemma length_put_bytes [simp]: "k + length xs \<le> length d \<Longrightarrow> length (put_bytes d k xs) = length d"
  by (simp add: put_bytes_def)

lemma length_put16 [simp]: "k + 2 \<le> length d \<Longrightarrow> length (put16 d k v) = length d"
  by (simp add: put16_def)

lemma length_put32 [simp]: "k + 4 \<le> length d \<Longrightarrow> length (put32 d k v) = length d"
  by (simp add: put32_def)

lemma nth_put_bytes:
  assumes "k + length xs \<le> length d" "i < length d"
  shows "put_bytes d k xs ! i = (if k \<le> i \<and> i < k + length xs then xs ! (i - k) else d ! i)"
proof -
  consider "i < k" | "k \<le> i" "i < k + length xs" | "k + length xs \<le> i" by linarith
  then show ?thesis
  proof cases
    case 3
    then obtain j where "i = k + length xs + j" using le_Suc_ex by blast
    with assms show ?thesis by (simp add: put_bytes_def nth_append)
  qed (use assms in \<open>auto simp: put_bytes_def nth_append\<close>)
qed

lemma word_of_bytes32:
  fixes v :: u32
  shows "ucast (byte_of 0 v) OR push_bit 8 (ucast (byte_of 8 v)) OR push_bit 16 (ucast (byte_of 16 v))
     OR push_bit 24 (ucast (byte_of 24 v)) = v"
proof (rule bit_word_eqI)
  fix n assume n: "n < LENGTH(32)"
  consider "n < 8" | "8 \<le> n" "n < 16" | "16 \<le> n" "n < 24" | "24 \<le> n" by linarith
  then show "bit (ucast (byte_of 0 v) OR push_bit 8 (ucast (byte_of 8 v))
      OR push_bit 16 (ucast (byte_of 16 v)) OR push_bit 24 (ucast (byte_of 24 v)) :: u32) n = bit v n"
    using n by cases (auto simp: byte_of_def bit_simps)
qed

lemma word_of_bytes16:
  fixes v :: u16
  shows "ucast (byte_of 0 v) OR push_bit 8 (ucast (byte_of 8 v)) = v"
proof (rule bit_word_eqI)
  fix n assume n: "n < LENGTH(16)"
  consider "n < 8" | "8 \<le> n" by linarith
  then show "bit (ucast (byte_of 0 v) OR push_bit 8 (ucast (byte_of 8 v)) :: u16) n = bit v n"
    using n by cases (auto simp: byte_of_def bit_simps)
qed

lemma get32_put32: "k + 4 \<le> length d \<Longrightarrow> get32 (put32 d k v) k = v"
  by (simp add: get32_def put32_def nth_put_bytes word_of_bytes32)

lemma get16_put16: "k + 2 \<le> length d \<Longrightarrow> get16 (put16 d k v) k = v"
  by (simp add: get16_def put16_def nth_put_bytes word_of_bytes16)

text \<open>A read outside the bytes that a write touches sees the old value.\<close>

lemma nth_put_bytes_other:
  assumes "k + length xs \<le> length d" "i < length d" "i < k \<or> k + length xs \<le> i"
  shows "put_bytes d k xs ! i = d ! i"
  using assms by (auto simp: nth_put_bytes)

lemma get32_put_bytes_other:
  assumes "k + length xs \<le> length d" "j + 4 \<le> length d" "j + 4 \<le> k \<or> k + length xs \<le> j"
  shows "get32 (put_bytes d k xs) j = get32 d j"
proof -
  have "put_bytes d k xs ! i = d ! i" if "j \<le> i" "i < j + 4" for i
    using assms that by (intro nth_put_bytes_other) auto
  then show ?thesis by (simp add: get32_def)
qed

lemma get16_put_bytes_other:
  assumes "k + length xs \<le> length d" "j + 2 \<le> length d" "j + 2 \<le> k \<or> k + length xs \<le> j"
  shows "get16 (put_bytes d k xs) j = get16 d j"
proof -
  have "put_bytes d k xs ! i = d ! i" if "j \<le> i" "i < j + 2" for i
    using assms that by (intro nth_put_bytes_other) auto
  then show ?thesis by (simp add: get16_def)
qed

lemma get32_put32_other:
  "k + 4 \<le> length d \<Longrightarrow> j + 4 \<le> length d \<Longrightarrow> j + 4 \<le> k \<or> k + 4 \<le> j \<Longrightarrow> get32 (put32 d k v) j = get32 d j"
  unfolding put32_def by (rule get32_put_bytes_other) auto

lemma get32_put16_other:
  "k + 2 \<le> length d \<Longrightarrow> j + 4 \<le> length d \<Longrightarrow> j + 4 \<le> k \<or> k + 2 \<le> j \<Longrightarrow> get32 (put16 d k v) j = get32 d j"
  unfolding put16_def by (rule get32_put_bytes_other) auto

lemma get16_put32_other:
  "k + 4 \<le> length d \<Longrightarrow> j + 2 \<le> length d \<Longrightarrow> j + 2 \<le> k \<or> k + 4 \<le> j \<Longrightarrow> get16 (put32 d k v) j = get16 d j"
  unfolding put32_def by (rule get16_put_bytes_other) auto

lemma get16_put16_other:
  "k + 2 \<le> length d \<Longrightarrow> j + 2 \<le> length d \<Longrightarrow> j + 2 \<le> k \<or> k + 2 \<le> j \<Longrightarrow> get16 (put16 d k v) j = get16 d j"
  unfolding put16_def by (rule get16_put_bytes_other) auto

lemmas le_access = get32_put32 get16_put16 get32_put32_other get32_put16_other get16_put32_other
  get16_put16_other

lemma get_bytes_put_bytes:
  "k + length xs \<le> length d \<Longrightarrow> get_bytes (put_bytes d k xs) k (length xs) = xs"
  by (simp add: get_bytes_def put_bytes_def)

subsection \<open>Signed readings\<close>

lemma sint32_eq: "sint (x :: u32) = (if uint x < 2 ^ 31 then uint x else uint x - 2 ^ 32)"
proof -
  have u: "0 \<le> uint x" "uint x < 2 ^ 32" using uint_lt2p[of x] by simp_all
  have "sint x = (uint x + 2 ^ 31) mod 2 ^ 32 - 2 ^ 31"
    by (simp add: sint_uint signed_take_bit_eq_take_bit_shift take_bit_eq_mod)
  also have "\<dots> = (if uint x < 2 ^ 31 then uint x else uint x - 2 ^ 32)"
  proof (cases "uint x < 2 ^ 31")
    case True
    with u have "(uint x + 2 ^ 31) mod 2 ^ 32 = uint x + 2 ^ 31" by (intro mod_pos_pos_trivial) simp_all
    with True show ?thesis by simp
  next
    case False
    have "(uint x + 2 ^ 31) mod 2 ^ 32 = (uint x - 2 ^ 31) mod 2 ^ 32"
      using mod_add_self2[of "uint x - 2 ^ 31" "2 ^ 32"] by (simp add: add.commute)
    also have "\<dots> = uint x - 2 ^ 31" using False u by (intro mod_pos_pos_trivial) simp_all
    finally show ?thesis using False by simp
  qed
  finally show ?thesis .
qed

end
