(* ===== verification/Spinlock.thy ===== *)
theory Spinlock
  imports Prelude
begin

text \<open>
  Spin locks and the nesting of disabled interrupts, \<^verbatim>\<open>kernel/spinlock.c\<close>, with \<open>mycpu\<close> of
  \<^verbatim>\<open>kernel/proc.c\<close> and the \<open>xchg\<close> instruction of \<^verbatim>\<open>kernel/x86.h\<close>. Several processors share one lock;
  \<open>a\<close> is the id of the local interrupt controller of the processor that runs the code, \<open>iflag\<close> the
  interrupt flag of each processor. \<open>acquire\<close> and \<open>release\<close> are cut where another processor can see a
  difference, so that the steps of several processors can be interleaved. The call stack that
  \<open>acquire\<close> records is an argument.
\<close>

record cpu =
  c_apicid :: nat
  c_ncli :: int
  c_intena :: bool

record spinlock =
  sl_locked :: bool
  sl_name :: string
  sl_cpu :: "nat option"
  sl_pcs :: "u32 list"

record smp =
  cpus :: "cpu list"
  iflag :: "nat \<Rightarrow> bool"
  lk :: spinlock

definition initlock :: "string \<Rightarrow> spinlock \<Rightarrow> spinlock" where
  "initlock nm l = l\<lparr>sl_name := nm, sl_locked := False, sl_cpu := None\<rparr>"

definition mycpu :: "nat \<Rightarrow> (smp, nat) kmon" where
  "mycpu a = bnd (rd (\<lambda>s. iflag s a)) (\<lambda>f.
     if f then panic (''mycpu called with interrupts enabled'' @ [CHR 0x0A])
     else bnd (rd cpus) (\<lambda>cs. case find (\<lambda>i. c_apicid (cs ! i) = a) [0..<length cs] of
       Some i \<Rightarrow> ret i
     | None \<Rightarrow> panic (''unknown apicid'' @ [CHR 0x0A])))"

definition upd_cpu :: "nat \<Rightarrow> (cpu \<Rightarrow> cpu) \<Rightarrow> smp \<Rightarrow> smp" where
  "upd_cpu i f s = s\<lparr>cpus := (cpus s)[i := f (cpus s ! i)]\<rparr>"

definition pushcli :: "nat \<Rightarrow> (smp, unit) kmon" where
  "pushcli a = bnd (rd (\<lambda>s. iflag s a)) (\<lambda>e.
     sq (upd (\<lambda>s. s\<lparr>iflag := (iflag s)(a := False)\<rparr>))
     (bnd (mycpu a) (\<lambda>c. bnd (rd (\<lambda>s. c_ncli (cpus s ! c))) (\<lambda>n.
       sq (whenk (n = 0) (upd (upd_cpu c (\<lambda>x. x\<lparr>c_intena := e\<rparr>))))
          (upd (upd_cpu c (\<lambda>x. x\<lparr>c_ncli := c_ncli x + 1\<rparr>)))))))"

definition popcli :: "nat \<Rightarrow> (smp, unit) kmon" where
  "popcli a = bnd (rd (\<lambda>s. iflag s a)) (\<lambda>e. if e then panic ''popcli - interruptible''
     else bnd (mycpu a) (\<lambda>c. sq (upd (upd_cpu c (\<lambda>x. x\<lparr>c_ncli := c_ncli x - 1\<rparr>)))
       (bnd (rd (\<lambda>s. cpus s ! c)) (\<lambda>x.
          if c_ncli x < 0 then panic ''popcli''
          else whenk (c_ncli x = 0 \<and> c_intena x) (upd (\<lambda>s. s\<lparr>iflag := (iflag s)(a := True)\<rparr>))))))"

definition holding :: "nat \<Rightarrow> (smp, bool) kmon" where
  "holding a = sq (pushcli a) (bnd (rd (\<lambda>s. sl_locked (lk s))) (\<lambda>l.
     bnd (if l then bnd (mycpu a) (\<lambda>c. rd (\<lambda>s. sl_cpu (lk s) = Some c)) else ret False) (\<lambda>r.
       sq (popcli a) (ret r))))"

text \<open>\<open>acquire\<close> up to its loop, one turn of the loop, and what follows it.\<close>

definition acquire_enter :: "nat \<Rightarrow> (smp, unit) kmon" where
  "acquire_enter a = sq (pushcli a) (bnd (holding a) (\<lambda>h. whenk h (panic ''acquire'')))"

definition xchg_lock :: "(smp, bool) kmon" where
  "xchg_lock = bnd (rd (\<lambda>s. sl_locked (lk s))) (\<lambda>l.
     sq (upd (\<lambda>s. s\<lparr>lk := (lk s)\<lparr>sl_locked := True\<rparr>\<rparr>)) (ret l))"

definition acquire_leave :: "nat \<Rightarrow> u32 list \<Rightarrow> (smp, unit) kmon" where
  "acquire_leave a pcs = bnd (mycpu a) (\<lambda>c. upd (\<lambda>s. s\<lparr>lk := (lk s)\<lparr>sl_cpu := Some c, sl_pcs := pcs\<rparr>\<rparr>))"

text \<open>\<open>release\<close> up to the store that frees the lock, and the rest.\<close>

definition release_enter :: "nat \<Rightarrow> (smp, unit) kmon" where
  "release_enter a = bnd (holding a) (\<lambda>h. if \<not> h then panic ''release''
     else upd (\<lambda>s. s\<lparr>lk := (lk s)\<lparr>sl_pcs := (sl_pcs (lk s))[0 := 0], sl_cpu := None\<rparr>\<rparr>))"

definition release_leave :: "nat \<Rightarrow> (smp, unit) kmon" where
  "release_leave a = sq (upd (\<lambda>s. s\<lparr>lk := (lk s)\<lparr>sl_locked := False\<rparr>\<rparr>)) (popcli a)"

subsection \<open>What the operations do on a processor that is in the table\<close>

text \<open>Processor \<open>a\<close> is entry \<open>i\<close> of the table.\<close>

definition is_cpu :: "smp \<Rightarrow> nat \<Rightarrow> nat \<Rightarrow> bool" where
  "is_cpu s a i \<longleftrightarrow> distinct (map c_apicid (cpus s)) \<and> i < length (cpus s) \<and> c_apicid (cpus s ! i) = a"

definition push_cpu :: "bool \<Rightarrow> cpu \<Rightarrow> cpu" where
  "push_cpu e c = c\<lparr>c_intena := (if c_ncli c = 0 then e else c_intena c), c_ncli := c_ncli c + 1\<rparr>"

lemma mycpu_is:
  assumes "is_cpu s a i" "\<not> iflag s a"
  shows "mycpu a s = Inr (i, s)"
proof -
  have "find (\<lambda>j. c_apicid (cpus s ! j) = a) [0..<length (cpus s)] = Some i"
    using assms(1) by (auto simp: is_cpu_def find_Some_iff nth_eq_iff_index_eq distinct_conv_nth intro!: exI[of _ i])
  with assms(2) show ?thesis by (simp add: mycpu_def)
qed

lemma is_cpu_upd [simp]:
  "(\<And>x. c_apicid (f x) = c_apicid x) \<Longrightarrow> is_cpu (upd_cpu j f s) a i \<longleftrightarrow> is_cpu s a i"
proof -
  assume f: "\<And>x. c_apicid (f x) = c_apicid x"
  have "map c_apicid ((cpus s)[j := f (cpus s ! j)]) = map c_apicid (cpus s)"
    by (cases "j < length (cpus s)") (simp_all add: map_update f list_update_same_conv list_update_beyond)
  then show ?thesis unfolding is_cpu_def upd_cpu_def by (cases "i = j"; cases "j < length (cpus s)") (auto simp: f list_update_beyond)
qed

lemma is_cpu_simps [simp]:
  "is_cpu (s\<lparr>iflag := g\<rparr>) a i \<longleftrightarrow> is_cpu s a i" "is_cpu (s\<lparr>lk := l\<rparr>) a i \<longleftrightarrow> is_cpu s a i"
  by (simp_all add: is_cpu_def)

lemma upd_cpu_simps [simp]:
  "iflag (upd_cpu i f s) = iflag s" "lk (upd_cpu i f s) = lk s" "length (cpus (upd_cpu i f s)) = length (cpus s)"
  by (simp_all add: upd_cpu_def)

lemma pushcli_is:
  assumes "is_cpu s a i"
  shows "pushcli a s = Inr ((), upd_cpu i (push_cpu (iflag s a)) (s\<lparr>iflag := (iflag s)(a := False)\<rparr>))"
proof -
  have "mycpu a (s\<lparr>iflag := (iflag s)(a := False)\<rparr>) = Inr (i, s\<lparr>iflag := (iflag s)(a := False)\<rparr>)"
    using assms by (intro mycpu_is) simp_all
  moreover have "i < length (cpus s)" using assms by (simp add: is_cpu_def)
  ultimately show ?thesis by (simp add: pushcli_def upd_cpu_def push_cpu_def whenk_def)
qed

lemma popcli_is:
  assumes "is_cpu s a i" "\<not> iflag s a" "c_ncli (cpus s ! i) \<ge> 1"
  shows "popcli a s = Inr ((), (upd_cpu i (\<lambda>x. x\<lparr>c_ncli := c_ncli x - 1\<rparr>) s)
     \<lparr>iflag := (iflag s)(a := c_ncli (cpus s ! i) = 1 \<and> c_intena (cpus s ! i))\<rparr>)"
proof -
  have "i < length (cpus s)" using assms by (simp add: is_cpu_def)
  moreover have "iflag s = (iflag s)(a := False)" using assms(2) by (simp add: fun_upd_idem)
  ultimately show ?thesis using mycpu_is[OF assms(1,2)] assms(2,3)
    by (cases s) (auto simp: popcli_def upd_cpu_def whenk_def)
qed

text \<open>Inside a pair, \<open>holding\<close> changes nothing.\<close>

lemma holding_is:
  assumes "is_cpu s a i" "\<not> iflag s a" "c_ncli (cpus s ! i) \<ge> 1"
  shows "holding a s = Inr (sl_locked (lk s) \<and> sl_cpu (lk s) = Some i, s)"
proof -
  have i: "i < length (cpus s)" using assms(1) by (simp add: is_cpu_def)
  define t where "t = upd_cpu i (push_cpu (iflag s a)) (s\<lparr>iflag := (iflag s)(a := False)\<rparr>)"
  have t: "is_cpu t a i" "\<not> iflag t a" "lk t = lk s" "cpus t ! i = push_cpu False (cpus s ! i)"
    using assms i by (auto simp: t_def push_cpu_def) (simp add: upd_cpu_def push_cpu_def)
  have "popcli a t = Inr ((), s)"
    using popcli_is[OF t(1,2)] t(4) assms(2,3) i
    by (cases s) (simp add: push_cpu_def t_def upd_cpu_def fun_upd_idem)
  then show ?thesis using pushcli_is[OF assms(1)] mycpu_is[OF t(1,2)] t(3)
    by (simp add: holding_def t_def[symmetric])
qed

subsection \<open>Several processors\<close>

datatype pc = Out | Spin | Got | Crit | Freeing

inductive step :: "smp \<times> (nat \<Rightarrow> pc) \<Rightarrow> smp \<times> (nat \<Rightarrow> pc) \<Rightarrow> bool" where
  enter: "step (s, pc) (t, pc(a := Spin))" if "pc a = Out" "is_cpu s a i" "acquire_enter a s = Inr ((), t)"
| spin: "step (s, pc) (t, pc(a := (if old then Spin else Got)))" if "pc a = Spin" "xchg_lock s = Inr (old, t)"
| acquired: "step (s, pc) (t, pc(a := Crit))" if "pc a = Got" "acquire_leave a pcs s = Inr ((), t)"
| release: "step (s, pc) (t, pc(a := Freeing))" if "pc a = Crit" "release_enter a s = Inr ((), t)"
| released: "step (s, pc) (t, pc(a := Out))" if "pc a = Freeing" "release_leave a s = Inr ((), t)"
| flag: "step (s, pc) (s\<lparr>iflag := (iflag s)(a := b)\<rparr>, pc)" if "pc a = Out" "is_cpu s a i"

definition start :: "smp \<Rightarrow> bool" where
  "start s \<longleftrightarrow> distinct (map c_apicid (cpus s)) \<and> (\<forall>c \<in> set (cpus s). c_ncli c = 0) \<and> (\<exists>nm l. lk s = initlock nm l)"

inductive reached :: "smp \<times> (nat \<Rightarrow> pc) \<Rightarrow> bool" where
  init: "start s \<Longrightarrow> reached (s, \<lambda>_. Out)"
| more: "reached c \<Longrightarrow> step c c' \<Longrightarrow> reached c'"

definition inside :: "pc \<Rightarrow> bool" where
  "inside p \<longleftrightarrow> p \<in> {Got, Crit, Freeing}"

definition lock_inv :: "smp \<times> (nat \<Rightarrow> pc) \<Rightarrow> bool" where
  "lock_inv c = (case c of (s, pc) \<Rightarrow>
     (\<forall>a. pc a \<noteq> Out \<longrightarrow> (\<exists>i. is_cpu s a i)) \<and>
     (\<forall>a i. is_cpu s a i \<longrightarrow> (if pc a = Out then c_ncli (cpus s ! i) = 0 else \<not> iflag s a \<and> c_ncli (cpus s ! i) = 1)) \<and>
     (sl_locked (lk s) \<longleftrightarrow> (\<exists>a. inside (pc a))) \<and>
     (\<forall>a b. inside (pc a) \<and> inside (pc b) \<longrightarrow> a = b) \<and>
     (\<forall>i. sl_cpu (lk s) = Some i \<longleftrightarrow> (\<exists>a. is_cpu s a i \<and> pc a = Crit)))"

lemma is_cpu_unique: "is_cpu s a i \<Longrightarrow> is_cpu s b i \<Longrightarrow> a = b" "is_cpu s a i \<Longrightarrow> is_cpu s a j \<Longrightarrow> i = j"
  by (auto simp: is_cpu_def nth_eq_iff_index_eq distinct_conv_nth) 

lemma start_inv: "start s \<Longrightarrow> lock_inv (s, \<lambda>_. Out)"
  by (auto simp: start_def lock_inv_def is_cpu_def inside_def initlock_def)

lemma acquire_enter_is:
  assumes "is_cpu s a i" "c_ncli (cpus s ! i) = 0" "sl_cpu (lk s) \<noteq> Some i"
  shows "acquire_enter a s = Inr ((), upd_cpu i (push_cpu (iflag s a)) (s\<lparr>iflag := (iflag s)(a := False)\<rparr>))"
proof -
  let ?t = "upd_cpu i (push_cpu (iflag s a)) (s\<lparr>iflag := (iflag s)(a := False)\<rparr>)"
  have i: "i < length (cpus s)" using assms(1) by (simp add: is_cpu_def)
  have "is_cpu ?t a i" "\<not> iflag ?t a" "c_ncli (cpus ?t ! i) \<ge> 1" "lk ?t = lk s"
    using assms i by (auto simp: push_cpu_def) (simp add: upd_cpu_def push_cpu_def)
  with holding_is[of ?t a i] pushcli_is[OF assms(1)] assms(3) show ?thesis by (simp add: acquire_enter_def)
qed

lemma release_leave_is:
  assumes "is_cpu s a i" "\<not> iflag s a" "c_ncli (cpus s ! i) = 1"
  shows "release_leave a s = Inr ((), (upd_cpu i (\<lambda>x. x\<lparr>c_ncli := c_ncli x - 1\<rparr>) (s\<lparr>lk := (lk s)\<lparr>sl_locked := False\<rparr>\<rparr>))
     \<lparr>iflag := (iflag s)(a := c_intena (cpus s ! i))\<rparr>)"
  using popcli_is[of "s\<lparr>lk := (lk s)\<lparr>sl_locked := False\<rparr>\<rparr>" a i] assms by (simp add: release_leave_def)

lemma cpus_upd: "i < length (cpus s) \<Longrightarrow> cpus (upd_cpu i f s) ! j = (if j = i then f (cpus s ! i) else cpus s ! j)"
  by (simp add: upd_cpu_def)

lemma push_cpu_simps [simp]: "c_apicid (push_cpu e c) = c_apicid c" "c_ncli (push_cpu e c) = c_ncli c + 1"
  by (simp_all add: push_cpu_def)

lemma lock_invD:
  assumes "lock_inv (s, pc)"
  shows "pc a \<noteq> Out \<Longrightarrow> \<exists>i. is_cpu s a i"
    "is_cpu s a i \<Longrightarrow> pc a = Out \<Longrightarrow> c_ncli (cpus s ! i) = 0"
    "is_cpu s a i \<Longrightarrow> pc a \<noteq> Out \<Longrightarrow> \<not> iflag s a \<and> c_ncli (cpus s ! i) = 1"
    "sl_locked (lk s) \<longleftrightarrow> (\<exists>a. inside (pc a))"
    "inside (pc a) \<Longrightarrow> inside (pc b) \<Longrightarrow> a = b"
    "sl_cpu (lk s) = Some i \<longleftrightarrow> (\<exists>a. is_cpu s a i \<and> pc a = Crit)"
proof -
  note inv = assms[unfolded lock_inv_def prod.case]
  show "pc a \<noteq> Out \<Longrightarrow> \<exists>i. is_cpu s a i" using inv by simp
  show "is_cpu s a i \<Longrightarrow> pc a = Out \<Longrightarrow> c_ncli (cpus s ! i) = 0" using conjunct1[OF conjunct2[OF inv]] by metis
  show "is_cpu s a i \<Longrightarrow> pc a \<noteq> Out \<Longrightarrow> \<not> iflag s a \<and> c_ncli (cpus s ! i) = 1"
    using conjunct1[OF conjunct2[OF inv]] by metis
  show "sl_locked (lk s) \<longleftrightarrow> (\<exists>a. inside (pc a))" using inv by (elim conjE)
  show "inside (pc a) \<Longrightarrow> inside (pc b) \<Longrightarrow> a = b" using inv by simp
  show "sl_cpu (lk s) = Some i \<longleftrightarrow> (\<exists>a. is_cpu s a i \<and> pc a = Crit)" using inv by (elim conjE) (erule allE)
qed

text \<open>Processor \<open>a\<close> moves to \<open>p\<close>, the others stay.\<close>

lemma lock_inv_move:
  assumes inv: "lock_inv (s, pc)" and a: "is_cpu s a i"
    and cpu: "\<And>b j. is_cpu t b j = is_cpu s b j"
    and others: "\<And>b j. is_cpu s b j \<Longrightarrow> b \<noteq> a \<Longrightarrow> c_ncli (cpus t ! j) = c_ncli (cpus s ! j) \<and> iflag t b = iflag s b"
    and me: "if p = Out then c_ncli (cpus t ! i) = 0 else \<not> iflag t a \<and> c_ncli (cpus t ! i) = 1"
    and locked: "sl_locked (lk t) \<longleftrightarrow> inside p \<or> (\<exists>b. b \<noteq> a \<and> inside (pc b))"
    and alone: "inside p \<Longrightarrow> \<forall>b. b \<noteq> a \<longrightarrow> \<not> inside (pc b)"
    and owner: "\<And>j. sl_cpu (lk t) = Some j \<longleftrightarrow> (if j = i then p = Crit else sl_cpu (lk s) = Some j)"
  shows "lock_inv (t, pc(a := p))"
proof -
  note inv = lock_invD[OF inv]
  have 1: "\<exists>j. is_cpu t b j" if "(pc(a := p)) b \<noteq> Out" for b
    using that a inv(1)[of b] by (cases "b = a") (auto simp: cpu)
  have 2: "if (pc(a := p)) b = Out then c_ncli (cpus t ! j) = 0 else \<not> iflag t b \<and> c_ncli (cpus t ! j) = 1"
    if "is_cpu t b j" for b j
  proof (cases "b = a")
    case True
    then have "j = i" using that is_cpu_unique(2)[OF a] cpu by metis
    with True show ?thesis using me by simp
  next
    case False
    with that show ?thesis using others[of b j] inv(2,3)[of b j] by (simp add: cpu)
  qed
  have 3: "sl_locked (lk t) \<longleftrightarrow> (\<exists>b. inside ((pc(a := p)) b))" unfolding locked by (metis fun_upd_apply)
  have 4: "x = y" if "inside ((pc(a := p)) x)" "inside ((pc(a := p)) y)" for x y
  proof (cases "inside p")
    case True
    then show ?thesis using that alone[OF True] by (metis fun_upd_apply)
  next
    case False
    then have "x \<noteq> a" "y \<noteq> a" using that by auto
    with that show ?thesis using inv(5)[of x y] by simp
  qed
  have 5: "sl_cpu (lk t) = Some j \<longleftrightarrow> (\<exists>b. is_cpu t b j \<and> (pc(a := p)) b = Crit)" for j
  proof (cases "j = i")
    case True
    then show ?thesis unfolding owner cpu using a is_cpu_unique(1)[OF a] by (metis fun_upd_apply)
  next
    case False
    have "b \<noteq> a" if "is_cpu s b j" for b using False is_cpu_unique(2)[OF a] that by metis
    with False show ?thesis unfolding owner cpu inv(6) by (metis fun_upd_apply)
  qed
  show ?thesis unfolding lock_inv_def prod.case using 1 2 3 4 5 by (intro conjI allI impI) (assumption | (elim conjE, assumption))+
qed

lemma inside_simps [simp]: "\<not> inside Out" "\<not> inside Spin" "inside Got" "inside Crit" "inside Freeing"
  by (simp_all add: inside_def)

lemma not_owner:
  assumes "lock_inv (s, pc)" "is_cpu s a i" "pc a \<noteq> Crit"
  shows "sl_cpu (lk s) \<noteq> Some i"
proof
  assume "sl_cpu (lk s) = Some i"
  then obtain b where b: "is_cpu s b i" "pc b = Crit" unfolding lock_invD(6)[OF assms(1)] by (elim exE conjE)
  have "b = a" by (rule is_cpu_unique(1)[OF b(1) assms(2)])
  with b(2) assms(3) show False by simp
qed

lemma others_inside:
  assumes "lock_inv (s, pc)"
  shows "\<not> inside (pc a) \<Longrightarrow> sl_locked (lk s) \<longleftrightarrow> (\<exists>b. b \<noteq> a \<and> inside (pc b))"
    "inside (pc a) \<Longrightarrow> \<forall>b. b \<noteq> a \<longrightarrow> \<not> inside (pc b)"
proof -
  show "\<not> inside (pc a) \<Longrightarrow> sl_locked (lk s) \<longleftrightarrow> (\<exists>b. b \<noteq> a \<and> inside (pc b))"
    unfolding lock_invD(4)[OF assms] by metis
  show "inside (pc a) \<Longrightarrow> \<forall>b. b \<noteq> a \<longrightarrow> \<not> inside (pc b)"
    using lock_invD(5)[OF assms, of a] by blast
qed

lemma others_cpu: "is_cpu s a i \<Longrightarrow> is_cpu s b j \<Longrightarrow> b \<noteq> a \<Longrightarrow> j \<noteq> i"
  using is_cpu_unique(1)[of s a i b] by metis

lemma out_cpu:
  assumes "lock_inv (s, pc)" "pc a \<noteq> Out"
  obtains i where "is_cpu s a i"
  using lock_invD(1)[OF assms] by (elim exE)

lemma inv_enter:
  assumes v: "lock_inv (s, pc)" and i: "is_cpu s a i" and o: "pc a = Out" and t: "acquire_enter a s = Inr ((), t)"
  shows "lock_inv (t, pc(a := Spin))"
proof -
  have l: "i < length (cpus s)" using i by (simp add: is_cpu_def)
  have z: "c_ncli (cpus s ! i) = 0" using lock_invD(2)[OF v i o] .
  have nc: "sl_cpu (lk s) \<noteq> Some i" using not_owner[OF v i] o by simp
  have t: "t = upd_cpu i (push_cpu (iflag s a)) (s\<lparr>iflag := (iflag s)(a := False)\<rparr>)"
    using acquire_enter_is[OF i z nc] t by simp
  show ?thesis
  proof (rule lock_inv_move[OF v i])
    fix b j assume "is_cpu s b j" "b \<noteq> a"
    with others_cpu[OF i this] show "c_ncli (cpus t ! j) = c_ncli (cpus s ! j) \<and> iflag t b = iflag s b"
      using l by (simp add: t cpus_upd)
  next
    show "sl_locked (lk t) \<longleftrightarrow> inside Spin \<or> (\<exists>b. b \<noteq> a \<and> inside (pc b))"
      using others_inside(1)[OF v, of a] o by (simp add: t)
  next
    fix j show "sl_cpu (lk t) = Some j \<longleftrightarrow> (if j = i then Spin = Crit else sl_cpu (lk s) = Some j)"
      using nc by (auto simp: t)
  qed (use l z in \<open>simp_all add: t cpus_upd\<close>)
qed

lemma xchg_lock_is: "xchg_lock s = Inr (sl_locked (lk s), s\<lparr>lk := (lk s)\<lparr>sl_locked := True\<rparr>\<rparr>)"
  by (simp add: xchg_lock_def)

lemma inv_spin:
  assumes v: "lock_inv (s, pc)" and o: "pc a = Spin" and t: "xchg_lock s = Inr (old, t)"
  shows "lock_inv (t, pc(a := (if old then Spin else Got)))"
proof -
  obtain i where i: "is_cpu s a i" by (rule out_cpu[OF v, of a]) (simp_all add: o)
  have t: "old = sl_locked (lk s)" "t = s\<lparr>lk := (lk s)\<lparr>sl_locked := True\<rparr>\<rparr>" using t by (simp_all add: xchg_lock_is)
  have c: "\<not> iflag s a \<and> c_ncli (cpus s ! i) = 1" using lock_invD(3)[OF v i] o by simp
  have nc: "sl_cpu (lk s) \<noteq> Some i" using not_owner[OF v i] o by simp
  have l: "sl_locked (lk s) \<longleftrightarrow> (\<exists>b. b \<noteq> a \<and> inside (pc b))" using others_inside(1)[OF v, of a] o by simp
  show ?thesis
  proof (rule lock_inv_move[OF v i])
    show "sl_locked (lk t) \<longleftrightarrow> inside (if old then Spin else Got) \<or> (\<exists>b. b \<noteq> a \<and> inside (pc b))"
      unfolding t(1) l by (simp add: t(2))
  next
    assume "inside (if old then Spin else Got)"
    then have "\<not> sl_locked (lk s)" unfolding t(1) by (cases "sl_locked (lk s)") simp_all
    then show "\<forall>b. b \<noteq> a \<longrightarrow> \<not> inside (pc b)" unfolding l by blast
  next
    fix j show "sl_cpu (lk t) = Some j \<longleftrightarrow> (if j = i then (if old then Spin else Got) = Crit else sl_cpu (lk s) = Some j)"
      using nc by (auto simp: t(2))
  qed (use c in \<open>simp_all add: t(2)\<close>)
qed

lemma inv_acquired:
  assumes v: "lock_inv (s, pc)" and o: "pc a = Got" and t: "acquire_leave a pcs s = Inr ((), t)"
  shows "lock_inv (t, pc(a := Crit))"
proof -
  obtain i where i: "is_cpu s a i" by (rule out_cpu[OF v, of a]) (simp_all add: o)
  have c: "\<not> iflag s a \<and> c_ncli (cpus s ! i) = 1" using lock_invD(3)[OF v i] o by simp
  have t: "t = s\<lparr>lk := (lk s)\<lparr>sl_cpu := Some i, sl_pcs := pcs\<rparr>\<rparr>"
    using t mycpu_is[OF i] c by (simp add: acquire_leave_def)
  have u: "\<forall>b. b \<noteq> a \<longrightarrow> \<not> inside (pc b)" using others_inside(2)[OF v, of a] o by simp
  have l: "sl_locked (lk s)" unfolding lock_invD(4)[OF v] using o by (intro exI[of _ a]) simp
  have n: "sl_cpu (lk s) \<noteq> Some j" for j
  proof
    assume "sl_cpu (lk s) = Some j"
    then obtain b where b: "pc b = Crit" unfolding lock_invD(6)[OF v] by (elim exE conjE)
    then have "b \<noteq> a" using o by (cases "b = a") simp_all
    then have "\<not> inside (pc b)" by (rule u[rule_format])
    with b show False by simp
  qed
  show ?thesis
    by (rule lock_inv_move[OF v i]) (use c u l n in \<open>simp_all add: t\<close>)
qed

lemma inv_release:
  assumes v: "lock_inv (s, pc)" and o: "pc a = Crit" and t: "release_enter a s = Inr ((), t)"
  shows "lock_inv (t, pc(a := Freeing))"
proof -
  obtain i where i: "is_cpu s a i" by (rule out_cpu[OF v, of a]) (simp_all add: o)
  have c: "\<not> iflag s a \<and> c_ncli (cpus s ! i) = 1" using lock_invD(3)[OF v i] o by simp
  have u: "\<forall>b. b \<noteq> a \<longrightarrow> \<not> inside (pc b)" using others_inside(2)[OF v, of a] o by simp
  have l: "sl_locked (lk s)" unfolding lock_invD(4)[OF v] using o by (intro exI[of _ a]) simp
  have n: "sl_cpu (lk s) = Some i" unfolding lock_invD(6)[OF v] using o i by (intro exI[of _ a]) simp
  have t: "t = s\<lparr>lk := (lk s)\<lparr>sl_pcs := (sl_pcs (lk s))[0 := 0], sl_cpu := None\<rparr>\<rparr>"
    using t holding_is[OF i] c l n by (simp add: release_enter_def)
  show ?thesis
    by (rule lock_inv_move[OF v i]) (use c u l n in \<open>simp_all add: t\<close>)
qed

lemma inv_released:
  assumes v: "lock_inv (s, pc)" and o: "pc a = Freeing" and t: "release_leave a s = Inr ((), t)"
  shows "lock_inv (t, pc(a := Out))"
proof -
  obtain i where i: "is_cpu s a i" by (rule out_cpu[OF v, of a]) (simp_all add: o)
  have l: "i < length (cpus s)" using i by (simp add: is_cpu_def)
  have c: "\<not> iflag s a \<and> c_ncli (cpus s ! i) = 1" using lock_invD(3)[OF v i] o by simp
  have u: "\<forall>b. b \<noteq> a \<longrightarrow> \<not> inside (pc b)" using others_inside(2)[OF v, of a] o by simp
  have nc: "sl_cpu (lk s) \<noteq> Some i" using not_owner[OF v i] o by simp
  have t: "t = (upd_cpu i (\<lambda>x. x\<lparr>c_ncli := c_ncli x - 1\<rparr>) (s\<lparr>lk := (lk s)\<lparr>sl_locked := False\<rparr>\<rparr>))
     \<lparr>iflag := (iflag s)(a := c_intena (cpus s ! i))\<rparr>"
    using t release_leave_is[OF i] c by simp
  show ?thesis
  proof (rule lock_inv_move[OF v i])
    fix b j assume "is_cpu s b j" "b \<noteq> a"
    with others_cpu[OF i this] show "c_ncli (cpus t ! j) = c_ncli (cpus s ! j) \<and> iflag t b = iflag s b"
      using l by (simp add: t cpus_upd)
  next
    fix j show "sl_cpu (lk t) = Some j \<longleftrightarrow> (if j = i then Out = Crit else sl_cpu (lk s) = Some j)"
      using nc by (auto simp: t)
  next
    show "sl_locked (lk t) \<longleftrightarrow> inside Out \<or> (\<exists>b. b \<noteq> a \<and> inside (pc b))" using u by (simp add: t) blast
  qed (use c l in \<open>simp_all add: t cpus_upd\<close>)
qed

lemma inv_flag:
  assumes v: "lock_inv (s, pc)" and i: "is_cpu s a i" and o: "pc a = Out"
  shows "lock_inv (s\<lparr>iflag := (iflag s)(a := b)\<rparr>, pc)"
proof -
  have "lock_inv (s\<lparr>iflag := (iflag s)(a := b)\<rparr>, pc(a := Out))"
    by (rule lock_inv_move[OF v i])
      (use lock_invD(2)[OF v i o] others_inside(1)[OF v, of a] not_owner[OF v i] o in \<open>auto simp del: ex_simps\<close>)
  then show ?thesis using o by (simp add: fun_upd_idem)
qed

lemma step_inv: "step c c' \<Longrightarrow> lock_inv c \<Longrightarrow> lock_inv c'"
proof (induction rule: step.induct)
qed (rule inv_enter inv_spin inv_acquired inv_release inv_released inv_flag; assumption)+

lemma reached_inv: "reached c \<Longrightarrow> lock_inv c"
  by (induction rule: reached.induct) (blast intro: start_inv step_inv)+

text \<open>Two processors; the second has just won the lock.\<close>

definition free_lock :: spinlock where
  "free_lock = initlock ''demo'' \<lparr>sl_locked = True, sl_name = [], sl_cpu = Some 7, sl_pcs = replicate 10 0\<rparr>"

definition smp_demo :: smp where
  "smp_demo = \<lparr>cpus = [\<lparr>c_apicid = 0, c_ncli = 0, c_intena = False\<rparr>, \<lparr>c_apicid = 1, c_ncli = 0, c_intena = False\<rparr>],
     iflag = (\<lambda>_. True), lk = free_lock\<rparr>"

definition smp_held :: smp where
  "smp_held = \<lparr>cpus = [\<lparr>c_apicid = 0, c_ncli = 0, c_intena = False\<rparr>, \<lparr>c_apicid = 1, c_ncli = 1, c_intena = True\<rparr>],
     iflag = (\<lambda>_. True)(1 := False), lk = free_lock\<lparr>sl_locked := True\<rparr>\<rparr>"

lemma smp_held_reached: "reached (smp_held, (\<lambda>_. Out)(1 := Got))"
proof -
  let ?s = "smp_held\<lparr>lk := free_lock\<rparr>"
  have x: "xchg_lock ?s = Inr (False, smp_held)" by (simp add: xchg_lock_is smp_held_def free_lock_def initlock_def)
  have c: "is_cpu smp_demo 1 1" by (simp add: is_cpu_def smp_demo_def)
  have "reached (smp_demo, \<lambda>_. Out)"
    by (rule reached.init) (simp add: start_def smp_demo_def free_lock_def, blast)
  moreover have "step (smp_demo, \<lambda>_. Out) (?s, (\<lambda>_. Out)(1 := Spin))"
    by (rule step.enter[OF _ c]) (use acquire_enter_is[OF c] in
      \<open>simp_all add: smp_demo_def smp_held_def free_lock_def initlock_def upd_cpu_def push_cpu_def\<close>)
  moreover have "step (?s, (\<lambda>_. Out)(1 := Spin)) (smp_held, (\<lambda>_. Out)(1 := Got))"
    using step.spin[of "(\<lambda>_. Out)(1 := Spin)" 1, OF _ x] by simp
  ultimately show ?thesis by (blast intro: reached.more)
qed

subsection \<open>Mutual exclusion\<close>

text \<open>C4. However the steps of the processors interleave, \<open>locked\<close> is set exactly while one processor is
  between its winning \<open>xchg\<close> in \<open>acquire\<close> and the store in \<open>release\<close>, and no second one is there.\<close>

theorem spinlock_mutex:
  assumes "reached (s, pc)"
  shows "if sl_locked (lk s) then \<exists>!a. inside (pc a) else \<forall>a. \<not> inside (pc a)"
proof -
  note inv = lock_invD[OF reached_inv[OF assms]]
  show ?thesis using inv(4) inv(5) by (cases "sl_locked (lk s)") (simp_all, blast)
qed

theorem spinlock_mutex_witness: "reached (smp_held, (\<lambda>_. Out)(1 := Got)) \<and> (\<exists>!a. inside (((\<lambda>_. Out)(1 := Got)) (a::nat)))"
  using smp_held_reached spinlock_mutex[OF smp_held_reached] by (simp add: smp_held_def)

text \<open>C36. None of the panics of \<open>acquire\<close>, \<open>release\<close>, \<open>pushcli\<close>, \<open>popcli\<close> and \<open>mycpu\<close> is met, whatever the
  interleaving: the next call of every processor returns.\<close>

theorem spinlock_no_panic:
  assumes "reached (s, pc)" "is_cpu s a i"
  shows "case pc a of
      Out \<Rightarrow> \<exists>t. acquire_enter a s = Inr ((), t)
    | Spin \<Rightarrow> \<exists>old t. xchg_lock s = Inr (old, t)
    | Got \<Rightarrow> \<exists>t. acquire_leave a pcs s = Inr ((), t)
    | Crit \<Rightarrow> \<exists>t. release_enter a s = Inr ((), t)
    | Freeing \<Rightarrow> \<exists>t. release_leave a s = Inr ((), t)"
proof -
  note v = reached_inv[OF assms(1)]
  note i = assms(2)
  have c: "\<not> iflag s a" "c_ncli (cpus s ! i) = 1" if "pc a \<noteq> Out" using lock_invD(3)[OF v i that] by simp_all
  show ?thesis
  proof (cases "pc a")
    case Out
    then show ?thesis using acquire_enter_is[OF i lock_invD(2)[OF v i Out] not_owner[OF v i]] by simp
  next
    case Spin
    then show ?thesis by (simp add: xchg_lock_is)
  next
    case Got
    then show ?thesis using mycpu_is[OF i] c by (simp add: acquire_leave_def)
  next
    case Crit
    have "sl_locked (lk s)" unfolding lock_invD(4)[OF v] using Crit by (intro exI[of _ a]) simp
    moreover have "sl_cpu (lk s) = Some i" unfolding lock_invD(6)[OF v] using Crit i by (intro exI[of _ a]) simp
    ultimately show ?thesis using Crit holding_is[OF i] c by (simp add: release_enter_def)
  next
    case Freeing
    then show ?thesis using release_leave_is[OF i] c by simp
  qed
qed

theorem spinlock_no_panic_witness: "\<exists>t. acquire_leave 1 [] smp_held = Inr ((), t)"
  using spinlock_no_panic[OF smp_held_reached, of 1 1 "[]"] by (simp add: is_cpu_def smp_held_def)

end
