(* ===== verification/KString.thy ===== *)
theory KString
  imports Prelude
begin

text \<open>
  \<^verbatim>\<open>kernel/string.c\<close>. Memory is a function from 32-bit addresses to bytes; the block operations
  (\<open>memset\<close>, \<open>memcmp\<close>, \<open>memmove\<close>) work on it with the address arithmetic of the code. The string
  operations work on the bytes from their pointer to the end of the object it points into; a read
  past the end of the object is \<open>None\<close>.
\<close>

type_synonym memory = "u32 \<Rightarrow> u8"

definition load32 :: "memory \<Rightarrow> u32 \<Rightarrow> u32" where
  "load32 m a = ucast (m a) OR push_bit 8 (ucast (m (a + 1)))
     OR push_bit 16 (ucast (m (a + 2))) OR push_bit 24 (ucast (m (a + 3)))"

definition store32 :: "memory \<Rightarrow> u32 \<Rightarrow> u32 \<Rightarrow> memory" where
  "store32 m a v = m(a := byte_of 0 v, a + 1 := byte_of 8 v, a + 2 := byte_of 16 v, a + 3 := byte_of 24 v)"

subsection \<open>Block operations\<close>

fun stosb :: "memory \<Rightarrow> u32 \<Rightarrow> u8 \<Rightarrow> nat \<Rightarrow> memory" where
  "stosb m a b 0 = m"
| "stosb m a b (Suc n) = stosb (m(a := b)) (a + 1) b n"

fun stosl :: "memory \<Rightarrow> u32 \<Rightarrow> u32 \<Rightarrow> nat \<Rightarrow> memory" where
  "stosl m a v 0 = m"
| "stosl m a v (Suc n) = stosl (store32 m a v) (a + 4) v n"

definition memset :: "memory \<Rightarrow> u32 \<Rightarrow> u32 \<Rightarrow> nat \<Rightarrow> memory" where
  "memset m dst c n =
     (if unat dst mod 4 = 0 \<and> n mod 4 = 0
      then let c = c AND 0xFF
           in stosl m dst (push_bit 24 c OR push_bit 16 c OR push_bit 8 c OR c) (n div 4)
      else stosb m dst (ucast c) n)"

fun memcmp :: "bytes \<Rightarrow> bytes \<Rightarrow> nat \<Rightarrow> int option" where
  "memcmp s1 s2 0 = Some 0"
| "memcmp (x # s1) (y # s2) (Suc n) = (if x \<noteq> y then Some (uint x - uint y) else memcmp s1 s2 n)"
| "memcmp _ _ (Suc n) = None"

fun move_up :: "memory \<Rightarrow> u32 \<Rightarrow> u32 \<Rightarrow> nat \<Rightarrow> memory" where
  "move_up m d s 0 = m"
| "move_up m d s (Suc n) = move_up (m(d := m s)) (d + 1) (s + 1) n"

fun move_down :: "memory \<Rightarrow> u32 \<Rightarrow> u32 \<Rightarrow> nat \<Rightarrow> memory" where
  "move_down m d s 0 = m"
| "move_down m d s (Suc n) = move_down (m(d - 1 := m (s - 1))) (d - 1) (s - 1) n"

definition memmove :: "memory \<Rightarrow> u32 \<Rightarrow> u32 \<Rightarrow> nat \<Rightarrow> memory" where
  "memmove m dst src n =
     (if src < dst \<and> src + of_nat n > dst
      then move_down m (dst + of_nat n) (src + of_nat n) n
      else move_up m dst src n)"

definition memcpy :: "memory \<Rightarrow> u32 \<Rightarrow> u32 \<Rightarrow> nat \<Rightarrow> memory" where
  "memcpy m dst src n = memmove m dst src n"

subsection \<open>String operations\<close>

fun strncmp :: "bytes \<Rightarrow> bytes \<Rightarrow> nat \<Rightarrow> int option" where
  "strncmp p q 0 = Some 0"
| "strncmp (x # p) (y # q) (Suc n) =
     (if x \<noteq> 0 \<and> x = y then strncmp p q n else Some (uint x - uint y))"
| "strncmp _ _ (Suc n) = None"

text \<open>What \<open>strncpy\<close> stores in the \<open>n\<close> bytes at \<open>s\<close>: the string up to its NUL, then zeroes.\<close>

fun strncpy :: "bytes \<Rightarrow> nat \<Rightarrow> bytes option" where
  "strncpy t 0 = Some []"
| "strncpy [] (Suc n) = None"
| "strncpy (c # t) (Suc n) =
     (if c = 0 then Some (replicate (Suc n) 0) else map_option ((#) c) (strncpy t n))"

text \<open>What \<open>safestrcpy\<close> stores from \<open>s\<close> on, up to and including the NUL it guarantees; the bytes
  behind it stay as they were.\<close>

fun safestrcpy :: "bytes \<Rightarrow> nat \<Rightarrow> bytes option" where
  "safestrcpy t 0 = Some []"
| "safestrcpy t (Suc 0) = Some [0]"
| "safestrcpy [] (Suc (Suc n)) = None"
| "safestrcpy (c # t) (Suc (Suc n)) =
     (if c = 0 then Some [0] else map_option ((#) c) (safestrcpy t (Suc n)))"

fun strlen :: "bytes \<Rightarrow> nat option" where
  "strlen [] = None"
| "strlen (c # s) = (if c = 0 then Some 0 else map_option Suc (strlen s))"

text \<open>The C string at a pointer: the bytes before the first NUL.\<close>

definition cstr :: "bytes \<Rightarrow> bytes" where
  "cstr p = takeWhile (\<lambda>c. c \<noteq> 0) p"

subsection \<open>Correctness\<close>

lemma load32_store32: "load32 (store32 m a v) a = v"
  by (simp add: load32_def store32_def word_of_bytes32)

lemma unat_sub_Suc:
  fixes a x :: u32
  assumes "n < 2 ^ 32"
  shows "unat (a - x) < Suc n \<longleftrightarrow> a = x \<or> unat (a - (x + 1)) < n"
proof (cases "a = x")
  case False
  then have "a - x \<noteq> 0" by simp
  then have "unat (a - x - 1) = unat (a - x) - 1" by (simp add: unat_minus_one)
  moreover have "0 < unat (a - x)" using \<open>a - x \<noteq> 0\<close> by (simp add: unat_gt_0)
  ultimately show ?thesis using False by (auto simp: diff_diff_eq)
qed simp

lemma stosb_eq: "n < 2 ^ 32 \<Longrightarrow> stosb m d b n = (\<lambda>a. if unat (a - d) < n then b else m a)"
proof (induction n arbitrary: m d)
  case (Suc n)
  then have "n < 2 ^ 32" by simp
  with Suc.IH show ?case by (auto simp: fun_eq_iff unat_sub_Suc)
qed simp

lemma stosb_add: "stosb m d b (p + q) = stosb (stosb m d b p) (d + of_nat p) b q"
  by (induction p arbitrary: m d) (simp_all add: add.assoc)

lemma store32_stosb:
  assumes "byte_of 0 v = b" "byte_of 8 v = b" "byte_of 16 v = b" "byte_of 24 v = b"
  shows "store32 m a v = stosb m a b 4"
  using assms by (simp add: store32_def numeral_eq_Suc add.assoc)

lemma stosl_stosb:
  assumes "byte_of 0 v = b" "byte_of 8 v = b" "byte_of 16 v = b" "byte_of 24 v = b"
  shows "stosl m a v n = stosb m a b (4 * n)"
proof (induction n arbitrary: m a)
  case (Suc n)
  have "stosb m a b (4 * Suc n) = stosb (stosb m a b 4) (a + 4) b (4 * n)"
    using stosb_add[of m a b 4 "4 * n"] by simp
  then show ?case using Suc store32_stosb[OF assms] by simp
qed simp

lemma and_255: "c AND 0xFF = take_bit 8 (c :: u32)"
  by (simp add: take_bit_eq_mask mask_eq_exp_minus_1)

lemma bytes_of_spread:
  fixes c :: u32
  defines "v \<equiv> push_bit 24 (c AND 0xFF) OR push_bit 16 (c AND 0xFF) OR push_bit 8 (c AND 0xFF) OR (c AND 0xFF)"
  shows "byte_of 0 v = ucast c" "byte_of 8 v = ucast c" "byte_of 16 v = ucast c" "byte_of 24 v = ucast c"
  unfolding v_def byte_of_def and_255
  by (rule bit_word_eqI; auto simp: bit_simps)+

lemma memset_eq:
  assumes "n < 2 ^ 32"
  shows "memset m dst c n = (\<lambda>a. if unat (a - dst) < n then ucast c else m a)"
proof (cases "unat dst mod 4 = 0 \<and> n mod 4 = 0")
  case True
  then have "4 * (n div 4) = n" by auto
  with True have "memset m dst c n = stosb m dst (ucast c) n"
    using stosl_stosb[OF bytes_of_spread, of m dst c "n div 4"] by (simp add: memset_def Let_def)
  with assms show ?thesis by (simp add: stosb_eq)
next
  case False
  show ?thesis by (simp only: memset_def if_not_P[OF False] stosb_eq[OF assms])
qed

lemma unat_max32: "unat (- 1 :: u32) = 2 ^ 32 - 1"
  by (simp add: unat_eq_nat_uint uint_word_ariths)

text \<open>Copying upwards is right when no source byte is overwritten before it is read, and copying
  downwards likewise.\<close>

lemma move_up_eq:
  assumes "n < 2 ^ 32" "\<And>i j. i < j \<Longrightarrow> j < n \<Longrightarrow> s + of_nat j \<noteq> d + of_nat i"
  shows "move_up m d s n = (\<lambda>a. if unat (a - d) < n then m (a - d + s) else m a)"
  using assms
proof (induction n arbitrary: m d s)
  case (Suc n)
  let ?m = "m(d := m s)"
  have n: "n < 2 ^ 32" using Suc.prems by simp
  have "s + 1 + of_nat j \<noteq> d + 1 + of_nat i" if "i < j" "j < n" for i j
    using Suc.prems(2)[of "Suc i" "Suc j"] that by (simp add: algebra_simps)
  then have eq: "move_up m d s (Suc n) = (\<lambda>a. if unat (a - (d + 1)) < n then ?m (a - (d + 1) + (s + 1)) else ?m a)"
    using Suc.IH[OF n] by simp
  have src: "a - d + s \<noteq> d" if "a \<noteq> d" "unat (a - (d + 1)) < n" for a
  proof -
    have "unat (a - d) < Suc n" "0 < unat (a - d)"
      using that n by (auto simp: unat_sub_Suc unat_gt_0)
    then show ?thesis using Suc.prems(2)[of 0 "unat (a - d)"] by (simp add: add.commute)
  qed
  show ?case
  proof
    fix a
    show "move_up m d s (Suc n) a = (if unat (a - d) < Suc n then m (a - d + s) else m a)"
      unfolding eq unat_sub_Suc[OF n] using src[of a] n
      by (cases "a = d") (auto simp: algebra_simps unat_max32)
  qed
qed simp

lemma unat_eq_of_nat:
  fixes a :: u32
  assumes "n < 2 ^ 32"
  shows "unat a = n \<longleftrightarrow> a = of_nat n"
  using assms by (auto simp: unat_of_nat take_bit_nat_eq_self)

lemma move_down_eq:
  assumes "n < 2 ^ 32" "\<And>i j. i < j \<Longrightarrow> j < n \<Longrightarrow> s - 1 - of_nat j \<noteq> d - 1 - of_nat i"
  shows "move_down m d s n = (\<lambda>a. if unat (a - (d - of_nat n)) < n then m (a - d + s) else m a)"
  using assms
proof (induction n arbitrary: m d s)
  case (Suc n)
  let ?m = "m(d - 1 := m (s - 1))"
  have n: "n < 2 ^ 32" using Suc.prems by simp
  have "s - 1 - 1 - of_nat j \<noteq> d - 1 - 1 - of_nat i" if "i < j" "j < n" for i j
    using Suc.prems(2)[of "Suc i" "Suc j"] that by (simp add: algebra_simps)
  then have eq: "move_down m d s (Suc n) =
      (\<lambda>a. if unat (a - (d - 1 - of_nat n)) < n then ?m (a - (d - 1) + (s - 1)) else ?m a)"
    unfolding move_down.simps by (intro Suc.IH[OF n])
  have grow: "unat (a - (d - of_nat (Suc n))) < Suc n \<longleftrightarrow>
      unat (a - (d - 1 - of_nat n)) < n \<or> a = d - 1" for a
  proof -
    have "d - of_nat (Suc n) = d - 1 - of_nat n" by (simp add: algebra_simps)
    moreover have "unat (a - (d - 1 - of_nat n)) = n \<longleftrightarrow> a = d - 1"
      using n by (auto simp: unat_eq_of_nat algebra_simps)
    ultimately show ?thesis by (simp only: less_Suc_eq)
  qed
  have src: "a - d + s \<noteq> d - 1" if "a \<noteq> d - 1" "unat (a - (d - 1 - of_nat n)) < n" for a
  proof -
    let ?j = "n - unat (a - (d - 1 - of_nat n))"
    have "a = d - 1 - of_nat ?j"
      using that by (simp add: of_nat_diff less_imp_le)
    then have "a - d + s = s - 1 - of_nat ?j" by (simp add: algebra_simps)
    moreover have "0 < ?j" "?j < Suc n" using that by auto
    then have "s - 1 - of_nat ?j \<noteq> d - 1 - of_nat 0" by (rule Suc.prems(2))
    ultimately show ?thesis by simp
  qed
  show ?case
  proof
    fix a
    show "move_down m d s (Suc n) a = (if unat (a - (d - of_nat (Suc n))) < Suc n then m (a - d + s) else m a)"
    proof (cases "a = d - 1")
      case True
      have "\<not> unat (d - 1 - (d - 1 - of_nat n)) < n"
        using n by (simp add: unat_of_nat take_bit_nat_eq_self)
      with True show ?thesis unfolding eq grow by simp
    next
      case False
      with src[of a] show ?thesis unfolding eq grow by (auto simp: algebra_simps)
    qed
  qed
qed simp

lemma memmove_eq:
  assumes "unat src + n < 2 ^ 32" "unat dst + n < 2 ^ 32"
  shows "memmove m dst src n = (\<lambda>a. if unat (a - dst) < n then m (a - dst + src) else m a)"
proof (cases "src < dst \<and> src + of_nat n > dst")
  case True
  have "src + of_nat n - 1 - of_nat j \<noteq> dst + of_nat n - 1 - of_nat i" if "i < j" "j < n" for i j
  proof
    assume "src + of_nat n - 1 - of_nat j = dst + of_nat n - 1 - of_nat i"
    then have "src + of_nat i = dst + of_nat j" by (simp add: algebra_simps)
    then have "unat (src + of_nat i) = unat (dst + of_nat j)" by simp
    with that assms True show False
      by (simp add: unat_word_ariths unat_of_nat word_less_nat_alt)
  qed
  with assms show ?thesis
    unfolding memmove_def if_P[OF True]
    by (subst move_down_eq) (auto simp: algebra_simps)
next
  case False
  have "src + of_nat j \<noteq> dst + of_nat i" if "i < j" "j < n" for i j
  proof
    assume "src + of_nat j = dst + of_nat i"
    then have "unat (src + of_nat j) = unat (dst + of_nat i)" by simp
    then have "unat src + j = unat dst + i"
      using that assms by (simp add: unat_word_ariths unat_of_nat)
    moreover have "unat (src + of_nat n) = unat src + n"
      using assms by (simp add: unat_word_ariths unat_of_nat)
    ultimately show False using that False assms by (auto simp: word_less_nat_alt)
  qed
  with assms show ?thesis
    unfolding memmove_def if_not_P[OF False] by (subst move_up_eq) auto
qed

text \<open>
  C20: \<open>memmove\<close> copies as if the source were read completely before the destination is written,
  for overlapping regions too: afterwards byte \<open>i\<close> of the destination is what byte \<open>i\<close> of the source
  was, and no byte outside the destination changed. The regions must not wrap around the top of the
  address space.
\<close>

theorem memmove_copies:
  assumes "unat src + n < 2 ^ 32" "unat dst + n < 2 ^ 32"
  shows "memmove m dst src n = (\<lambda>a. if unat (a - dst) < n then m (a - dst + src) else m a)"
  using assms by (rule memmove_eq)

text \<open>The witness moves two bytes up by one, over themselves.\<close>

theorem memmove_copies_witness:
  "memmove ((\<lambda>_. 0)(16 := 7, 17 := 9)) 17 16 2 18 = 9"
proof -
  have "unat (16 :: u32) + 2 < 2 ^ 32" "unat (17 :: u32) + 2 < 2 ^ 32" by simp_all
  from memmove_copies[OF this] show ?thesis by simp
qed

subsection \<open>Strings\<close>

lemma strncmp_zero_iff:
  assumes "n \<le> length p" "n \<le> length q"
  shows "\<exists>r. strncmp p q n = Some r \<and> (r = 0 \<longleftrightarrow> cstr (take n p) = cstr (take n q))"
  using assms
proof (induction p q n rule: strncmp.induct)
  case (2 x p y q n)
  then show ?case by (auto simp: cstr_def word_uint_eq_iff)
qed (auto simp: cstr_def)

lemma strncpy_spec:
  assumes "0 \<in> set t \<or> n \<le> length t"
  shows "strncpy t n = Some (take n (cstr t) @ replicate (n - length (cstr t)) 0)"
  using assms
proof (induction t n rule: strncpy.induct)
  case (3 c t n)
  then show ?case by (auto simp: cstr_def)
qed (auto simp: cstr_def)

lemma safestrcpy_spec:
  assumes "0 \<in> set t" "0 < n"
  shows "safestrcpy t n = Some (take (n - 1) (cstr t) @ [0])"
  using assms
proof (induction t n rule: safestrcpy.induct)
  case (4 c t n)
  then show ?case by (auto simp: cstr_def)
qed (auto simp: cstr_def)

lemma strlen_spec: "strlen s = (if 0 \<in> set s then Some (length (cstr s)) else None)"
  by (induction s) (auto simp: cstr_def)

end
