(* ===== verification/Kalloc.thy ===== *)
theory Kalloc
  imports KString
begin

text \<open>
  \<^verbatim>\<open>kernel/kalloc.c\<close>: the physical page allocator. The free list is threaded through the free pages
  themselves (\<open>struct run\<close>), so the state is the kernel's view of physical memory and the address
  of the first free page; \<open>kend\<close> is the linker's symbol \<open>end\<close>. Critical sections under
  \<open>kmem.lock\<close> are atomic here.
\<close>

record kmem =
  mem :: memory
  freelist :: u32
  use_lock :: bool
  kend :: u32

definition PGSIZE :: nat where "PGSIZE = 4096"
definition KERNBASE :: u32 where "KERNBASE = 0x80000000"
definition PHYSTOP :: u32 where "PHYSTOP = 0xE000000"

definition V2P :: "u32 \<Rightarrow> u32" where "V2P a = a - KERNBASE"
definition P2V :: "u32 \<Rightarrow> u32" where "P2V a = a + KERNBASE"

definition PGROUNDUP :: "u32 \<Rightarrow> u32" where "PGROUNDUP sz = (sz + 4095) AND NOT 4095"
definition PGROUNDDOWN :: "u32 \<Rightarrow> u32" where "PGROUNDDOWN a = a AND NOT 4095"

text \<open>The test with which \<open>kfree\<close> decides that its argument is no page it manages.\<close>

definition bad_page :: "u32 \<Rightarrow> u32 \<Rightarrow> bool" where
  "bad_page e v \<longleftrightarrow> unat v mod PGSIZE \<noteq> 0 \<or> v < e \<or> V2P v \<ge> PHYSTOP"

definition kfree :: "u32 \<Rightarrow> ('x kmem_scheme, unit) kmon" where
  "kfree v = bnd (rd kend) (\<lambda>e.
     if bad_page e v then panic ''kfree''
     else sq (upd (\<lambda>s. s\<lparr>mem := memset (mem s) v 1 PGSIZE\<rparr>))
          (sq (upd (\<lambda>s. s\<lparr>mem := store32 (mem s) v (freelist s)\<rparr>))
              (upd (\<lambda>s. s\<lparr>freelist := v\<rparr>))))"

definition kalloc :: "('x kmem_scheme, u32) kmon" where
  "kalloc = bnd (rd freelist) (\<lambda>r.
     sq (whenk (r \<noteq> 0) (upd (\<lambda>s. s\<lparr>freelist := load32 (mem s) r\<rparr>)))
        (ret r))"

function freerange_loop :: "u32 \<Rightarrow> u32 \<Rightarrow> ('x kmem_scheme, unit) kmon" where
  "freerange_loop p vend =
     (if unat p + PGSIZE \<le> unat vend then sq (kfree p) (freerange_loop (p + of_nat PGSIZE) vend)
      else ret ())"
  by pat_completeness auto
termination
proof (relation "measure (\<lambda>(p, vend). unat vend - unat p)")
  fix p vend :: u32
  assume "unat p + PGSIZE \<le> unat vend"
  moreover from this have "unat p + PGSIZE < 2 ^ 32"
    using unat32_bound[of vend] by simp
  then have "unat (p + of_nat PGSIZE) = unat p + PGSIZE"
    by (rule unat_add32)
  ultimately show "((p + of_nat PGSIZE, vend), p, vend) \<in> measure (\<lambda>(p, vend). unat vend - unat p)"
    by (simp add: PGSIZE_def)
qed simp

declare freerange_loop.simps [simp del]

definition freerange :: "u32 \<Rightarrow> u32 \<Rightarrow> ('x kmem_scheme, unit) kmon" where
  "freerange vstart vend = freerange_loop (PGROUNDUP vstart) vend"

definition kinit1 :: "u32 \<Rightarrow> u32 \<Rightarrow> ('x kmem_scheme, unit) kmon" where
  "kinit1 vstart vend = sq (upd (\<lambda>s. s\<lparr>use_lock := False\<rparr>)) (freerange vstart vend)"

definition kinit2 :: "u32 \<Rightarrow> u32 \<Rightarrow> ('x kmem_scheme, unit) kmon" where
  "kinit2 vstart vend = sq (freerange vstart vend) (upd (\<lambda>s. s\<lparr>use_lock := True\<rparr>))"

subsection \<open>The free list as a list\<close>

fun runs :: "memory \<Rightarrow> u32 \<Rightarrow> u32 list \<Rightarrow> bool" where
  "runs m r [] \<longleftrightarrow> r = 0"
| "runs m r (x # xs) \<longleftrightarrow> r = x \<and> x \<noteq> 0 \<and> runs m (load32 m x) xs"

text \<open>\<open>free_pages s xs\<close>: the pages on the free list are \<open>xs\<close>, in this order, each a good page and none
  twice.\<close>

definition free_pages :: "'x kmem_scheme \<Rightarrow> u32 list \<Rightarrow> bool" where
  "free_pages s xs \<longleftrightarrow> runs (mem s) (freelist s) xs \<and> distinct xs \<and> (\<forall>x \<in> set xs. \<not> bad_page (kend s) x)
     \<and> 0 < kend s"

lemma runs_unique: "runs m r xs \<Longrightarrow> runs m r ys \<Longrightarrow> xs = ys"
proof (induction xs arbitrary: r ys)
  case Nil
  then show ?case by (cases ys) auto
next
  case (Cons x xs)
  then show ?case by (cases ys) auto
qed

lemma runs_cong:
  assumes "\<And>x. x \<in> set xs \<Longrightarrow> load32 m' x = load32 m x"
  shows "runs m' r xs = runs m r xs"
  using assms by (induction xs arbitrary: r) auto

lemma aligned_room:
  fixes n i :: nat
  assumes "n mod 4096 = 0" "n < 2 ^ 32" "i < 4096"
  shows "n + i < 2 ^ 32"
proof -
  from assms(1) obtain q where n: "n = 4096 * q" by (auto simp: mod_eq_0_iff_dvd dvd_def)
  with assms(2) have "q < 1048576" by simp
  with n assms(3) show ?thesis by simp
qed

lemma page_word_apart:
  fixes x v :: u32
  assumes x: "unat x mod PGSIZE = 0" and v: "unat v mod PGSIZE = 0" and "x \<noteq> v" and "j < 4"
  shows "PGSIZE \<le> unat (x + of_nat j - v)"
proof (rule ccontr)
  assume near: "\<not> PGSIZE \<le> unat (x + of_nat j - v)"
  define k where "k = unat (x + of_nat j - v)"
  have k: "k < PGSIZE" using near by (simp add: k_def)
  have eq: "x + of_nat j = v + of_nat k" by (simp add: k_def)
  have big: "unat y + i < 2 ^ 32" if "unat y mod PGSIZE = 0" "i < PGSIZE" for y :: u32 and i
    using aligned_room[of "unat y" i] that unat32_bound[of y] by (simp only: PGSIZE_def)
  have "unat (x + of_nat j) = unat x + j"
    using big[OF x, of j] assms(4) by (intro unat_add32) (simp add: PGSIZE_def)
  moreover have "unat (v + of_nat k) = unat v + k"
    by (rule unat_add32[OF big[OF v k]])
  ultimately have sum: "unat x + j = unat v + k" using eq by simp
  have low: "(unat y + i) mod PGSIZE = i" if "unat y mod PGSIZE = 0" "i < PGSIZE" for y :: u32 and i
    using that mod_add_left_eq[of "unat y" PGSIZE i] by simp
  have "(unat x + j) mod PGSIZE = (unat v + k) mod PGSIZE" using sum by simp
  moreover have "j < PGSIZE" using assms(4) by (simp add: PGSIZE_def)
  ultimately have "j = k" using low[OF x] low[OF v k] by simp
  with sum have "unat x = unat v" by simp
  then have "x = v" by (rule unsigned_word_eqI)
  with \<open>x \<noteq> v\<close> show False ..
qed

lemma load32_other_page:
  assumes x: "unat x mod PGSIZE = 0" and v: "unat v mod PGSIZE = 0" and "x \<noteq> v"
    and out: "\<And>a. PGSIZE \<le> unat (a - v) \<Longrightarrow> m' a = m a"
  shows "load32 m' x = load32 m x"
proof -
  have "m' (x + of_nat j) = m (x + of_nat j)" if "j < 4" for j
    by (rule out, rule page_word_apart[OF x v \<open>x \<noteq> v\<close> that])
  from this[of 0] this[of 1] this[of 2] this[of 3] show ?thesis
    by (simp add: load32_def)
qed

lemma store32_outside:
  assumes "4 \<le> unat (a - v)"
  shows "store32 m v w a = m a"
proof -
  have "unat (1 :: u32) = 1" "unat (2 :: u32) = 2" "unat (3 :: u32) = 3" by simp_all
  with assms have "a - v \<noteq> 0" "a - v \<noteq> 1" "a - v \<noteq> 2" "a - v \<noteq> 3" by (auto simp del: unat_1)
  then have "a \<noteq> v" "a \<noteq> v + 1" "a \<noteq> v + 2" "a \<noteq> v + 3" by auto
  then show ?thesis by (simp add: store32_def)
qed

lemma kfree_memory_outside:
  assumes "PGSIZE \<le> unat (a - v)"
  shows "store32 (memset m v 1 PGSIZE) v w a = m a"
  using assms by (simp add: store32_outside memset_eq PGSIZE_def)

lemma good_page_aligned: "\<not> bad_page e x \<Longrightarrow> unat x mod PGSIZE = 0"
  by (simp add: bad_page_def)

lemma good_page_nonzero: "\<not> bad_page e x \<Longrightarrow> 0 < e \<Longrightarrow> x \<noteq> 0"
  by (auto simp: bad_page_def)

lemma free_pages_distinct: "free_pages s xs \<Longrightarrow> distinct xs"
  by (simp add: free_pages_def)

lemma free_pages_good: "free_pages s xs \<Longrightarrow> x \<in> set xs \<Longrightarrow> \<not> bad_page (kend s) x"
  by (simp add: free_pages_def)

lemma kfree_pushes:
  assumes "free_pages s xs" "\<not> bad_page (kend s) v" "v \<notin> set xs"
  shows "\<exists>s'. kfree v s = Inr ((), s') \<and> free_pages s' (v # xs)"
proof -
  let ?m = "store32 (memset (mem s) v 1 PGSIZE) v (freelist s)"
  have good: "\<forall>x \<in> set xs. \<not> bad_page (kend s) x" "0 < kend s"
    using assms(1) by (auto simp: free_pages_def)
  have "load32 ?m x = load32 (mem s) x" if "x \<in> set xs" for x
  proof (rule load32_other_page[of x v])
    show "unat x mod PGSIZE = 0" "unat v mod PGSIZE = 0"
      using that good(1) assms(2) by (auto dest: good_page_aligned)
    show "x \<noteq> v" using that assms(3) by blast
  qed (rule kfree_memory_outside)
  then have "runs ?m (freelist s) xs = runs (mem s) (freelist s) xs" by (rule runs_cong)
  then have "runs ?m (freelist s) xs" using assms(1) by (simp add: free_pages_def)
  moreover have "v \<noteq> 0" using good_page_nonzero[OF assms(2) good(2)] .
  moreover have "kfree v s = Inr ((), s\<lparr>mem := ?m, freelist := v\<rparr>)"
    using assms(2) by (simp add: kfree_def)
  ultimately show ?thesis using assms good
    by (simp add: free_pages_def load32_store32)
qed

lemma kalloc_pops:
  assumes "free_pages s (x # xs)"
  shows "\<exists>s'. kalloc s = Inr (x, s') \<and> free_pages s' xs"
  using assms by (simp add: kalloc_def free_pages_def)

lemma kalloc_empty:
  assumes "free_pages s []"
  shows "kalloc s = Inr (0, s)"
  using assms by (simp add: kalloc_def free_pages_def)

subsection \<open>The interface of a page allocator\<close>

text \<open>
  What the users of the allocator rely on: \<open>rep s ps\<close> says that exactly the pages \<open>ps\<close> are free;
  \<open>alloc\<close> hands out the first of them or \<open>none\<close>, \<open>free\<close> puts a page back.
\<close>

locale page_pool =
  fixes rep :: "'s \<Rightarrow> 'p list \<Rightarrow> bool"
    and good :: "'s \<Rightarrow> 'p \<Rightarrow> bool"
    and alloc :: "('s, 'p) kmon"
    and free :: "'p \<Rightarrow> ('s, unit) kmon"
    and none :: 'p
  assumes rep_distinct: "rep s ps \<Longrightarrow> distinct ps"
    and rep_good: "rep s ps \<Longrightarrow> p \<in> set ps \<Longrightarrow> good s p"
    and alloc_none: "rep s [] \<Longrightarrow> alloc s = Inr (none, s)"
    and alloc_first: "rep s (p # ps) \<Longrightarrow> \<exists>s'. alloc s = Inr (p, s') \<and> rep s' ps"
    and free_back: "rep s ps \<Longrightarrow> good s p \<Longrightarrow> p \<notin> set ps \<Longrightarrow>
      \<exists>s'. free p s = Inr ((), s') \<and> rep s' (p # ps)"
begin

lemma free_then_alloc:
  assumes "rep s ps" "good s p" "p \<notin> set ps"
  shows "\<exists>s'. bnd (free p) (\<lambda>_. alloc) s = Inr (p, s') \<and> rep s' ps"
proof -
  obtain s1 where "free p s = Inr ((), s1)" "rep s1 (p # ps)"
    using free_back[OF assms] by blast
  moreover from this alloc_first obtain s2 where "alloc s1 = Inr (p, s2)" "rep s2 ps" by blast
  ultimately show ?thesis by simp
qed

end

text \<open>\<open>n\<close> calls of an allocator in a row, and the pages they returned.\<close>

fun alloc_many :: "('s, 'p) kmon \<Rightarrow> nat \<Rightarrow> ('s, 'p list) kmon" where
  "alloc_many a 0 = ret []"
| "alloc_many a (Suc n) = bnd a (\<lambda>p. bnd (alloc_many a n) (\<lambda>ps. ret (p # ps)))"

context page_pool
begin

lemma alloc_many_take:
  assumes "rep s ps" "n \<le> length ps"
  shows "\<exists>s'. alloc_many alloc n s = Inr (take n ps, s') \<and> rep s' (drop n ps)"
  using assms
proof (induction n arbitrary: s ps)
  case 0
  then show ?case by simp
next
  case (Suc n)
  then obtain p qs where ps: "ps = p # qs" by (cases ps) auto
  with Suc.prems alloc_first obtain s1 where a: "alloc s = Inr (p, s1)" and "rep s1 qs" by blast
  with Suc.IH[of s1 qs] Suc.prems ps obtain s2
    where "alloc_many alloc n s1 = Inr (take n qs, s2)" "rep s2 (drop n qs)" by auto
  with a ps show ?case by simp
qed

end

interpretation kpool: page_pool free_pages "\<lambda>s v. \<not> bad_page (kend s) v" kalloc kfree 0
proof unfold_locales
qed (auto simp: kalloc_empty dest: free_pages_good intro: free_pages_distinct kalloc_pops kfree_pushes)

text \<open>
  C19: successive calls of \<open>kalloc\<close> return the pages of the free list in its order: each is a page the
  allocator manages, none is handed out twice, and none of them is on the free list afterwards.
\<close>

theorem kalloc_distinct:
  assumes "free_pages s ps" "n \<le> length ps"
  shows "\<exists>s'. alloc_many kalloc n s = Inr (take n ps, s') \<and> free_pages s' (drop n ps)
    \<and> distinct (take n ps) \<and> set (take n ps) \<inter> set (drop n ps) = {}
    \<and> (\<forall>p \<in> set (take n ps). p \<noteq> 0 \<and> \<not> bad_page (kend s) p)"
proof -
  obtain s' where "alloc_many kalloc n s = Inr (take n ps, s')" "free_pages s' (drop n ps)"
    using kpool.alloc_many_take[OF assms] by blast
  moreover have "distinct (take n ps)" "set (take n ps) \<inter> set (drop n ps) = {}"
    using kpool.rep_distinct[OF assms(1)]
    by (simp_all add: set_take_disj_set_drop_if_distinct)
  moreover have "p \<noteq> 0 \<and> \<not> bad_page (kend s) p" if "p \<in> set (take n ps)" for p
    using kpool.rep_good[OF assms(1) in_set_takeD[OF that]] assms(1)
    by (simp add: good_page_nonzero free_pages_def)
  ultimately show ?thesis by blast
qed

text \<open>A memory with two free pages, \<open>0x80400000\<close> first.\<close>

definition two_pages :: kmem where
  "two_pages = \<lparr>mem = store32 (\<lambda>_. 0) 0x80400000 0x80401000, freelist = 0x80400000, use_lock = True,
     kend = 0x80116000\<rparr>"

lemma free_two_pages: "free_pages two_pages [0x80400000, 0x80401000]"
proof -
  have "load32 (store32 (\<lambda>_. 0) 0x80400000 0x80401000) 0x80401000 = 0"
    by (simp add: load32_def store32_def)
  then show ?thesis
    by (simp add: free_pages_def two_pages_def load32_store32 bad_page_def PGSIZE_def V2P_def
        KERNBASE_def PHYSTOP_def)
qed

theorem kalloc_distinct_witness:
  "\<exists>s'. alloc_many kalloc 2 two_pages = Inr ([0x80400000, 0x80401000], s') \<and> free_pages s' []
    \<and> \<not> bad_page (kend two_pages) 0x80401000"
  using kalloc_distinct[OF free_two_pages, of 2] by auto

text \<open>
  C34: \<open>kfree\<close> of a page that is not free fills it with ones, apart from the link to the old head of
  the free list in its first word, touches no other byte of memory, and the next \<open>kalloc\<close> hands the page
  out again, with the free list as it was.
\<close>

theorem kfree_kalloc:
  assumes "free_pages s ps" "\<not> bad_page (kend s) v" "v \<notin> set ps"
  shows "\<exists>s' s''. kfree v s = Inr ((), s')
    \<and> (\<forall>a. 4 \<le> unat (a - v) \<and> unat (a - v) < PGSIZE \<longrightarrow> mem s' a = 1)
    \<and> (\<forall>a. PGSIZE \<le> unat (a - v) \<longrightarrow> mem s' a = mem s a)
    \<and> load32 (mem s') v = freelist s
    \<and> kalloc s' = Inr (v, s'') \<and> mem s'' = mem s' \<and> free_pages s'' ps"
proof -
  let ?s = "s\<lparr>mem := store32 (memset (mem s) v 1 PGSIZE) v (freelist s), freelist := v\<rparr>"
  have k: "kfree v s = Inr ((), ?s)" using assms(2) by (simp add: kfree_def)
  moreover have "mem ?s a = 1" if "4 \<le> unat (a - v)" "unat (a - v) < PGSIZE" for a
    using that by (simp add: store32_outside memset_eq PGSIZE_def)
  moreover have "mem ?s a = mem s a" if "PGSIZE \<le> unat (a - v)" for a
    using kfree_memory_outside[OF that] by simp
  moreover have "load32 (mem ?s) v = freelist s" by (simp add: load32_store32)
  moreover have "v \<noteq> 0" using good_page_nonzero[OF assms(2)] assms(1) by (simp add: free_pages_def)
  then have "kalloc ?s = Inr (v, ?s\<lparr>freelist := freelist s\<rparr>)" by (simp add: kalloc_def load32_store32)
  moreover have "free_pages (?s\<lparr>freelist := freelist s\<rparr>) ps"
    using kfree_pushes[OF assms] k by (simp add: free_pages_def load32_store32)
  ultimately show ?thesis by (intro exI[of _ ?s] exI[of _ "?s\<lparr>freelist := freelist s\<rparr>"]) simp
qed

theorem kfree_kalloc_witness:
  "\<exists>s' s''. kfree 0x80402000 two_pages = Inr ((), s') \<and> mem s' 0x80402ABC = 1 \<and> mem s' 0x80403000 = 0
     \<and> load32 (mem s') 0x80402000 = 0x80400000
     \<and> kalloc s' = Inr (0x80402000, s'') \<and> mem s'' = mem s' \<and> free_pages s'' [0x80400000, 0x80401000]"
proof -
  have "\<not> bad_page (kend two_pages) 0x80402000" "0x80402000 \<notin> set [0x80400000, 0x80401000 :: u32]"
    by (simp_all add: two_pages_def bad_page_def PGSIZE_def V2P_def KERNBASE_def PHYSTOP_def)
  from kfree_kalloc[OF free_two_pages this] obtain s' s'' where
    k: "kfree 0x80402000 two_pages = Inr ((), s')" "load32 (mem s') 0x80402000 = freelist two_pages"
      "kalloc s' = Inr (0x80402000, s'')" "mem s'' = mem s'" "free_pages s'' [0x80400000, 0x80401000]"
    and m: "\<forall>a. 4 \<le> unat (a - 0x80402000) \<and> unat (a - 0x80402000) < PGSIZE \<longrightarrow> mem s' a = 1"
      "\<forall>a. PGSIZE \<le> unat (a - 0x80402000) \<longrightarrow> mem s' a = mem two_pages a" by blast
  have "mem s' 0x80402ABC = 1" "mem s' 0x80403000 = 0"
    using m(1)[rule_format, of "0x80402ABC"] m(2)[rule_format, of "0x80403000"]
    by (simp_all add: PGSIZE_def two_pages_def store32_def)
  with k show ?thesis by (simp add: two_pages_def)
qed

subsection \<open>Filling the list at boot\<close>

definition pages_in :: "u32 \<Rightarrow> u32 \<Rightarrow> u32 set" where
  "pages_in p vend = {x. unat x mod PGSIZE = 0 \<and> p \<le> x \<and> unat x + PGSIZE \<le> unat vend}"

lemma page_at_least:
  assumes "a mod PGSIZE = 0" "b mod PGSIZE = 0" "a < b"
  shows "a + PGSIZE \<le> b"
proof -
  obtain i j where "a = PGSIZE * i" "b = PGSIZE * j" using assms(1,2) by (metis mod_0_imp_dvd dvdE)
  moreover from this assms(3) have "Suc i \<le> j" by simp
  ultimately show ?thesis by (metis mult_Suc_right mult_le_mono2 add.commute)
qed

lemma pages_in_step:
  assumes "unat p mod PGSIZE = 0" "unat p + PGSIZE \<le> unat vend"
  shows "pages_in p vend = insert p (pages_in (p + of_nat PGSIZE) vend)" "unat (p + of_nat PGSIZE) = unat p + PGSIZE"
    "p \<notin> pages_in (p + of_nat PGSIZE) vend"
proof -
  show u: "unat (p + of_nat PGSIZE) = unat p + PGSIZE" using assms(2) unat32_bound[of vend] by (intro unat_add32) simp
  then show "p \<notin> pages_in (p + of_nat PGSIZE) vend" by (simp add: pages_in_def word_le_nat_alt PGSIZE_def)
  have n: "p = x \<or> unat p + PGSIZE \<le> unat x" if "unat x mod PGSIZE = 0" "unat p \<le> unat x" for x
    using page_at_least[OF assms(1) that(1)] that(2) by (cases "p = x") (auto simp: order_le_less word_unat_eq_iff)
  have "x \<in> pages_in p vend \<longleftrightarrow> x = p \<or> x \<in> pages_in (p + of_nat PGSIZE) vend" for x
    using assms u n[of x] by (cases "x = p") (auto simp: pages_in_def word_le_nat_alt)
  then show "pages_in p vend = insert p (pages_in (p + of_nat PGSIZE) vend)" by blast
qed

lemma freerange_loop_frees:
  fixes s :: "'x kmem_scheme"
  assumes "free_pages s xs" "unat p mod PGSIZE = 0" "kend s \<le> p" "KERNBASE \<le> kend s" "vend \<le> P2V PHYSTOP" "pages_in p vend \<inter> set xs = {}"
  shows "\<exists>(t :: 'x kmem_scheme) ys. freerange_loop p vend s = Inr ((), t) \<and> free_pages t (ys @ xs) \<and> set ys = pages_in p vend
    \<and> t = s\<lparr>mem := mem t, freelist := freelist t\<rparr>"
  using assms
proof (induction p vend arbitrary: s xs rule: freerange_loop.induct)
  case (1 p vend)
  show ?case
  proof (cases "unat p + PGSIZE \<le> unat vend")
    case False
    have "pages_in p vend = {}"
    proof -
      have "unat p \<le> unat x \<Longrightarrow> \<not> unat x + PGSIZE \<le> unat vend" for x using False by linarith
      then show ?thesis by (auto simp: pages_in_def word_le_nat_alt)
    qed
    with False 1(2) show ?thesis by (intro exI[of _ s] exI[of _ "[]"]) (simp add: freerange_loop.simps)
  next
    case True
    note st = pages_in_step[OF 1(3) True]
    have "unat vend \<le> unat (P2V PHYSTOP)" using 1(6) by (simp add: word_le_nat_alt)
    then have "unat p < unat (P2V PHYSTOP)" using True by (simp add: PGSIZE_def)
    moreover have "unat KERNBASE \<le> unat p" using 1(4,5) by (simp add: word_le_nat_alt)
    ultimately have "unat (V2P p) < unat PHYSTOP"
      unfolding V2P_def by (subst unat_sub) (simp_all add: word_le_nat_alt P2V_def KERNBASE_def PHYSTOP_def)
    then have good: "\<not> bad_page (kend s) p" using 1(3,4) by (simp add: bad_page_def not_less not_le word_less_nat_alt word_le_nat_alt)
    have new: "p \<notin> set xs" using 1(7) st(1) by auto
    obtain u where u: "kfree p s = Inr ((), u)" "free_pages u (p # xs)" "u = s\<lparr>mem := mem u, freelist := freelist u\<rparr>"
    proof -
      have "kfree p s = Inr ((), s\<lparr>mem := store32 (memset (mem s) p 1 PGSIZE) p (freelist s), freelist := p\<rparr>)"
        using good by (simp add: kfree_def)
      then show ?thesis using that kfree_pushes[OF 1(2) good new] by auto
    qed
    have ku: "kend u = kend s" using u(3) by (cases s; cases u) simp
    have le: "kend u \<le> p + of_nat PGSIZE" using 1(4) st(2) ku by (simp add: word_le_nat_alt)
    have mo: "unat (p + of_nat PGSIZE) mod PGSIZE = 0" using 1(3) st(2) by simp
    have di: "pages_in (p + of_nat PGSIZE) vend \<inter> set (p # xs) = {}" using 1(7) st(1,3) by auto
    from 1(1)[OF True u(2) mo le _ 1(6) di] obtain t :: "'x kmem_scheme" and ys where
      T: "freerange_loop (p + of_nat PGSIZE) vend u = Inr ((), t)" "free_pages t (ys @ p # xs)"
        "set ys = pages_in (p + of_nat PGSIZE) vend" "t = u\<lparr>mem := mem t, freelist := freelist t\<rparr>" using 1(5) ku by auto
    have "freerange_loop p vend s = Inr ((), t)" using True u(1) T(1) by (subst freerange_loop.simps) simp
    moreover have "t = s\<lparr>mem := mem t, freelist := freelist t\<rparr>" using T(4) u(3) by (cases s; cases t; cases u) simp
    ultimately show ?thesis using T(2,3) st(1) by (intro exI[of _ t] exI[of _ "ys @ [p]"]) simp
  qed
qed

text \<open>
  C?. Filling the free list. If no page of the range is on the free list and the range lies in the
  memory after the kernel, \<open>freerange\<close> returns and adds to the list exactly the whole pages of the
  range, each once; nothing but memory and the list changes. \<open>kinit1\<close> and \<open>kinit2\<close> run it at boot.
\<close>

theorem freerange_frees:
  fixes s :: "'x kmem_scheme"
  assumes "free_pages s ps" "kend s \<le> PGROUNDUP vstart" "KERNBASE \<le> kend s" "vend \<le> P2V PHYSTOP"
    "\<And>x. x \<in> set ps \<Longrightarrow> x < PGROUNDUP vstart \<or> unat vend < unat x + PGSIZE"
  shows "\<exists>(t :: 'x kmem_scheme) qs. freerange vstart vend s = Inr ((), t) \<and> free_pages t qs \<and> distinct qs
    \<and> set qs = set ps \<union> {x. unat x mod PGSIZE = 0 \<and> PGROUNDUP vstart \<le> x \<and> unat x + PGSIZE \<le> unat vend}
    \<and> t = s\<lparr>mem := mem t, freelist := freelist t\<rparr>"
proof -
  have "take_bit 12 (PGROUNDUP vstart) = 0"
  proof -
    have "(4095 :: u32) = mask 12" by (simp add: mask_eq_decr_exp)
    then show ?thesis unfolding PGROUNDUP_def by (intro bit_word_eqI) (auto simp: bit_simps)
  qed
  then have "take_bit 12 (unat (PGROUNDUP vstart)) = 0" by (metis unsigned_take_bit_eq unsigned_0)
  then have al: "unat (PGROUNDUP vstart) mod PGSIZE = 0" by (simp add: take_bit_eq_mod PGSIZE_def)
  have "pages_in (PGROUNDUP vstart) vend \<inter> set ps = {}" using assms(5) by (fastforce simp: pages_in_def)
  from freerange_loop_frees[OF assms(1) al assms(2-4) this] show ?thesis
    unfolding freerange_def pages_in_def using free_pages_distinct by fastforce
qed

text \<open>The kernel's first free pages: what follows its end, up to four megabytes.\<close>

definition boot_mem :: kmem where
  "boot_mem = \<lparr>mem = \<lambda>_. 0, freelist = 0, use_lock = False, kend = 0x80116000\<rparr>"

theorem freerange_frees_witness:
  "\<exists>t qs. freerange 0x80115123 0x80400000 boot_mem = Inr ((), t) \<and> free_pages t qs \<and> distinct qs
    \<and> set qs = {x. unat x mod PGSIZE = 0 \<and> 0x80116000 \<le> x \<and> unat x + PGSIZE \<le> 0x80400000}"
proof -
  have "PGROUNDUP 0x80115123 = 0x80116000" by (simp add: PGROUNDUP_def)
  then show ?thesis using freerange_frees[of boot_mem "[]" "0x80115123" "0x80400000"]
    by (auto simp: boot_mem_def free_pages_def KERNBASE_def PHYSTOP_def P2V_def)
qed

end
