(* ===== verification/Ptable.thy ===== *)
theory Ptable
  imports Kalloc
begin

text \<open>
  The process table (\<^verbatim>\<open>kernel/proc.h\<close>, \<^verbatim>\<open>kernel/param.h\<close>), the part of \<^verbatim>\<open>kernel/proc.c\<close> that every
  other kernel component calls (\<open>myproc\<close>, \<open>sleep\<close>, \<open>wakeup\<close>) and the sleep locks of
  \<^verbatim>\<open>kernel/sleeplock.c\<close>. A pointer to a process, an open file or an inode is its index in the table
  it lives in; \<open>None\<close> is the null pointer.
\<close>

definition NPROC :: nat where "NPROC = 64"
definition NOFILE :: nat where "NOFILE = 16"
definition NGROUPS :: nat where "NGROUPS = 32"

datatype procstate = UNUSED | EMBRYO | SLEEPING | RUNNABLE | RUNNING | ZOMBIE

text \<open>The registers of the trap frame that the kernel's C code reads or writes.\<close>

record trapframe =
  tf_eax :: u32
  tf_trapno :: u32
  tf_err :: u32
  tf_eip :: u32
  tf_cs :: u16
  tf_ds :: u16
  tf_es :: u16
  tf_ss :: u16
  tf_eflags :: u32
  tf_esp :: u32

record proc =
  p_sz :: u32
  p_pgdir :: u32
  p_kstack :: u32
  p_state :: procstate
  p_pid :: int
  p_parent :: "nat option"
  p_tf :: trapframe
  p_context :: u32
  p_chan :: "chan option"
  p_killed :: bool
  p_ofile :: "nat option list"
  p_cwd :: "nat option"
  p_name :: bytes
  p_uid :: u32
  p_euid :: u32
  p_gids :: "u32 list"

record kproc = kmem +
  ptable :: "proc list"
  curproc :: nat
  initproc :: nat
  nextpid :: int

definition myproc :: "'x kproc_scheme \<Rightarrow> proc" where
  "myproc s = ptable s ! curproc s"

definition upd_proc :: "nat \<Rightarrow> (proc \<Rightarrow> proc) \<Rightarrow> 'x kproc_scheme \<Rightarrow> 'x kproc_scheme" where
  "upd_proc i f s = s\<lparr>ptable := (ptable s)[i := f (ptable s ! i)]\<rparr>"

definition upd_myproc :: "(proc \<Rightarrow> proc) \<Rightarrow> 'x kproc_scheme \<Rightarrow> 'x kproc_scheme" where
  "upd_myproc f s = upd_proc (curproc s) f s"

definition wake :: "chan \<Rightarrow> proc \<Rightarrow> proc" where
  "wake c p = (if p_state p = SLEEPING \<and> p_chan p = Some c then p\<lparr>p_state := RUNNABLE\<rparr> else p)"

definition wakeup1 :: "chan \<Rightarrow> 'x kproc_scheme \<Rightarrow> 'x kproc_scheme" where
  "wakeup1 c s = s\<lparr>ptable := map (wake c) (ptable s)\<rparr>"

definition wakeup :: "chan \<Rightarrow> ('x kproc_scheme, unit) kmon" where
  "wakeup c = upd (wakeup1 c)"

text \<open>What \<open>sleep\<close> does to the table before it gives the processor away.\<close>

definition sleep_enter :: "chan \<Rightarrow> proc \<Rightarrow> proc" where
  "sleep_enter c p = p\<lparr>p_chan := Some c, p_state := SLEEPING\<rparr>"

definition sleep :: "chan \<Rightarrow> ('x kproc_scheme, 'a) kmon" where
  "sleep c = sq (upd (upd_myproc (sleep_enter c))) (asleep c)"

subsection \<open>Sleep locks\<close>

record sleeplock =
  lk_locked :: bool
  lk_pid :: int

definition initsleeplock :: sleeplock where
  "initsleeplock = \<lparr>lk_locked = False, lk_pid = 0\<rparr>"

text \<open>
  A lock lives inside a buffer or an inode: \<open>get\<close> reads it from the state, \<open>put\<close> changes it there,
  \<open>c\<close> is its address, on which its waiters sleep.
\<close>

definition acquiresleep ::
  "chan \<Rightarrow> ('x kproc_scheme \<Rightarrow> sleeplock) \<Rightarrow> ((sleeplock \<Rightarrow> sleeplock) \<Rightarrow> 'x kproc_scheme \<Rightarrow> 'x kproc_scheme)
    \<Rightarrow> ('x kproc_scheme, unit) kmon" where
  "acquiresleep c get put = bnd (rd get) (\<lambda>lk.
     if lk_locked lk then sleep c
     else bnd (rd myproc) (\<lambda>p. upd (put (\<lambda>lk. lk\<lparr>lk_locked := True, lk_pid := p_pid p\<rparr>))))"

definition releasesleep ::
  "chan \<Rightarrow> ((sleeplock \<Rightarrow> sleeplock) \<Rightarrow> 'x kproc_scheme \<Rightarrow> 'x kproc_scheme) \<Rightarrow> ('x kproc_scheme, unit) kmon" where
  "releasesleep c put =
     sq (upd (put (\<lambda>lk. lk\<lparr>lk_locked := False, lk_pid := 0\<rparr>))) (wakeup c)"

definition holdingsleep :: "('x kproc_scheme \<Rightarrow> sleeplock) \<Rightarrow> ('x kproc_scheme, bool) kmon" where
  "holdingsleep get = rd (\<lambda>s. lk_locked (get s) \<and> lk_pid (get s) = p_pid (myproc s))"

subsection \<open>Lemmas\<close>

lemma sleep_fails [simp]: "sleep c s = Inl (Asleep c, upd_myproc (sleep_enter c) s)"
  by (simp add: sleep_def)

lemma keeps_sleep [frame_rules]: "keeps f (sleep c)"
  by (simp add: keeps_def)

lemma valid_sleep [hoare_rules]: "valid P (sleep c) Q"
  by (simp add: valid_def)

lemma wake_fields [simp]:
  "p_sz (wake c p) = p_sz p" "p_pgdir (wake c p) = p_pgdir p" "p_kstack (wake c p) = p_kstack p"
  "p_pid (wake c p) = p_pid p" "p_parent (wake c p) = p_parent p" "p_tf (wake c p) = p_tf p" "p_context (wake c p) = p_context p"
  "p_chan (wake c p) = p_chan p" "p_killed (wake c p) = p_killed p" "p_ofile (wake c p) = p_ofile p"
  "p_cwd (wake c p) = p_cwd p" "p_name (wake c p) = p_name p" "p_uid (wake c p) = p_uid p"
  "p_euid (wake c p) = p_euid p" "p_gids (wake c p) = p_gids p"
  by (simp_all add: wake_def)

lemma wake_running [simp]: "p_state p \<noteq> SLEEPING \<Longrightarrow> wake c p = p"
  by (simp add: wake_def)

lemma upd_proc_simps [simp]:
  "curproc (upd_proc i f s) = curproc s" "initproc (upd_proc i f s) = initproc s"
  "nextpid (upd_proc i f s) = nextpid s" "mem (upd_proc i f s) = mem s"
  "freelist (upd_proc i f s) = freelist s" "kend (upd_proc i f s) = kend s"
  "kproc.more (upd_proc i f s) = kproc.more s" "length (ptable (upd_proc i f s)) = length (ptable s)"
  by (simp_all add: upd_proc_def)

lemma myproc_wakeup1 [simp]:
  "curproc s < length (ptable s) \<Longrightarrow> myproc (wakeup1 c s) = wake c (myproc s)"
  by (simp add: myproc_def wakeup1_def)

lemma wakeup1_simps [simp]:
  "curproc (wakeup1 c s) = curproc s" "initproc (wakeup1 c s) = initproc s"
  "nextpid (wakeup1 c s) = nextpid s" "mem (wakeup1 c s) = mem s"
  "freelist (wakeup1 c s) = freelist s" "kend (wakeup1 c s) = kend s"
  "kproc.more (wakeup1 c s) = kproc.more s" "length (ptable (wakeup1 c s)) = length (ptable s)"
  by (simp_all add: wakeup1_def)

text \<open>A process as the boot code leaves the first one, for concrete states.\<close>

definition zero_tf :: trapframe where
  "zero_tf = \<lparr>tf_eax = 0, tf_trapno = 0, tf_err = 0, tf_eip = 0, tf_cs = 0, tf_ds = 0, tf_es = 0, tf_ss = 0,
     tf_eflags = 0, tf_esp = 0\<rparr>"

definition zero_proc :: proc where
  "zero_proc = \<lparr>p_sz = 0, p_pgdir = 0, p_kstack = 0, p_state = UNUSED, p_pid = 0, p_parent = None,
     p_tf = zero_tf, p_context = 0, p_chan = None, p_killed = False, p_ofile = replicate NOFILE None, p_cwd = None,
     p_name = replicate 16 0, p_uid = 0, p_euid = 0, p_gids = replicate NGROUPS 0\<rparr>"

definition first_proc :: proc where
  "first_proc = zero_proc\<lparr>p_state := RUNNING, p_pid := 1, p_sz := 4096\<rparr>"

text \<open>
  What lower kernel layers may do to the process table: wake sleepers, and nothing else.
\<close>

definition woken :: "proc \<Rightarrow> proc \<Rightarrow> bool" where
  "woken p p' \<longleftrightarrow> p' = p \<or> p_state p = SLEEPING \<and> p' = p\<lparr>p_state := RUNNABLE\<rparr>"

definition keep_proc :: "'x kproc_scheme \<Rightarrow> 'y kproc_scheme \<Rightarrow> bool" where
  "keep_proc s s' \<longleftrightarrow> list_all2 woken (ptable s) (ptable s') \<and> curproc s' = curproc s
     \<and> initproc s' = initproc s \<and> nextpid s' = nextpid s \<and> mem s' = mem s \<and> freelist s' = freelist s
     \<and> use_lock s' = use_lock s \<and> kend s' = kend s"

lemma woken_refl [simp]: "woken p p"
  by (simp add: woken_def)

lemma woken_trans: "woken p q \<Longrightarrow> woken q r \<Longrightarrow> woken p r"
  by (auto simp: woken_def)

lemma woken_wake: "woken p (wake c p)"
  by (simp add: woken_def wake_def)

lemma keep_proc_refl [simp]: "keep_proc s s"
  by (simp add: keep_proc_def list_all2_refl)

lemma keep_proc_trans [trans]: "keep_proc s t \<Longrightarrow> keep_proc t u \<Longrightarrow> keep_proc s u"
  by (auto simp: keep_proc_def intro: list_all2_trans[OF woken_trans])

lemma keep_proc_wakeup1 [simp]: "keep_proc s (wakeup1 c s)"
  by (simp add: keep_proc_def wakeup1_def list_all2_conv_all_nth woken_wake)

lemma keep_proc_length: "keep_proc s s' \<Longrightarrow> length (ptable s') = length (ptable s)"
  by (auto simp: keep_proc_def dest: list_all2_lengthD)

lemma keep_proc_myproc:
  assumes "keep_proc s s'" "curproc s < length (ptable s)" "p_state (myproc s) = RUNNING"
  shows "myproc s' = myproc s"
proof -
  have "woken (ptable s ! curproc s) (ptable s' ! curproc s)"
    using assms(1,2) by (simp add: keep_proc_def list_all2_nthD)
  with assms show ?thesis by (auto simp: keep_proc_def myproc_def woken_def)
qed

end
