(* ===== verification/Bio.thy ===== *)
theory Bio
  imports Ptable
begin

text \<open>
  \<^verbatim>\<open>kernel/bio.c\<close> over the in-memory disk of \<^verbatim>\<open>kernel/memide.c\<close>. A buffer pointer is its index in
  \<open>bcache.buf\<close>; the doubly linked list through \<open>prev\<close>/\<open>next\<close> is the list \<open>lru\<close> of these indices
  from \<open>head.next\<close> on, most recently used first. The bits \<open>B_VALID\<close> and \<open>B_DIRTY\<close> of \<open>flags\<close> are
  two fields. \<open>dhist\<close> is no variable of the code: it records the block writes the disk has seen, in
  order, so that a crash between two of them can be talked about.

  The contract for the layers above is in terms of \<open>view\<close>, the contents of a block as the kernel sees
  it: the cached copy if there is one, else the disk's.
\<close>

declare One_nat_def [simp del]

definition BSIZE :: nat where "BSIZE = 512"
definition NBUF :: nat where "NBUF = 30"

record buf =
  b_valid :: bool
  b_dirty :: bool
  b_dev :: nat
  b_blockno :: nat
  b_lock :: sleeplock
  b_refcnt :: u32
  b_data :: bytes

record kbio = kproc +
  bufs :: "buf list"
  lru :: "nat list"
  memdisk :: "nat \<Rightarrow> bytes"
  disksize :: nat
  dhist :: "(nat \<times> bytes) list"

definition upd_buf :: "nat \<Rightarrow> (buf \<Rightarrow> buf) \<Rightarrow> 'x kbio_scheme \<Rightarrow> 'x kbio_scheme" where
  "upd_buf i f s = s\<lparr>bufs := (bufs s)[i := f (bufs s ! i)]\<rparr>"

definition buf_lock :: "nat \<Rightarrow> 'x kbio_scheme \<Rightarrow> sleeplock" where
  "buf_lock i s = b_lock (bufs s ! i)"

definition upd_buf_lock :: "nat \<Rightarrow> (sleeplock \<Rightarrow> sleeplock) \<Rightarrow> 'x kbio_scheme \<Rightarrow> 'x kbio_scheme" where
  "upd_buf_lock i f = upd_buf i (\<lambda>b. b\<lparr>b_lock := f (b_lock b)\<rparr>)"

definition binit :: "('x kbio_scheme, unit) kmon" where
  "binit = upd (\<lambda>s. s\<lparr>lru := rev [0..<NBUF], bufs := map (\<lambda>b. b\<lparr>b_lock := initsleeplock\<rparr>) (bufs s)\<rparr>)"

definition iderw :: "nat \<Rightarrow> ('x kbio_scheme, unit) kmon" where
  "iderw i = bnd (holdingsleep (buf_lock i)) (\<lambda>h.
     if \<not> h then panic ''iderw: buf not locked''
     else bnd (rd (\<lambda>s. bufs s ! i)) (\<lambda>b.
       if b_valid b \<and> \<not> b_dirty b then panic ''iderw: nothing to do''
       else if b_dev b \<noteq> 1 then panic ''iderw: request not for disk 1''
       else bnd (rd disksize) (\<lambda>n.
         if b_blockno b \<ge> n then panic ''iderw: block out of range''
         else sq (if b_dirty b
                  then sq (upd (upd_buf i (\<lambda>b. b\<lparr>b_dirty := False\<rparr>)))
                       (upd (\<lambda>s. s\<lparr>memdisk := (memdisk s)(b_blockno b := b_data b),
                                   dhist := dhist s @ [(b_blockno b, b_data b)]\<rparr>))
                  else upd (\<lambda>s. upd_buf i (\<lambda>b. b\<lparr>b_data := memdisk s (b_blockno b)\<rparr>) s))
                 (upd (upd_buf i (\<lambda>b. b\<lparr>b_valid := True\<rparr>))))))"

definition bget :: "nat \<Rightarrow> nat \<Rightarrow> ('x kbio_scheme, nat) kmon" where
  "bget dev blockno =
     bnd (rd (\<lambda>s. find (\<lambda>i. b_dev (bufs s ! i) = dev \<and> b_blockno (bufs s ! i) = blockno) (lru s)))
     (\<lambda>r. case r of
        Some i \<Rightarrow> sq (upd (upd_buf i (\<lambda>b. b\<lparr>b_refcnt := b_refcnt b + 1\<rparr>)))
                  (sq (acquiresleep (ChBufLock i) (buf_lock i) (upd_buf_lock i)) (ret i))
      | None \<Rightarrow>
          bnd (rd (\<lambda>s. find (\<lambda>i. b_refcnt (bufs s ! i) = 0 \<and> \<not> b_dirty (bufs s ! i)) (rev (lru s))))
          (\<lambda>r. case r of
             Some i \<Rightarrow> sq (upd (upd_buf i (\<lambda>b. b\<lparr>b_dev := dev, b_blockno := blockno,
                                b_valid := False, b_dirty := False, b_refcnt := 1\<rparr>)))
                       (sq (acquiresleep (ChBufLock i) (buf_lock i) (upd_buf_lock i)) (ret i))
           | None \<Rightarrow> panic ''bget: no buffers''))"

definition bread :: "nat \<Rightarrow> nat \<Rightarrow> ('x kbio_scheme, nat) kmon" where
  "bread dev blockno = bnd (bget dev blockno) (\<lambda>i.
     bnd (rd (\<lambda>s. b_valid (bufs s ! i))) (\<lambda>v. sq (whenk (\<not> v) (iderw i)) (ret i)))"

definition bwrite :: "nat \<Rightarrow> ('x kbio_scheme, unit) kmon" where
  "bwrite i = bnd (holdingsleep (buf_lock i)) (\<lambda>h.
     if \<not> h then panic ''bwrite''
     else sq (upd (upd_buf i (\<lambda>b. b\<lparr>b_dirty := True\<rparr>))) (iderw i))"

definition brelse :: "nat \<Rightarrow> ('x kbio_scheme, unit) kmon" where
  "brelse i = bnd (holdingsleep (buf_lock i)) (\<lambda>h.
     if \<not> h then panic ''brelse''
     else sq (releasesleep (ChBufLock i) (upd_buf_lock i))
          (sq (upd (upd_buf i (\<lambda>b. b\<lparr>b_refcnt := b_refcnt b - 1\<rparr>)))
              (bnd (rd (\<lambda>s. b_refcnt (bufs s ! i))) (\<lambda>n.
                 whenk (n = 0) (upd (\<lambda>s. s\<lparr>lru := i # remove1 i (lru s)\<rparr>))))))"

text \<open>Reading and writing \<open>bp->data\<close> of a buffer the caller holds.\<close>

definition bdata :: "nat \<Rightarrow> ('x kbio_scheme, bytes) kmon" where
  "bdata i = rd (\<lambda>s. b_data (bufs s ! i))"

definition bset :: "nat \<Rightarrow> bytes \<Rightarrow> ('x kbio_scheme, unit) kmon" where
  "bset i d = upd (upd_buf i (\<lambda>b. b\<lparr>b_data := d\<rparr>))"

subsection \<open>Invariant and view\<close>

definition buf_ok :: "(nat \<Rightarrow> bytes) \<Rightarrow> nat \<Rightarrow> buf \<Rightarrow> bool" where
  "buf_ok d n b \<longleftrightarrow>
     b_refcnt b = (if lk_locked (b_lock b) then 1 else 0) \<and> length (b_data b) = BSIZE \<and>
     (b_valid b \<longleftrightarrow> b_dev b = 1) \<and> (b_dev b = 0 \<or> b_dev b = 1) \<and> (b_dirty b \<longrightarrow> b_valid b) \<and>
     (lk_locked (b_lock b) \<longrightarrow> b_valid b) \<and>
     (b_valid b \<longrightarrow> b_blockno b < n) \<and>
     (b_valid b \<and> \<not> b_dirty b \<and> \<not> lk_locked (b_lock b) \<longrightarrow> b_data b = d (b_blockno b))"

definition bkey :: "buf \<Rightarrow> nat \<Rightarrow> bool" where
  "bkey b k \<longleftrightarrow> b_dev b = 1 \<and> b_blockno b = k"

definition bio_inv :: "'x kbio_scheme \<Rightarrow> bool" where
  "bio_inv s \<longleftrightarrow> length (bufs s) = NBUF \<and> distinct (lru s) \<and> set (lru s) = {..<NBUF} \<and>
     curproc s < length (ptable s) \<and> p_state (myproc s) = RUNNING \<and> (\<forall>k. length (memdisk s k) = BSIZE) \<and>
     (\<forall>i < NBUF. buf_ok (memdisk s) (disksize s) (bufs s ! i)) \<and>
     (\<forall>i < NBUF. \<forall>j < NBUF. \<forall>k. bkey (bufs s ! i) k \<longrightarrow> bkey (bufs s ! j) k \<longrightarrow> i = j)"

definition cached :: "'x kbio_scheme \<Rightarrow> nat \<Rightarrow> nat option" where
  "cached s k = find (\<lambda>i. bkey (bufs s ! i) k) [0..<NBUF]"

definition view :: "'x kbio_scheme \<Rightarrow> nat \<Rightarrow> bytes" where
  "view s k = (case cached s k of Some i \<Rightarrow> b_data (bufs s ! i) | None \<Rightarrow> memdisk s k)"

text \<open>The running process holds buffer \<open>i\<close>, which caches block \<open>k\<close>.\<close>

definition holds :: "'x kbio_scheme \<Rightarrow> nat \<Rightarrow> nat \<Rightarrow> bool" where
  "holds s i k \<longleftrightarrow> i < NBUF \<and> bkey (bufs s ! i) k \<and> lk_locked (buf_lock i s)
     \<and> lk_pid (buf_lock i s) = p_pid (myproc s)"

definition dirty :: "'x kbio_scheme \<Rightarrow> nat \<Rightarrow> bool" where
  "dirty s k \<longleftrightarrow> (\<exists>i < NBUF. bkey (bufs s ! i) k \<and> b_dirty (bufs s ! i))"

lemma bio_invD:
  assumes "bio_inv s"
  shows "length (bufs s) = NBUF" "distinct (lru s)" "set (lru s) = {..<NBUF}"
    "curproc s < length (ptable s)" "length (memdisk s k) = BSIZE"
    "i < NBUF \<Longrightarrow> buf_ok (memdisk s) (disksize s) (bufs s ! i)"
    "i < NBUF \<Longrightarrow> j < NBUF \<Longrightarrow> bkey (bufs s ! i) k \<Longrightarrow> bkey (bufs s ! j) k \<Longrightarrow> i = j"
    "p_state (myproc s) = RUNNING"
  using assms by (auto simp: bio_inv_def)

lemma cached_Some:
  assumes "bio_inv s" "i < NBUF" "bkey (bufs s ! i) k"
  shows "cached s k = Some i"
proof -
  have "\<not> bkey (bufs s ! j) k" if "j < i" for j
    using bio_invD(7)[OF assms(1), of i j k] assms(2,3) that by auto
  with assms(2,3) show ?thesis
    unfolding cached_def find_Some_iff by (intro exI[of _ i]) simp
qed

lemma cached_None: "cached s k = None \<longleftrightarrow> (\<forall>i < NBUF. \<not> bkey (bufs s ! i) k)"
  by (auto simp: cached_def find_None_iff)

lemma cached_SomeD: "cached s k = Some i \<Longrightarrow> i < NBUF \<and> bkey (bufs s ! i) k"
  by (auto simp: cached_def find_Some_iff)

lemma view_cached:
  assumes "bio_inv s" "i < NBUF" "bkey (bufs s ! i) k"
  shows "view s k = b_data (bufs s ! i)"
  by (simp add: view_def cached_Some[OF assms])

lemma view_uncached: "(\<And>i. i < NBUF \<Longrightarrow> \<not> bkey (bufs s ! i) k) \<Longrightarrow> view s k = memdisk s k"
  using cached_None[of s k] by (simp add: view_def)

lemma length_view: "bio_inv s \<Longrightarrow> length (view s k) = BSIZE"
  using bio_invD(5,6) cached_SomeD[of s k]
  by (fastforce simp: view_def buf_ok_def split: option.split)

lemma find_unique:
  assumes "x \<in> set xs" "P x" "\<And>y. y \<in> set xs \<Longrightarrow> P y \<Longrightarrow> y = x"
  shows "find P xs = Some x"
proof (cases "find P xs")
  case None
  with assms(1,2) show ?thesis by (simp add: find_None_iff)
next
  case (Some y)
  then have "y \<in> set xs" "P y" by (auto simp: find_Some_iff)
  then have "y = x" by (rule assms(3))
  with Some show ?thesis by simp
qed

lemma find_key:
  assumes "bio_inv s"
  shows "find (\<lambda>i. b_dev (bufs s ! i) = 1 \<and> b_blockno (bufs s ! i) = k) (lru s) = cached s k"
proof (cases "cached s k")
  case None
  then have "find (\<lambda>i. bkey (bufs s ! i) k) (lru s) = None"
    using bio_invD(3)[OF assms] by (auto simp: cached_None find_None_iff)
  with None show ?thesis by (simp add: bkey_def)
next
  case (Some i)
  then have "i < NBUF" "bkey (bufs s ! i) k" using cached_SomeD by auto
  then have "find (\<lambda>i. bkey (bufs s ! i) k) (lru s) = Some i"
    using bio_invD(3,7)[OF assms] by (intro find_unique) auto
  with Some show ?thesis by (simp add: bkey_def)
qed

lemma upd_buf_simps [simp]:
  "length (bufs (upd_buf i f s)) = length (bufs s)" "lru (upd_buf i f s) = lru s"
  "memdisk (upd_buf i f s) = memdisk s" "disksize (upd_buf i f s) = disksize s"
  "dhist (upd_buf i f s) = dhist s" "ptable (upd_buf i f s) = ptable s"
  "curproc (upd_buf i f s) = curproc s" "myproc (upd_buf i f s) = myproc s"
  "kbio.more (upd_buf i f s) = kbio.more s"
  by (simp_all add: upd_buf_def myproc_def)

lemma bufs_upd_buf [simp]: "bufs (upd_buf i f s) = (bufs s)[i := f (bufs s ! i)]"
  by (simp add: upd_buf_def)

lemma sleeplock_upd [simp]:
  "(lk :: sleeplock)\<lparr>lk_locked := l, lk_pid := p\<rparr> = \<lparr>lk_locked = l, lk_pid = p\<rparr>"
  by (cases lk) simp

lemma bio_inv_upd_buf:
  assumes "bio_inv s" "i < NBUF" "buf_ok (memdisk s) (disksize s) (f (bufs s ! i))"
    and "\<And>j k. j < NBUF \<Longrightarrow> j \<noteq> i \<Longrightarrow> bkey (f (bufs s ! i)) k \<Longrightarrow> \<not> bkey (bufs s ! j) k"
  shows "bio_inv (upd_buf i f s)"
proof -
  have nth: "bufs (upd_buf i f s) ! j = (if j = i then f (bufs s ! i) else bufs s ! j)" if "j < NBUF" for j
    using that assms(1,2) by (simp add: nth_list_update bio_invD(1))
  have "buf_ok (memdisk s) (disksize s) (bufs (upd_buf i f s) ! j)" if "j < NBUF" for j
    unfolding nth[OF that] using assms(3) bio_invD(6)[OF assms(1) that] by simp
  moreover have "j = j'" if "j < NBUF" "j' < NBUF" "bkey (bufs (upd_buf i f s) ! j) k"
      "bkey (bufs (upd_buf i f s) ! j') k" for j j' k
    using that bio_invD(7)[OF assms(1), of j j' k] assms(4)[of j k] assms(4)[of j' k]
    unfolding nth[OF that(1)] nth[OF that(2)] by (simp split: if_splits)
  ultimately show ?thesis using bio_invD[OF assms(1)] unfolding bio_inv_def by simp
qed

lemma view_upd_buf:
  assumes "bio_inv s" "bio_inv (upd_buf i f s)" "i < NBUF"
  shows "view (upd_buf i f s) k =
    (if bkey (f (bufs s ! i)) k then b_data (f (bufs s ! i))
     else if bkey (bufs s ! i) k then memdisk s k else view s k)"
proof -
  let ?s = "upd_buf i f s"
  have len: "length (bufs s) = NBUF" using bio_invD(1)[OF assms(1)] .
  consider "bkey (f (bufs s ! i)) k" | "\<not> bkey (f (bufs s ! i)) k" "bkey (bufs s ! i) k"
    | j where "\<not> bkey (f (bufs s ! i)) k" "\<not> bkey (bufs s ! i) k" "j < NBUF" "j \<noteq> i" "bkey (bufs s ! j) k"
    | "\<not> bkey (f (bufs s ! i)) k" "\<And>j. j < NBUF \<Longrightarrow> \<not> bkey (bufs s ! j) k"
    using assms(3) by blast
  then show ?thesis
  proof cases
    case 1
    with view_cached[OF assms(2,3)] show ?thesis using len assms(3) by simp
  next
    case 2
    then have "view ?s k = memdisk ?s k"
      using bio_invD(7)[OF assms(1) assms(3)] len assms(3)
      by (intro view_uncached) (auto simp: nth_list_update split: if_splits)
    with 2 show ?thesis by simp
  next
    case 3
    have "view ?s k = b_data (bufs ?s ! j)"
      using 3 len by (intro view_cached[OF assms(2)]) simp_all
    with 3 view_cached[OF assms(1), of j k] show ?thesis by simp
  next
    case 4
    have "view ?s k = memdisk ?s k" using 4 len assms(3)
      by (intro view_uncached) (auto simp: nth_list_update split: if_splits)
    with 4 view_uncached[of s k] assms(3) show ?thesis by simp
  qed
qed

lemma dirty_upd_buf:
  assumes "bio_inv s" "i < NBUF"
  shows "dirty (upd_buf i f s) k \<longleftrightarrow> (bkey (f (bufs s ! i)) k \<and> b_dirty (f (bufs s ! i)))
     \<or> (\<exists>j < NBUF. j \<noteq> i \<and> bkey (bufs s ! j) k \<and> b_dirty (bufs s ! j))"
  using assms bio_invD(1)[OF assms(1)] by (auto simp: dirty_def nth_list_update)

subsection \<open>What the operations do\<close>

definition my_lock :: "'x kbio_scheme \<Rightarrow> sleeplock" where
  "my_lock s = \<lparr>lk_locked = True, lk_pid = p_pid (myproc s)\<rparr>"

lemma myproc_kbio [simp]:
  "myproc (s\<lparr>bufs := x\<rparr>) = myproc s" "myproc (s\<lparr>lru := l\<rparr>) = myproc s"
  "myproc (s\<lparr>memdisk := d\<rparr>) = myproc s" "myproc (s\<lparr>dhist := h\<rparr>) = myproc s"
  by (simp_all add: myproc_def)

lemma my_lock_kbio [simp]:
  "my_lock (s\<lparr>bufs := x\<rparr>) = my_lock s" "my_lock (s\<lparr>lru := l\<rparr>) = my_lock s"
  "my_lock (s\<lparr>memdisk := d\<rparr>) = my_lock s" "my_lock (s\<lparr>dhist := h\<rparr>) = my_lock s"
  by (simp_all add: my_lock_def)

lemma acquiresleep_buf:
  assumes "i < length (bufs s)"
  shows "acquiresleep (ChBufLock i) (buf_lock i) (upd_buf_lock i) s =
    (if lk_locked (b_lock (bufs s ! i)) then Inl (Asleep (ChBufLock i), upd_myproc (sleep_enter (ChBufLock i)) s)
     else Inr ((), upd_buf i (\<lambda>b. b\<lparr>b_lock := my_lock s\<rparr>) s))"
  by (simp add: acquiresleep_def buf_lock_def upd_buf_lock_def my_lock_def upd_buf_def)

lemma upd_buf_twice [simp]:
  "i < length (bufs s) \<Longrightarrow> upd_buf i g (upd_buf i f s) = upd_buf i (g \<circ> f) s"
  by (simp add: upd_buf_def)

lemma my_lock_upd_buf [simp]: "my_lock (upd_buf i f s) = my_lock s"
  by (simp add: my_lock_def)

lemma bread_hit:
  assumes "bio_inv s" "cached s k = Some i" "\<not> lk_locked (b_lock (bufs s ! i))"
  shows "bread 1 k s = Inr (i, upd_buf i (\<lambda>b. b\<lparr>b_refcnt := 1, b_lock := my_lock s\<rparr>) s)"
proof -
  have i: "i < NBUF" "bkey (bufs s ! i) k" using cached_SomeD[OF assms(2)] by auto
  have len: "length (bufs s) = NBUF" using bio_invD(1)[OF assms(1)] .
  have "buf_ok (memdisk s) (disksize s) (bufs s ! i)" using bio_invD(6)[OF assms(1) i(1)] .
  with assms(3) i have "b_refcnt (bufs s ! i) = 0" "b_valid (bufs s ! i)"
    by (simp_all add: buf_ok_def bkey_def)
  with assms(3) i len show ?thesis
    by (simp add: bread_def bget_def find_key[OF assms(1)] assms(2) acquiresleep_buf comp_def upd_buf_def)
qed

lemma bread_locked:
  assumes "bio_inv s" "cached s k = Some i" "lk_locked (b_lock (bufs s ! i))"
  shows "\<exists>t. bread 1 k s = Inl (Asleep (ChBufLock i), t)"
proof -
  have i: "i < NBUF" "bkey (bufs s ! i) k" using cached_SomeD[OF assms(2)] by auto
  have len: "length (bufs s) = NBUF" using bio_invD(1)[OF assms(1)] .
  show ?thesis
    using assms(3) i len
    by (simp add: bread_def bget_def find_key[OF assms(1)] assms(2) acquiresleep_buf bnd_fail sq_fail)
qed

lemma find_SomeD: "find P xs = Some x \<Longrightarrow> x \<in> set xs \<and> P x"
  by (auto simp: find_Some_iff)

lemma find_victim:
  assumes "bio_inv s" "find (\<lambda>i. b_refcnt (bufs s ! i) = 0 \<and> \<not> b_dirty (bufs s ! i)) (rev (lru s)) = Some v"
  shows "v < NBUF" "\<not> lk_locked (b_lock (bufs s ! v))" "\<not> b_dirty (bufs s ! v)"
proof -
  have "v \<in> set (lru s)" and r: "b_refcnt (bufs s ! v) = 0" and d: "\<not> b_dirty (bufs s ! v)"
    using find_SomeD[OF assms(2)] by auto
  then show v: "v < NBUF" using bio_invD(3)[OF assms(1)] by simp
  show "\<not> b_dirty (bufs s ! v)" by (rule d)
  show "\<not> lk_locked (b_lock (bufs s ! v))"
    using bio_invD(6)[OF assms(1) v] r by (auto simp: buf_ok_def split: if_splits)
qed

lemma victim_exists:
  assumes "bio_inv s" "i < NBUF" "\<not> lk_locked (b_lock (bufs s ! i))" "\<not> b_dirty (bufs s ! i)"
  shows "\<exists>v. find (\<lambda>i. b_refcnt (bufs s ! i) = 0 \<and> \<not> b_dirty (bufs s ! i)) (rev (lru s)) = Some v"
proof (rule ccontr)
  assume "\<nexists>v. find (\<lambda>i. b_refcnt (bufs s ! i) = 0 \<and> \<not> b_dirty (bufs s ! i)) (rev (lru s)) = Some v"
  then have "\<forall>i \<in> set (lru s). \<not> (b_refcnt (bufs s ! i) = 0 \<and> \<not> b_dirty (bufs s ! i))"
    by (auto simp: find_None_iff)
  moreover have "i \<in> set (lru s)" using assms(2) bio_invD(3)[OF assms(1)] by simp
  moreover have "b_refcnt (bufs s ! i) = 0" using bio_invD(6)[OF assms(1,2)] assms(3) by (simp add: buf_ok_def)
  ultimately show False using assms(4) by blast
qed

definition fresh_buf :: "'x kbio_scheme \<Rightarrow> nat \<Rightarrow> buf" where
  "fresh_buf s k = \<lparr>b_valid = True, b_dirty = False, b_dev = 1, b_blockno = k, b_lock = my_lock s,
     b_refcnt = 1, b_data = memdisk s k\<rparr>"

lemma bread_miss:
  assumes "bio_inv s" "cached s k = None" "k < disksize s"
    and "find (\<lambda>i. b_refcnt (bufs s ! i) = 0 \<and> \<not> b_dirty (bufs s ! i)) (rev (lru s)) = Some v"
  shows "bread 1 k s = Inr (v, upd_buf v (\<lambda>_. fresh_buf s k) s)"
proof -
  have v: "v < NBUF" "\<not> lk_locked (b_lock (bufs s ! v))" using find_victim[OF assms(1,4)] by auto
  have len: "length (bufs s) = NBUF" using bio_invD(1)[OF assms(1)] .
  let ?f = "\<lambda>b. b\<lparr>b_dev := 1, b_blockno := k, b_valid := False, b_dirty := False, b_refcnt := 1,
     b_lock := my_lock s\<rparr>"
  have "bget 1 k s = Inr (v, upd_buf v ?f s)"
    using v len by (simp add: bget_def find_key[OF assms(1)] assms(2,4) acquiresleep_buf comp_def)
  moreover have "iderw v (upd_buf v ?f s) = Inr ((), upd_buf v (\<lambda>_. fresh_buf s k) s)"
    using v len assms(3)
    by (cases "bufs s ! v")
      (simp add: iderw_def holdingsleep_def buf_lock_def my_lock_def fresh_buf_def upd_buf_def)
  ultimately show ?thesis using v len by (simp add: bread_def)
qed

lemma bread_out_of_range:
  assumes "bio_inv s" "cached s k = None" "k \<ge> disksize s"
    and "find (\<lambda>i. b_refcnt (bufs s ! i) = 0 \<and> \<not> b_dirty (bufs s ! i)) (rev (lru s)) = Some v"
  shows "\<exists>t. bread 1 k s = Inl (Panic ''iderw: block out of range'', t)"
proof -
  have v: "v < NBUF" "\<not> lk_locked (b_lock (bufs s ! v))" using find_victim[OF assms(1,4)] by auto
  have len: "length (bufs s) = NBUF" using bio_invD(1)[OF assms(1)] .
  let ?f = "\<lambda>b. b\<lparr>b_dev := 1, b_blockno := k, b_valid := False, b_dirty := False, b_refcnt := 1,
     b_lock := my_lock s\<rparr>"
  have "bget 1 k s = Inr (v, upd_buf v ?f s)"
    using v len by (simp add: bget_def find_key[OF assms(1)] assms(2,4) acquiresleep_buf comp_def)
  moreover have "\<exists>t. iderw v (upd_buf v ?f s) = Inl (Panic ''iderw: block out of range'', t)"
    using v len assms(3)
    by (simp add: iderw_def holdingsleep_def buf_lock_def my_lock_def)
  ultimately show ?thesis using v len by (auto simp: bread_def sq_fail bnd_fail)
qed

lemma bread_no_victim:
  assumes "bio_inv s" "cached s k = None"
    and "find (\<lambda>i. b_refcnt (bufs s ! i) = 0 \<and> \<not> b_dirty (bufs s ! i)) (rev (lru s)) = None"
  shows "bread 1 k s = Inl (Panic ''bget: no buffers'', s)"
  using assms by (simp add: bread_def bget_def find_key bnd_fail)

subsection \<open>The contract\<close>

text \<open>What no operation of the cache changes for the layers above, but for the waking of processes
  that wait for a buffer.\<close>

definition bio_step :: "'x kbio_scheme \<Rightarrow> 'x kbio_scheme \<Rightarrow> bool" where
  "bio_step s s' \<longleftrightarrow> keep_proc s s' \<and> disksize s' = disksize s \<and> kbio.more s' = kbio.more s"

definition quiet :: "'x kbio_scheme \<Rightarrow> 'x kbio_scheme \<Rightarrow> bool" where
  "quiet s s' \<longleftrightarrow> bio_step s s' \<and> view s' = view s \<and> dirty s' = dirty s \<and> memdisk s' = memdisk s
     \<and> dhist s' = dhist s"

text \<open>The contents of a buffer that can be released: on its way to the log, or as on disk.\<close>

definition settled :: "'x kbio_scheme \<Rightarrow> nat \<Rightarrow> bool" where
  "settled s i \<longleftrightarrow> b_dirty (bufs s ! i) \<or> b_data (bufs s ! i) = memdisk s (b_blockno (bufs s ! i))"

definition others_held :: "'x kbio_scheme \<Rightarrow> 'x kbio_scheme \<Rightarrow> nat \<Rightarrow> bool" where
  "others_held s s' i \<longleftrightarrow> (\<forall>j k. j \<noteq> i \<longrightarrow> holds s j k \<longrightarrow> holds s' j k \<and> bufs s' ! j = bufs s ! j)"

definition held :: "'x kbio_scheme \<Rightarrow> nat set" where
  "held s = {k. \<exists>i < NBUF. bkey (bufs s ! i) k \<and> lk_locked (b_lock (bufs s ! i))}"

lemma bio_step_refl [simp]: "bio_step s s"
  by (simp add: bio_step_def)

lemma bio_step_trans [trans]: "bio_step s t \<Longrightarrow> bio_step t u \<Longrightarrow> bio_step s u"
  by (auto simp: bio_step_def intro: keep_proc_trans)

lemma quiet_refl [simp]: "quiet s s"
  by (simp add: quiet_def)

lemma quiet_trans [trans]: "quiet s t \<Longrightarrow> quiet t u \<Longrightarrow> quiet s u"
  by (auto simp: quiet_def intro: bio_step_trans)

lemma bio_step_upd_buf [simp]: "bio_step s (upd_buf i f s)"
  by (simp add: bio_step_def keep_proc_def upd_buf_def list_all2_refl)

lemma holds_upd_buf:
  assumes "bio_inv s" "j \<noteq> i" "holds s j k"
  shows "holds (upd_buf i f s) j k \<and> bufs (upd_buf i f s) ! j = bufs s ! j"
  using assms by (simp add: holds_def buf_lock_def)

lemma bread_spec:
  assumes inv: "bio_inv s" and run: "bread 1 k s = Inr (i, s')"
  shows "bio_inv s' \<and> quiet s s' \<and> holds s' i k \<and> b_data (bufs s' ! i) = view s k \<and> settled s' i
    \<and> k < disksize s \<and> \<not> lk_locked (b_lock (bufs s ! i)) \<and> others_held s s' i"
proof (cases "cached s k")
  case (Some v)
  have v: "v < NBUF" "bkey (bufs s ! v) k" using cached_SomeD[OF Some] by auto
  have ok: "buf_ok (memdisk s) (disksize s) (bufs s ! v)" using bio_invD(6)[OF inv v(1)] .
  let ?f = "\<lambda>b. b\<lparr>b_refcnt := 1, b_lock := my_lock s\<rparr>"
  have free: "\<not> lk_locked (b_lock (bufs s ! v))" and i: "i = v" and s': "s' = upd_buf v ?f s"
    using run bread_hit[OF inv Some] bread_locked[OF inv Some] by (cases "lk_locked (b_lock (bufs s ! v))"; auto)+
  have key: "bkey (?f (bufs s ! v)) m = bkey (bufs s ! v) m" for m by (simp add: bkey_def)
  have inv': "bio_inv s'" unfolding s'
  proof (rule bio_inv_upd_buf[OF inv v(1)])
    show "buf_ok (memdisk s) (disksize s) (?f (bufs s ! v))"
      using ok v(2) by (auto simp: buf_ok_def my_lock_def bkey_def)
    show "\<not> bkey (bufs s ! j) m" if "j < NBUF" "j \<noteq> v" "bkey (?f (bufs s ! v)) m" for j m
      using bio_invD(7)[OF inv v(1) that(1), of m] that(2,3) unfolding key by blast
  qed
  have "view s' m = view s m" for m
    unfolding s' view_upd_buf[OF inv inv'[unfolded s'] v(1)] key
    using view_cached[OF inv v(1)] by simp
  moreover have "dirty s' m = dirty s m" for m
    unfolding s' dirty_upd_buf[OF inv v(1)] key using v(1) by (auto simp: dirty_def)
  moreover have "settled s' v"
    using ok free v bio_invD(1)[OF inv] by (auto simp: s' settled_def buf_ok_def bkey_def)
  moreover have "holds s' v k"
    using v bio_invD(1)[OF inv] by (simp add: holds_def s' buf_lock_def my_lock_def bkey_def)
  moreover have "k < disksize s" using ok v by (simp add: buf_ok_def bkey_def)
  moreover have "b_data (bufs s' ! v) = view s k"
    using view_cached[OF inv v] v bio_invD(1)[OF inv] by (simp add: s')
  ultimately show ?thesis
    using inv' free i holds_upd_buf[OF inv] unfolding s' quiet_def others_held_def by auto
next
  case None
  then obtain v where v: "find (\<lambda>i. b_refcnt (bufs s ! i) = 0 \<and> \<not> b_dirty (bufs s ! i)) (rev (lru s)) = Some v"
    using run bread_no_victim[OF inv None] by fastforce
  note vic = find_victim[OF inv v]
  have ok: "buf_ok (memdisk s) (disksize s) (bufs s ! v)" using bio_invD(6)[OF inv vic(1)] .
  have k: "k < disksize s" and i: "i = v" and s': "s' = upd_buf v (\<lambda>_. fresh_buf s k) s"
    using run bread_miss[OF inv None _ v] bread_out_of_range[OF inv None _ v]
    by (cases "k < disksize s"; auto)+
  have key: "bkey (fresh_buf s k) m \<longleftrightarrow> m = k" for m by (auto simp: bkey_def fresh_buf_def)
  have nokey: "\<not> bkey (bufs s ! j) k" if "j < NBUF" for j using None that by (simp add: cached_None)
  have inv': "bio_inv s'" unfolding s'
  proof (rule bio_inv_upd_buf[OF inv vic(1)])
    show "buf_ok (memdisk s) (disksize s) (fresh_buf s k)"
      using k bio_invD(5)[OF inv] by (simp add: buf_ok_def fresh_buf_def my_lock_def)
  qed (use key nokey in auto)
  have clean: "b_data (bufs s ! v) = memdisk s m" if "bkey (bufs s ! v) m" for m
    using ok vic(2,3) that by (auto simp: buf_ok_def bkey_def)
  have "view s' m = view s m" for m
    unfolding s' view_upd_buf[OF inv inv'[unfolded s'] vic(1)] key
    using view_uncached[OF nokey] view_cached[OF inv vic(1), of m] clean[of m]
    by (simp add: fresh_buf_def)
  moreover have "dirty s' m = dirty s m" for m
    unfolding s' dirty_upd_buf[OF inv vic(1)] using vic by (auto simp: dirty_def fresh_buf_def)
  moreover have "holds s' v k" "settled s' v" "b_data (bufs s' ! v) = view s k"
    using vic bio_invD(1)[OF inv] view_uncached[OF nokey]
    by (simp_all add: holds_def s' buf_lock_def my_lock_def bkey_def fresh_buf_def settled_def)
  ultimately show ?thesis
    using inv' vic(2) i k holds_upd_buf[OF inv] unfolding s' quiet_def others_held_def by auto
qed

lemma held_upd_buf:
  assumes "bio_inv s" "i < NBUF"
  shows "held (upd_buf i f s) = {k. bkey (f (bufs s ! i)) k \<and> lk_locked (b_lock (f (bufs s ! i)))}
    \<union> (held s - {k. bkey (bufs s ! i) k})"
proof -
  have "k \<in> held (upd_buf i f s) \<longleftrightarrow> bkey (f (bufs s ! i)) k \<and> lk_locked (b_lock (f (bufs s ! i)))
      \<or> (\<exists>j < NBUF. j \<noteq> i \<and> bkey (bufs s ! j) k \<and> lk_locked (b_lock (bufs s ! j)))" for k
    using assms(2) bio_invD(1)[OF assms(1)] unfolding held_def bufs_upd_buf mem_Collect_eq
    by (metis nth_list_update_eq nth_list_update_neq)
  moreover have "(\<exists>j < NBUF. j \<noteq> i \<and> bkey (bufs s ! j) k \<and> lk_locked (b_lock (bufs s ! j)))
      \<longleftrightarrow> k \<in> held s \<and> \<not> bkey (bufs s ! i) k" for k
    using bio_invD(7)[OF assms(1) assms(2)] unfolding held_def by blast
  ultimately show ?thesis by blast
qed

lemma bread_held:
  assumes inv: "bio_inv s" and run: "bread 1 k s = Inr (i, s')"
  shows "k \<notin> held s" "held s' = insert k (held s)"
proof -
  show "k \<notin> held s"
  proof
    assume "k \<in> held s"
    then obtain j where "j < NBUF" "bkey (bufs s ! j) k" "lk_locked (b_lock (bufs s ! j))"
      by (auto simp: held_def)
    with run show False using bread_locked[OF inv cached_Some[OF inv], of j k] by auto
  qed
  show "held s' = insert k (held s)"
  proof (cases "cached s k")
    case (Some v)
    then have v: "v < NBUF" "bkey (bufs s ! v) k" by (auto dest: cached_SomeD)
    then have s': "s' = upd_buf v (\<lambda>b. b\<lparr>b_refcnt := 1, b_lock := my_lock s\<rparr>) s"
      using run bread_hit[OF inv Some] bread_locked[OF inv Some]
      by (cases "lk_locked (b_lock (bufs s ! v))") auto
    show ?thesis
      unfolding s' held_upd_buf[OF inv v(1)] using v by (auto simp: bkey_def my_lock_def)
  next
    case None
    then obtain v where v: "find (\<lambda>i. b_refcnt (bufs s ! i) = 0 \<and> \<not> b_dirty (bufs s ! i)) (rev (lru s)) = Some v"
      using run bread_no_victim[OF inv None] by fastforce
    have "s' = upd_buf v (\<lambda>_. fresh_buf s k) s"
      using run bread_miss[OF inv None _ v] bread_out_of_range[OF inv None _ v] by (cases "k < disksize s") auto
    moreover have "held s - {k. bkey (bufs s ! v) k} = held s"
      using find_victim[OF inv v] bio_invD(7)[OF inv] unfolding held_def by blast
    ultimately show ?thesis
      using held_upd_buf[OF inv find_victim(1)[OF inv v]] by (auto simp: bkey_def fresh_buf_def my_lock_def)
  qed
qed

lemma clean_buffer:
  assumes inv: "bio_inv s" and few: "card (held s \<union> Collect (dirty s)) < NBUF"
  shows "\<exists>i < NBUF. \<not> lk_locked (b_lock (bufs s ! i)) \<and> \<not> b_dirty (bufs s ! i)"
proof (rule ccontr)
  assume none: "\<not> ?thesis"
  let ?B = "\<lambda>i. b_blockno (bufs s ! i)"
  have key: "bkey (bufs s ! i) (?B i)" if "i < NBUF" for i
    using none that bio_invD(6)[OF inv that] by (auto simp: buf_ok_def bkey_def)
  have "inj_on ?B {..<NBUF}"
    using key bio_invD(7)[OF inv] by (intro inj_onI) (metis lessThan_iff)
  then have "card (?B ` {..<NBUF}) = NBUF" by (simp add: card_image)
  moreover have "?B ` {..<NBUF} = held s \<union> Collect (dirty s)"
    using none key unfolding held_def dirty_def bkey_def by (auto simp: image_iff)
  ultimately show False using few by simp
qed

lemma bread_total:
  assumes inv: "bio_inv s" and "k < disksize s" "k \<notin> held s" "card (held s \<union> Collect (dirty s)) < NBUF"
  shows "\<exists>i s'. bread 1 k s = Inr (i, s')"
proof (cases "cached s k")
  case (Some v)
  then have "\<not> lk_locked (b_lock (bufs s ! v))" using assms(3) cached_SomeD[OF Some] by (auto simp: held_def)
  with bread_hit[OF inv Some] show ?thesis by simp
next
  case None
  obtain v where "find (\<lambda>i. b_refcnt (bufs s ! i) = 0 \<and> \<not> b_dirty (bufs s ! i)) (rev (lru s)) = Some v"
    using clean_buffer[OF inv assms(4)] victim_exists[OF inv] by blast
  with bread_miss[OF inv None assms(2)] show ?thesis by simp
qed

text \<open>Changes to a held buffer that leave it locked and keep its block.\<close>

lemma held_buffer:
  assumes inv: "bio_inv s" and h: "holds s i k"
    and f: "\<And>b. b_lock (f b) = b_lock b" "\<And>b. b_refcnt (f b) = b_refcnt b" "\<And>b. b_dev (f b) = b_dev b"
      "\<And>b. b_blockno (f b) = b_blockno b" "\<And>b. b_valid (f b) = b_valid b"
    and len: "length (b_data (f (bufs s ! i))) = BSIZE"
  shows "bio_inv (upd_buf i f s)" "holds (upd_buf i f s) i k" "held (upd_buf i f s) = held s"
    "view (upd_buf i f s) = (view s)(k := b_data (f (bufs s ! i)))"
    "dirty (upd_buf i f s) = (dirty s)(k := b_dirty (f (bufs s ! i)))"
    "others_held s (upd_buf i f s) i" "bufs (upd_buf i f s) ! i = f (bufs s ! i)"
proof -
  have i: "i < NBUF" "bkey (bufs s ! i) k" "lk_locked (b_lock (bufs s ! i))"
    using h by (auto simp: holds_def buf_lock_def)
  have key: "bkey (f b) m = bkey b m" for b m by (simp add: bkey_def f)
  have km: "bkey (bufs s ! i) m \<longleftrightarrow> m = k" for m using i(2) by (auto simp: bkey_def)
  show inv': "bio_inv (upd_buf i f s)"
  proof (rule bio_inv_upd_buf[OF inv i(1)])
    show "buf_ok (memdisk s) (disksize s) (f (bufs s ! i))"
      using bio_invD(6)[OF inv i(1)] i(2,3) len by (auto simp: buf_ok_def f bkey_def)
    show "\<not> bkey (bufs s ! j) m" if "j < NBUF" "j \<noteq> i" "bkey (f (bufs s ! i)) m" for j m
      using bio_invD(7)[OF inv i(1) that(1), of m] that(2,3) unfolding key by blast
  qed
  show "holds (upd_buf i f s) i k" "bufs (upd_buf i f s) ! i = f (bufs s ! i)"
    using h i bio_invD(1)[OF inv] by (simp_all add: holds_def buf_lock_def f key)
  show "held (upd_buf i f s) = held s"
    unfolding held_upd_buf[OF inv i(1)] key using i by (auto simp: f km held_def)
  show "view (upd_buf i f s) = (view s)(k := b_data (f (bufs s ! i)))"
    by (rule ext) (simp add: view_upd_buf[OF inv inv' i(1)] key km)
  show "dirty (upd_buf i f s) = (dirty s)(k := b_dirty (f (bufs s ! i)))"
  proof
    fix m show "dirty (upd_buf i f s) m = ((dirty s)(k := b_dirty (f (bufs s ! i)))) m"
      unfolding dirty_upd_buf[OF inv i(1)] key km using bio_invD(7)[OF inv i(1) _ i(2)] km
      by (auto simp: dirty_def)
  qed
  show "others_held s (upd_buf i f s) i"
    using holds_upd_buf[OF inv] unfolding others_held_def by blast
qed

lemma bset_spec:
  assumes "bio_inv s" "holds s i k" "length d = BSIZE"
  shows "\<exists>s'. bset i d s = Inr ((), s') \<and> bio_inv s' \<and> bio_step s s' \<and> holds s' i k \<and> held s' = held s
    \<and> view s' = (view s)(k := d) \<and> dirty s' = dirty s \<and> memdisk s' = memdisk s \<and> dhist s' = dhist s
    \<and> others_held s s' i \<and> b_data (bufs s' ! i) = d \<and> b_dirty (bufs s' ! i) = b_dirty (bufs s ! i)"
proof -
  have "dirty s k = b_dirty (bufs s ! i)"
    using assms(1,2) bio_invD(7)[OF assms(1)] by (auto simp: dirty_def holds_def)
  then show ?thesis
    using held_buffer[OF assms(1,2), of "\<lambda>b. b\<lparr>b_data := d\<rparr>"] assms(3)
    by (simp add: bset_def fun_upd_idem)
qed

lemma mark_dirty:
  assumes "bio_inv s" "holds s i k"
  defines "s' \<equiv> upd_buf i (\<lambda>b. b\<lparr>b_dirty := True\<rparr>) s"
  shows "bio_inv s' \<and> bio_step s s' \<and> holds s' i k \<and> held s' = held s \<and> view s' = view s
    \<and> dirty s' = (dirty s)(k := True) \<and> memdisk s' = memdisk s \<and> dhist s' = dhist s
    \<and> others_held s s' i \<and> settled s' i \<and> b_data (bufs s' ! i) = b_data (bufs s ! i)"
proof -
  have i: "i < NBUF" "bkey (bufs s ! i) k" using assms(2) by (auto simp: holds_def)
  have "length (b_data (bufs s ! i)) = BSIZE" using bio_invD(6)[OF assms(1) i(1)] by (simp add: buf_ok_def)
  with held_buffer[OF assms(1,2), of "\<lambda>b. b\<lparr>b_dirty := True\<rparr>"] view_cached[OF assms(1) i] show ?thesis
    unfolding s'_def by (simp add: fun_upd_idem settled_def)
qed

lemma bio_inv_disk:
  assumes "bio_inv s" "holds s i k" "length d = BSIZE" "\<And>m. m \<noteq> k \<Longrightarrow> md m = memdisk s m" "md k = d"
  shows "bio_inv (s\<lparr>memdisk := md, dhist := h\<rparr>)"
proof -
  have "buf_ok md (disksize s) (bufs s ! j)" if j: "j < NBUF" for j
  proof (cases "bkey (bufs s ! j) k")
    case True
    then have "j = i" using assms(2) bio_invD(7)[OF assms(1) j, of i k] by (auto simp: holds_def)
    with bio_invD(6)[OF assms(1) j] assms(2) show ?thesis
      by (auto simp: buf_ok_def holds_def buf_lock_def bkey_def)
  next
    case False
    with bio_invD(6)[OF assms(1) j] assms(4) show ?thesis by (auto simp: buf_ok_def bkey_def)
  qed
  moreover have "length (md m) = BSIZE" for m
    using assms(3-5) bio_invD(5)[OF assms(1)] by (cases "m = k") simp_all
  ultimately show ?thesis using bio_invD[OF assms(1)] unfolding bio_inv_def by simp
qed

lemma disk_simps:
  "held (s\<lparr>memdisk := md, dhist := h\<rparr>) = held s" "dirty (s\<lparr>memdisk := md, dhist := h\<rparr>) = dirty s"
  "holds (s\<lparr>memdisk := md, dhist := h\<rparr>) = holds s" "bio_step s (s\<lparr>memdisk := md, dhist := h\<rparr>)"
  by (simp_all add: held_def dirty_def fun_eq_iff holds_def buf_lock_def bio_step_def keep_proc_def
      list_all2_refl)

lemma view_disk:
  assumes "bio_inv s" "holds s i k" "\<And>m. m \<noteq> k \<Longrightarrow> md m = memdisk s m"
  shows "view (s\<lparr>memdisk := md, dhist := h\<rparr>) = view s"
proof
  fix m
  have "cached (s\<lparr>memdisk := md, dhist := h\<rparr>) m = cached s m" by (simp add: cached_def)
  moreover have "cached s k = Some i" using assms(2) by (intro cached_Some[OF assms(1)]) (auto simp: holds_def)
  ultimately show "view (s\<lparr>memdisk := md, dhist := h\<rparr>) m = view s m"
    using assms(3)[of m] by (cases "m = k") (auto simp: view_def split: option.split)
qed

lemma bwrite_spec:
  assumes "bio_inv s" "holds s i k"
  shows "\<exists>s'. bwrite i s = Inr ((), s') \<and> bio_inv s' \<and> bio_step s s' \<and> holds s' i k \<and> held s' = held s
    \<and> view s' = view s \<and> dirty s' = (dirty s)(k := False) \<and> memdisk s' = (memdisk s)(k := view s k)
    \<and> dhist s' = dhist s @ [(k, view s k)] \<and> others_held s s' i \<and> settled s' i
    \<and> b_data (bufs s' ! i) = view s k"
proof -
  have i: "i < NBUF" "bkey (bufs s ! i) k" "lk_locked (b_lock (bufs s ! i))"
      "lk_pid (b_lock (bufs s ! i)) = p_pid (myproc s)"
    using assms(2) by (auto simp: holds_def buf_lock_def)
  have ok: "buf_ok (memdisk s) (disksize s) (bufs s ! i)" using bio_invD(6)[OF assms(1) i(1)] .
  then have b: "b_valid (bufs s ! i)" "b_dev (bufs s ! i) = 1" "b_blockno (bufs s ! i) = k" "k < disksize s"
      "length (b_data (bufs s ! i)) = BSIZE"
    using i by (auto simp: buf_ok_def bkey_def)
  have vk: "view s k = b_data (bufs s ! i)" using view_cached[OF assms(1) i(1,2)] .
  let ?t = "upd_buf i (\<lambda>b. b\<lparr>b_dirty := False\<rparr>) s"
  let ?s = "?t\<lparr>memdisk := (memdisk s)(k := view s k), dhist := dhist s @ [(k, view s k)]\<rparr>"
  have run: "bwrite i s = Inr ((), ?s)"
    using i b bio_invD(1)[OF assms(1)] vk
    by (cases "bufs s ! i") (simp add: bwrite_def iderw_def holdingsleep_def buf_lock_def upd_buf_def)
  note h = held_buffer[OF assms, of "\<lambda>b. b\<lparr>b_dirty := False\<rparr>", simplified, OF b(5)]
  have "length (view s k) = BSIZE" using b(5) vk by simp
  then have "bio_inv ?s" using bio_inv_disk[OF h(1,2)] by simp
  moreover have "view ?s = view ?t" using view_disk[OF h(1,2)] by simp
  moreover have "view ?t = view s" using h(4) vk by (simp add: fun_upd_idem)
  moreover have "others_held s ?s i" using h(6) by (simp add: others_held_def holds_def buf_lock_def)
  moreover have "settled ?s i" using h(7) i(1) b bio_invD(1)[OF assms(1)] vk by (simp add: settled_def)
  ultimately show ?thesis
    using run h bio_step_upd_buf[of s i] vk bio_step_trans[OF bio_step_upd_buf[of s i] disk_simps(4)]
    by (simp add: disk_simps)
qed

text \<open>Reordering the list and waking a sleeper are invisible.\<close>

definition relinked :: "'x kbio_scheme \<Rightarrow> 'x kbio_scheme \<Rightarrow> bool" where
  "relinked s s' \<longleftrightarrow> bufs s' = bufs s \<and> memdisk s' = memdisk s \<and> disksize s' = disksize s \<and> dhist s' = dhist s
     \<and> myproc s' = myproc s \<and> keep_proc s s' \<and> kbio.more s' = kbio.more s \<and> distinct (lru s')
     \<and> set (lru s') = {..<NBUF}"

lemma relinked_abs:
  assumes "relinked s s'"
  shows "view s' = view s" "dirty s' = dirty s" "held s' = held s" "holds s' = holds s"
    "bio_step s s'" "bio_inv s \<Longrightarrow> bio_inv s'"
proof -
  have "bufs s' = bufs s" "memdisk s' = memdisk s" "disksize s' = disksize s" "myproc s' = myproc s"
    and k: "keep_proc s s'" "kbio.more s' = kbio.more s" "distinct (lru s')" "set (lru s') = {..<NBUF}"
    using assms by (auto simp: relinked_def)
  then show "view s' = view s" "dirty s' = dirty s" "held s' = held s" "holds s' = holds s"
    by (simp_all add: fun_eq_iff view_def cached_def dirty_def held_def holds_def buf_lock_def
        cong: option.case_cong)
  show "bio_step s s'" using assms by (simp add: relinked_def bio_step_def)
  show "bio_inv s'" if "bio_inv s"
    using assms that keep_proc_length[OF k(1)] k(1)
    unfolding relinked_def bio_inv_def keep_proc_def by simp
qed

lemma relinked_wakeup1:
  assumes "bio_inv s"
  shows "relinked s ((wakeup1 c s)\<lparr>lru := i # remove1 i (lru s)\<rparr>) \<longleftrightarrow> i < NBUF"
proof -
  let ?t = "(wakeup1 c s)\<lparr>lru := i # remove1 i (lru s)\<rparr>"
  have "myproc (wakeup1 c s) = myproc s" using bio_invD(4,8)[OF assms] by simp
  then have "myproc ?t = myproc s" by (simp add: myproc_def)
  moreover have "keep_proc s ?t"
    using keep_proc_wakeup1[of s c] by (simp add: keep_proc_def)
  moreover have "bufs ?t = bufs s \<and> memdisk ?t = memdisk s \<and> disksize ?t = disksize s \<and> dhist ?t = dhist s
      \<and> kbio.more ?t = kbio.more s" by (simp add: wakeup1_def)
  ultimately show ?thesis
    using bio_invD(2,3)[OF assms] by (auto simp: relinked_def)
qed

lemma relinked_wakeup:
  assumes "bio_inv s"
  shows "relinked s (wakeup1 c s)"
proof -
  have "myproc (wakeup1 c s) = myproc s" using bio_invD(4,8)[OF assms] by simp
  moreover have "bufs (wakeup1 c s) = bufs s \<and> memdisk (wakeup1 c s) = memdisk s \<and> disksize (wakeup1 c s) = disksize s
      \<and> dhist (wakeup1 c s) = dhist s \<and> kbio.more (wakeup1 c s) = kbio.more s \<and> lru (wakeup1 c s) = lru s"
    by (simp add: wakeup1_def)
  ultimately show ?thesis using bio_invD(2,3)[OF assms] by (simp add: relinked_def)
qed

lemma brelse_spec:
  assumes inv: "bio_inv s" and h: "holds s i k" and set: "settled s i"
  shows "\<exists>s'. brelse i s = Inr ((), s') \<and> bio_inv s' \<and> quiet s s' \<and> held s' = held s - {k}
    \<and> others_held s s' i"
proof -
  have i: "i < NBUF" "bkey (bufs s ! i) k" "lk_locked (b_lock (bufs s ! i))"
      "lk_pid (b_lock (bufs s ! i)) = p_pid (myproc s)"
    using h by (auto simp: holds_def buf_lock_def)
  have ok: "buf_ok (memdisk s) (disksize s) (bufs s ! i)" using bio_invD(6)[OF inv i(1)] .
  let ?f = "\<lambda>b. b\<lparr>b_refcnt := 0, b_lock := \<lparr>lk_locked = False, lk_pid = 0\<rparr>\<rparr>"
  let ?t = "upd_buf i ?f s"
  let ?s = "(wakeup1 (ChBufLock i) ?t)\<lparr>lru := i # remove1 i (lru s)\<rparr>"
  have run: "brelse i s = Inr ((), ?s)"
    using i ok bio_invD(1)[OF inv]
    by (cases "bufs s ! i")
      (simp add: brelse_def holdingsleep_def buf_lock_def releasesleep_def wakeup_def upd_buf_lock_def
        upd_buf_def wakeup1_def buf_ok_def)
  have key: "bkey (?f b) m = bkey b m" for b m by (simp add: bkey_def)
  have km: "bkey (bufs s ! i) m \<longleftrightarrow> m = k" for m using i(2) by (auto simp: bkey_def)
  have inv': "bio_inv ?t"
  proof (rule bio_inv_upd_buf[OF inv i(1)])
    show "buf_ok (memdisk s) (disksize s) (?f (bufs s ! i))"
      using ok set i(2,3) by (auto simp: buf_ok_def settled_def bkey_def)
    show "\<not> bkey (bufs s ! j) m" if "j < NBUF" "j \<noteq> i" "bkey (?f (bufs s ! i)) m" for j m
      using bio_invD(7)[OF inv i(1) that(1), of m] that(2,3) unfolding key by blast
  qed
  have re: "relinked ?t ?s" using relinked_wakeup1[OF inv', of i "ChBufLock i"] i(1) by simp
  have "view ?t m = view s m" for m
    using view_upd_buf[OF inv inv' i(1), of m] view_cached[OF inv i(1,2)] by (simp add: key km)
  moreover have "dirty ?t m = dirty s m" for m
    unfolding dirty_upd_buf[OF inv i(1)] key using i(1) by (auto simp: dirty_def)
  moreover have "held ?t = held s - {k}" using held_upd_buf[OF inv i(1), of ?f] by (auto simp: key km)
  moreover have "others_held s ?s i"
    using holds_upd_buf[OF inv] relinked_abs(4)[OF re] re
    unfolding others_held_def relinked_def by metis
  ultimately have "quiet s ?s \<and> held ?s = held s - {k} \<and> bio_inv ?s \<and> others_held s ?s i"
    using relinked_abs[OF re] inv' re bio_step_trans[OF bio_step_upd_buf relinked_abs(5)[OF re]]
    by (auto simp: quiet_def relinked_def)
  with run show ?thesis by blast
qed

definition zero_buf :: buf where
  "zero_buf = \<lparr>b_valid = False, b_dirty = False, b_dev = 0, b_blockno = 0, b_lock = initsleeplock,
     b_refcnt = 0, b_data = replicate BSIZE 0\<rparr>"

lemma binit_establishes:
  assumes "bufs s = replicate NBUF zero_buf" "curproc s < length (ptable s)" "p_state (myproc s) = RUNNING"
    "\<And>k. length (memdisk s k) = BSIZE"
  shows "\<exists>s'. binit s = Inr ((), s') \<and> bio_inv s' \<and> held s' = {} \<and> Collect (dirty s') = {} \<and> view s' = memdisk s"
proof -
  have nth: "map (b_lock_update (\<lambda>_. initsleeplock)) (bufs s) ! i = zero_buf" if "i < NBUF" for i
    using assms(1) that by (simp add: zero_buf_def)
  have "\<not> bkey zero_buf k" "buf_ok md n zero_buf" for k md n
    by (simp_all add: bkey_def zero_buf_def buf_ok_def initsleeplock_def)
  with nth assms show ?thesis
    by (auto simp: binit_def bio_inv_def held_def dirty_def fun_eq_iff myproc_def view_def cached_def
        find_None_iff atLeast0LessThan split: option.split dest: cached_SomeD find_SomeD)
qed

definition boot_bio :: "(nat \<Rightarrow> bytes) \<Rightarrow> nat \<Rightarrow> 'x \<Rightarrow> 'x kbio_scheme" where
  "boot_bio md n x = \<lparr>mem = (\<lambda>_. 0), freelist = 0, use_lock = True, kend = 0x80200000, ptable = [first_proc],
     curproc = 0, initproc = 0, nextpid = 2, bufs = replicate NBUF zero_buf, lru = rev [0..<NBUF],
     memdisk = md, disksize = n, dhist = [], \<dots> = x\<rparr>"

lemma boot_bio_inv:
  assumes "\<And>k. length (md k) = BSIZE"
  shows "bio_inv (boot_bio md n x)" "held (boot_bio md n x) = {}" "Collect (dirty (boot_bio md n x)) = {}"
    "view (boot_bio md n x) = md"
proof -
  have "binit (boot_bio md n x) = Inr ((), boot_bio md n x)"
    by (simp add: binit_def boot_bio_def zero_buf_def)
  then show "bio_inv (boot_bio md n x)" "held (boot_bio md n x) = {}" "Collect (dirty (boot_bio md n x)) = {}"
      "view (boot_bio md n x) = md"
    using binit_establishes[of "boot_bio md n x"] assms
    by (auto simp: boot_bio_def myproc_def first_proc_def)
qed

text \<open>
  C9. Coherence of the buffer cache. A caller that reads a block, overwrites the buffer, calls
  \<open>bwrite\<close> and releases it neither panics nor sleeps; the disk holds the new contents in that block
  and is unchanged elsewhere, exactly one disk write has happened, the caller holds what it held
  before, and whatever block any later \<open>bread\<close> returns has the new contents for this block and the old
  contents for every other one.
\<close>

theorem bio_coherent:
  assumes "bio_inv s" "bread 1 k s = Inr (i, s1)" "length d = BSIZE"
  shows "\<exists>s2. sq (bset i d) (sq (bwrite i) (brelse i)) s1 = Inr ((), s2) \<and> bio_inv s2 \<and> held s2 = held s
    \<and> memdisk s2 = (memdisk s)(k := d) \<and> dhist s2 = dhist s @ [(k, d)]
    \<and> (\<forall>m j s3. bread 1 m s2 = Inr (j, s3) \<longrightarrow> b_data (bufs s3 ! j) = (if m = k then d else view s m))"
proof -
  have r: "bio_inv s1" "quiet s s1" "holds s1 i k" "held s1 = insert k (held s)" "k \<notin> held s"
    using bread_spec[OF assms(1,2)] bread_held[OF assms(1,2)] by auto
  obtain t where t: "bset i d s1 = Inr ((), t)" "bio_inv t" "holds t i k" "held t = held s1"
      "view t = (view s1)(k := d)" "memdisk t = memdisk s1" "dhist t = dhist s1"
    using bset_spec[OF r(1,3) assms(3)] by blast
  obtain u where u: "bwrite i t = Inr ((), u)" "bio_inv u" "holds u i k" "held u = held t" "settled u i"
      "view u = view t" "memdisk u = (memdisk t)(k := view t k)" "dhist u = dhist t @ [(k, view t k)]"
    using bwrite_spec[OF t(2,3)] by blast
  obtain v where v: "brelse i u = Inr ((), v)" "bio_inv v" "quiet u v" "held v = held u - {k}"
    using brelse_spec[OF u(2,3,5)] by blast
  have "view v = (view s)(k := d)" using r t u v by (simp add: quiet_def)
  then have "b_data (bufs s3 ! j) = (if m = k then d else view s m)" if "bread 1 m v = Inr (j, s3)" for m j s3
    using bread_spec[OF v(2) that] by simp
  with r t u v show ?thesis by (auto simp: quiet_def)
qed

theorem bio_coherent_witness:
  "\<exists>i s1 s2. bread 1 5 (boot_bio (\<lambda>_. replicate BSIZE 0) 10 ()) = Inr (i, s1)
     \<and> sq (bset i (replicate BSIZE 7)) (sq (bwrite i) (brelse i)) s1 = Inr ((), s2)
     \<and> memdisk s2 5 = replicate BSIZE 7 \<and> memdisk s2 6 = replicate BSIZE 0 \<and> held s2 = {}"
proof -
  let ?s = "boot_bio (\<lambda>_. replicate BSIZE 0) 10 ()"
  have inv: "bio_inv ?s" "held ?s = {}" "Collect (dirty ?s) = {}"
    using boot_bio_inv[of "\<lambda>_. replicate BSIZE 0" 10] by simp_all
  have "5 < disksize ?s" by (simp add: boot_bio_def)
  moreover have "card (held ?s \<union> Collect (dirty ?s)) < NBUF" unfolding inv(2,3) by (simp add: NBUF_def)
  ultimately obtain i s1 where r: "bread 1 5 ?s = Inr (i, s1)"
    using bread_total[OF inv(1), of 5] inv(2) by auto
  from bio_coherent[OF inv(1) r, of "replicate BSIZE 7"] r inv(2) show ?thesis
    by (auto simp: boot_bio_def)
qed

end
