(* ===== verification/Log.thy ===== *)
theory Log
  imports Bio
begin

text \<open>
  The write-ahead log of \<^verbatim>\<open>kernel/log.c\<close>, with \<open>readsb\<close> of \<^verbatim>\<open>kernel/fs.c\<close>. The on-disk header is
  read and written byte by byte as the code does through \<open>struct logheader\<close>. The theorems are about
  crashes: the machine may stop between any two block writes, and recovery at the next boot, itself
  interrupted any number of times, leaves every block outside the log as it was before the
  transaction, or every block as after it.
\<close>

definition LOGSIZE :: nat where "LOGSIZE = 30"
definition MAXOPBLOCKS :: int where "MAXOPBLOCKS = 10"
definition ROOTDEV :: nat where "ROOTDEV = 1"

record superblock =
  sb_size :: nat
  sb_nblocks :: nat
  sb_ninodes :: nat
  sb_nlog :: nat
  sb_logstart :: nat
  sb_inodestart :: nat
  sb_bmapstart :: nat

record log_state =
  lg_start :: nat
  lg_size :: nat
  lg_outstanding :: int
  lg_committing :: bool
  lg_dev :: nat
  lg_n :: int
  lg_block :: "nat list"

record klog = kbio +
  log :: log_state

definition upd_log :: "(log_state \<Rightarrow> log_state) \<Rightarrow> 'x klog_scheme \<Rightarrow> 'x klog_scheme" where
  "upd_log f s = s\<lparr>log := f (log s)\<rparr>"

definition word_at :: "bytes \<Rightarrow> nat \<Rightarrow> nat" where
  "word_at d k = unat (get32 d k)"

definition sb_of :: "bytes \<Rightarrow> superblock" where
  "sb_of d = \<lparr>sb_size = word_at d 0, sb_nblocks = word_at d 4, sb_ninodes = word_at d 8, sb_nlog = word_at d 12,
     sb_logstart = word_at d 16, sb_inodestart = word_at d 20, sb_bmapstart = word_at d 24\<rparr>"

definition readsb :: "nat \<Rightarrow> ('x kbio_scheme, superblock) kmon" where
  "readsb dev = bnd (bread dev 1) (\<lambda>bp. bnd (bdata bp) (\<lambda>d. sq (brelse bp) (ret (sb_of d))))"

definition install_block :: "nat \<Rightarrow> ('x klog_scheme, unit) kmon" where
  "install_block tail = bnd (rd log) (\<lambda>l.
     bnd (bread (lg_dev l) (lg_start l + tail + 1)) (\<lambda>lbuf.
     bnd (bread (lg_dev l) (lg_block l ! tail)) (\<lambda>dbuf.
     bnd (bdata lbuf) (\<lambda>d. sq (bset dbuf d) (sq (bwrite dbuf) (sq (brelse lbuf) (brelse dbuf)))))))"

definition install_trans :: "('x klog_scheme, unit) kmon" where
  "install_trans = bnd (rd (\<lambda>s. lg_n (log s))) (\<lambda>n. for_all [0..<nat n] install_block)"

text \<open>\<open>struct logheader\<close> in a block: the count, then the block numbers.\<close>

definition head_n :: "bytes \<Rightarrow> int" where
  "head_n d = sint (get32 d 0)"

definition head_block :: "bytes \<Rightarrow> nat \<Rightarrow> nat" where
  "head_block d i = word_at d (4 + 4 * i)"

definition put_head :: "int \<Rightarrow> nat list \<Rightarrow> bytes \<Rightarrow> bytes" where
  "put_head n blocks d =
     fold (\<lambda>i d. put32 d (4 + 4 * i) (of_nat (blocks ! i))) [0..<nat n] (put32 d 0 (of_int n))"

definition read_head :: "('x klog_scheme, unit) kmon" where
  "read_head = bnd (rd log) (\<lambda>l. bnd (bread (lg_dev l) (lg_start l)) (\<lambda>b. bnd (bdata b) (\<lambda>d.
     sq (upd (upd_log (\<lambda>l. l\<lparr>lg_n := head_n d\<rparr>)))
     (sq (for_all [0..<nat (head_n d)] (\<lambda>i.
            upd (upd_log (\<lambda>l. l\<lparr>lg_block := (lg_block l)[i := head_block d i]\<rparr>))))
         (brelse b)))))"

definition write_head :: "('x klog_scheme, unit) kmon" where
  "write_head = bnd (rd log) (\<lambda>l. bnd (bread (lg_dev l) (lg_start l)) (\<lambda>b. bnd (bdata b) (\<lambda>d.
     sq (bset b (put_head (lg_n l) (lg_block l) d)) (sq (bwrite b) (brelse b)))))"

definition recover_from_log :: "('x klog_scheme, unit) kmon" where
  "recover_from_log = sq read_head (sq install_trans
     (sq (upd (upd_log (\<lambda>l. l\<lparr>lg_n := 0\<rparr>))) write_head))"

definition initlog :: "nat \<Rightarrow> ('x klog_scheme, unit) kmon" where
  "initlog dev = (if 4 + 4 * LOGSIZE \<ge> BSIZE then panic ''initlog: too big logheader'' else
     bnd (readsb dev) (\<lambda>sb.
       sq (upd (upd_log (\<lambda>l. l\<lparr>lg_start := sb_logstart sb, lg_size := sb_nlog sb, lg_dev := dev\<rparr>)))
          recover_from_log))"

definition begin_op :: "('x klog_scheme, unit) kmon" where
  "begin_op = bnd (rd log) (\<lambda>l.
     if lg_committing l then sleep ChLog
     else if lg_n l + (lg_outstanding l + 1) * MAXOPBLOCKS > int LOGSIZE then sleep ChLog
     else upd (upd_log (\<lambda>l. l\<lparr>lg_outstanding := lg_outstanding l + 1\<rparr>)))"

definition write_log_block :: "nat \<Rightarrow> ('x klog_scheme, unit) kmon" where
  "write_log_block tail = bnd (rd log) (\<lambda>l.
     bnd (bread (lg_dev l) (lg_start l + tail + 1)) (\<lambda>to.
     bnd (bread (lg_dev l) (lg_block l ! tail)) (\<lambda>from.
     bnd (bdata from) (\<lambda>d. sq (bset to d) (sq (bwrite to) (sq (brelse from) (brelse to)))))))"

definition write_log :: "('x klog_scheme, unit) kmon" where
  "write_log = bnd (rd (\<lambda>s. lg_n (log s))) (\<lambda>n. for_all [0..<nat n] write_log_block)"

definition commit :: "('x klog_scheme, unit) kmon" where
  "commit = bnd (rd (\<lambda>s. lg_n (log s))) (\<lambda>n. whenk (n > 0)
     (sq write_log (sq write_head (sq install_trans
       (sq (upd (upd_log (\<lambda>l. l\<lparr>lg_n := 0\<rparr>))) write_head)))))"

definition end_op :: "('x klog_scheme, unit) kmon" where
  "end_op = sq (upd (upd_log (\<lambda>l. l\<lparr>lg_outstanding := lg_outstanding l - 1\<rparr>)))
     (bnd (rd log) (\<lambda>l.
        if lg_committing l then panic ''log.committing''
        else if lg_outstanding l = 0
        then sq (upd (upd_log (\<lambda>l. l\<lparr>lg_committing := True\<rparr>)))
             (sq commit (sq (upd (upd_log (\<lambda>l. l\<lparr>lg_committing := False\<rparr>))) (wakeup ChLog)))
        else wakeup ChLog))"

text \<open>The position at which \<open>log_write\<close> records the block: its first occurrence, or the end.\<close>

definition log_slot :: "log_state \<Rightarrow> nat \<Rightarrow> nat" where
  "log_slot l b = (case find (\<lambda>i. lg_block l ! i = b) [0..<nat (lg_n l)] of Some i \<Rightarrow> i | None \<Rightarrow> nat (lg_n l))"

definition log_write :: "nat \<Rightarrow> ('x klog_scheme, unit) kmon" where
  "log_write b = bnd (rd log) (\<lambda>l.
     if lg_n l \<ge> int LOGSIZE \<or> lg_n l \<ge> int (lg_size l) - 1 then panic ''too big a transaction''
     else if lg_outstanding l < 1 then panic ''log_write outside of trans''
     else bnd (rd (\<lambda>s. b_blockno (bufs s ! b))) (\<lambda>blockno.
       let i = log_slot l blockno in
       sq (upd (upd_log (\<lambda>l. l\<lparr>lg_block := (lg_block l)[i := blockno]\<rparr>)))
       (sq (whenk (int i = lg_n l) (upd (upd_log (\<lambda>l. l\<lparr>lg_n := lg_n l + 1\<rparr>))))
           (upd (upd_buf b (\<lambda>b. b\<lparr>b_dirty := True\<rparr>))))))"

subsection \<open>Frames\<close>

lemma more_log:
  fixes s s' :: "'x klog_scheme"
  assumes "kbio.more s' = kbio.more s"
  shows "log s' = log s" "klog.more s' = klog.more s"
  using assms by (cases s; cases s'; simp)+

lemma bio_step_log: "bio_step s s' \<Longrightarrow> log s' = log s"
  by (rule more_log) (simp add: bio_step_def)

lemma bio_step_disksize: "bio_step s s' \<Longrightarrow> disksize s' = disksize s"
  by (simp add: bio_step_def)

lemma upd_log_simps [simp]:
  "bufs (upd_log f s) = bufs s" "lru (upd_log f s) = lru s" "memdisk (upd_log f s) = memdisk s"
  "disksize (upd_log f s) = disksize s" "dhist (upd_log f s) = dhist s" "ptable (upd_log f s) = ptable s"
  "curproc (upd_log f s) = curproc s" "myproc (upd_log f s) = myproc s" "log (upd_log f s) = f (log s)"
  "klog.more (upd_log f s) = klog.more s"
  by (simp_all add: upd_log_def myproc_def)

lemma upd_log_abs [simp]:
  "bio_inv (upd_log f s) = bio_inv s" "view (upd_log f s) = view s" "dirty (upd_log f s) = dirty s"
  "held (upd_log f s) = held s" "holds (upd_log f s) = holds s" "settled (upd_log f s) = settled s"
  by (simp_all add: fun_eq_iff bio_inv_def view_def cached_def dirty_def held_def holds_def buf_lock_def
      settled_def cong: option.case_cong)

text \<open>What a step of the log leaves alone above and below it.\<close>

definition log_step :: "'x klog_scheme \<Rightarrow> 'x klog_scheme \<Rightarrow> bool" where
  "log_step s s' \<longleftrightarrow> keep_proc s s' \<and> disksize s' = disksize s \<and> klog.more s' = klog.more s"

lemma log_step_refl [simp]: "log_step s s"
  by (simp add: log_step_def)

lemma log_step_trans [trans]: "log_step s t \<Longrightarrow> log_step t u \<Longrightarrow> log_step s u"
  by (auto simp: log_step_def intro: keep_proc_trans)

lemma bio_log_step: "bio_step s s' \<Longrightarrow> log_step s s'"
  using more_log(2)[of s' s] by (simp add: bio_step_def log_step_def)

lemma log_step_upd_log [simp]: "log_step s (upd_log f s)"
  by (simp add: log_step_def upd_log_def keep_proc_def list_all2_refl)

subsection \<open>Disk writes and crashes\<close>

type_synonym disk = "nat \<Rightarrow> bytes"

definition apply_writes :: "(nat \<times> bytes) list \<Rightarrow> disk \<Rightarrow> disk" where
  "apply_writes ws d = fold (\<lambda>(k, b) d. d(k := b)) ws d"

definition wrote :: "'x kbio_scheme \<Rightarrow> (nat \<times> bytes) list \<Rightarrow> 'x kbio_scheme \<Rightarrow> bool" where
  "wrote s ws s' \<longleftrightarrow> dhist s' = dhist s @ ws \<and> memdisk s' = apply_writes ws (memdisk s)"

lemma apply_writes_simps [simp]:
  "apply_writes [] d = d" "apply_writes (w # ws) d = apply_writes ws (d(fst w := snd w))"
  "apply_writes (ws @ ws') d = apply_writes ws' (apply_writes ws d)"
  by (simp_all add: apply_writes_def split: prod.split)

lemma wrote_trans: "wrote s a t \<Longrightarrow> wrote t b u \<Longrightarrow> wrote s (a @ b) u"
  by (simp add: wrote_def)

lemma wrote_none: "dhist s' = dhist s \<Longrightarrow> memdisk s' = memdisk s \<Longrightarrow> wrote s [] s'"
  by (simp add: wrote_def)

lemma wrote_upd_log [simp]:
  "wrote (upd_log f s) ws s' = wrote s ws s'" "wrote s ws (upd_log f s') = wrote s ws s'"
  by (simp_all add: wrote_def)

lemma apply_writes_other: "k \<notin> fst ` set ws \<Longrightarrow> apply_writes ws d k = d k"
  by (induction ws arbitrary: d) auto

lemma apply_writes_map:
  assumes "distinct (map f is)" "i \<in> set is"
  shows "apply_writes (map (\<lambda>i. (f i, g i)) is) d (f i) = g i"
  using assms
proof (induction "is" arbitrary: d)
  case (Cons j "is")
  show ?case
  proof (cases "i = j")
    case True
    with Cons.prems show ?thesis by (simp add: apply_writes_other image_image)
  next
    case False
    with Cons show ?thesis by simp
  qed
qed simp

lemma clean_view:
  assumes "bio_inv s" "\<not> dirty s k" "k \<notin> held s"
  shows "view s k = memdisk s k"
proof (cases "cached s k")
  case (Some i)
  then have i: "i < NBUF" "bkey (bufs s ! i) k" by (auto dest: cached_SomeD)
  with assms bio_invD(6)[OF assms(1) i(1)] show ?thesis
    by (auto simp: view_def Some buf_ok_def bkey_def dirty_def held_def)
qed (simp add: view_def)

lemma bread_total_dirty:
  assumes inv: "bio_inv s" and "dirty s k" "k \<notin> held s"
  shows "\<exists>i s'. bread 1 k s = Inr (i, s')"
proof -
  obtain v where v: "v < NBUF" "bkey (bufs s ! v) k" using assms(2) by (auto simp: dirty_def)
  then have "\<not> lk_locked (b_lock (bufs s ! v))" using assms(3) by (auto simp: held_def)
  with bread_hit[OF inv cached_Some[OF inv v]] show ?thesis by simp
qed

subsection \<open>Copying a block\<close>

lemma holds_data:
  assumes "bio_inv s" "holds s i k"
  shows "b_data (bufs s ! i) = view s k" "length (view s k) = BSIZE" "k \<in> held s" "i < NBUF"
    "b_blockno (bufs s ! i) = k"
  using assms view_cached[of s i k] length_view[of s k]
  by (auto simp: holds_def held_def buf_lock_def bkey_def)

lemma copy_tail:
  assumes inv: "bio_inv s" and hi: "holds s i a" and hj: "holds s j b" and ab: "a \<noteq> b" and st: "settled s j"
  shows "\<exists>s'. bnd (bdata j) (\<lambda>d. sq (bset i d) (sq (bwrite i) (sq (brelse j) (brelse i)))) s = Inr ((), s')
    \<and> bio_inv s' \<and> bio_step s s' \<and> held s' = held s - {a, b} \<and> view s' = (view s)(a := view s b)
    \<and> dirty s' = (dirty s)(a := False) \<and> wrote s [(a, view s b)] s'"
proof -
  have ij: "j \<noteq> i" using hi hj ab by (auto simp: holds_def bkey_def)
  note d = holds_data[OF inv hj]
  obtain t where t: "bset i (view s b) s = Inr ((), t)" "bio_inv t" "bio_step s t" "holds t i a" "held t = held s"
      "view t = (view s)(a := view s b)" "dirty t = dirty s" "memdisk t = memdisk s" "dhist t = dhist s"
      "others_held s t i"
    using bset_spec[OF inv hi d(2)] by blast
  obtain u where u: "bwrite i t = Inr ((), u)" "bio_inv u" "bio_step t u" "holds u i a" "held u = held t"
      "view u = view t" "dirty u = (dirty t)(a := False)" "memdisk u = (memdisk t)(a := view t a)"
      "dhist u = dhist t @ [(a, view t a)]" "others_held t u i" "settled u i"
    using bwrite_spec[OF t(2,4)] by blast
  have j: "holds u j b" "bufs u ! j = bufs s ! j"
    using t(10) u(10) hj ij unfolding others_held_def by metis+
  have "settled u j" using st j(2) t(8) u(8) holds_data(5)[OF u(2) j(1)] ab by (simp add: settled_def)
  then obtain v where v: "brelse j u = Inr ((), v)" "bio_inv v" "quiet u v" "held v = held u - {b}"
      "others_held u v j"
    using brelse_spec[OF u(2) j(1)] by blast
  have i: "holds v i a" "bufs v ! i = bufs u ! i" using v(5) u(4) ij unfolding others_held_def by metis+
  have "settled v i" using u(11) i(2) v(3) by (simp add: settled_def quiet_def)
  then obtain w where w: "brelse i v = Inr ((), w)" "bio_inv w" "quiet v w" "held w = held v - {a}"
    using brelse_spec[OF v(2) i(1)] by blast
  have "bnd (bdata j) (\<lambda>d. sq (bset i d) (sq (bwrite i) (sq (brelse j) (brelse i)))) s = Inr ((), w)"
    using t(1) u(1) v(1) w(1) d(1) by (simp add: bdata_def)
  moreover have "bio_step s w"
    using t(3) u(3) v(3) w(3) unfolding quiet_def by (meson bio_step_trans)
  moreover have "wrote s [(a, view s b)] w"
    using t u v(3) w(3) by (simp add: wrote_def quiet_def)
  ultimately show ?thesis
    using t u v w by (auto simp: quiet_def)
qed

lemma read_two:
  assumes inv: "bio_inv s" and h: "held s = {}" and "x < disksize s" "y < disksize s" "x \<noteq> y"
    and "card (Collect (dirty s)) < NBUF" "dirty s y \<or> card (insert x (Collect (dirty s))) < NBUF"
  shows "\<exists>i j s1 s2. bread 1 x s = Inr (i, s1) \<and> bread 1 y s1 = Inr (j, s2) \<and> bio_inv s2 \<and> quiet s s2
    \<and> holds s2 i x \<and> holds s2 j y \<and> settled s2 i \<and> settled s2 j \<and> held s2 = {x, y}"
proof -
  obtain i s1 where r: "bread 1 x s = Inr (i, s1)" using bread_total[OF inv assms(3)] h assms(6) by auto
  note a = bread_spec[OF inv r] bread_held[OF inv r]
  then have q: "quiet s s1" and inv1: "bio_inv s1" and h1: "held s1 = {x}" and hx: "holds s1 i x"
    and st: "settled s1 i" using h by auto
  have d1: "dirty s1 = dirty s" "disksize s1 = disksize s" using q by (auto simp: quiet_def bio_step_def)
  have "\<exists>j s2. bread 1 y s1 = Inr (j, s2)"
  proof (cases "dirty s y")
    case True
    then show ?thesis using bread_total_dirty[OF inv1, of y] h1 assms(5) d1 by auto
  next
    case False
    then show ?thesis using bread_total[OF inv1, of y] h1 d1 assms(4,5,7) by auto
  qed
  then obtain j s2 where r2: "bread 1 y s1 = Inr (j, s2)" by blast
  note b = bread_spec[OF inv1 r2] bread_held[OF inv1 r2]
  have ij: "i \<noteq> j" using b hx by (auto simp: holds_def buf_lock_def)
  then have "holds s2 i x" "bufs s2 ! i = bufs s1 ! i" using b hx unfolding others_held_def by metis+
  moreover have "settled s2 i" using calculation st b by (simp add: settled_def quiet_def)
  ultimately show ?thesis using r r2 b q h1 quiet_trans[OF q] by (auto simp: insert_commute)
qed

lemma rewrite_block:
  assumes inv: "bio_inv s" and h: "held s = {}" and "k < disksize s" "card (Collect (dirty s)) < NBUF"
    and len: "length (f (view s k)) = BSIZE"
  shows "\<exists>s'. bnd (bread 1 k) (\<lambda>b. bnd (bdata b) (\<lambda>d. sq (bset b (f d)) (sq (bwrite b) (brelse b)))) s
      = Inr ((), s') \<and> bio_inv s' \<and> bio_step s s' \<and> held s' = {} \<and> view s' = (view s)(k := f (view s k))
    \<and> dirty s' = (dirty s)(k := False) \<and> wrote s [(k, f (view s k))] s'"
proof -
  obtain i s1 where r: "bread 1 k s = Inr (i, s1)" using bread_total[OF inv assms(3)] h assms(4) by auto
  have a: "bio_inv s1" "quiet s s1" "holds s1 i k" "held s1 = {k}"
    using bread_spec[OF inv r] bread_held[OF inv r] h by auto
  have v: "view s1 = view s" "b_data (bufs s1 ! i) = view s k" using a holds_data[OF a(1,3)] by (auto simp: quiet_def)
  obtain t where t: "bset i (f (view s k)) s1 = Inr ((), t)" "bio_inv t" "bio_step s1 t" "holds t i k"
      "held t = held s1" "view t = (view s1)(k := f (view s k))" "dirty t = dirty s1" "memdisk t = memdisk s1"
      "dhist t = dhist s1"
    using bset_spec[OF a(1,3) len] by blast
  obtain u where u: "bwrite i t = Inr ((), u)" "bio_inv u" "bio_step t u" "holds u i k" "held u = held t"
      "view u = view t" "dirty u = (dirty t)(k := False)" "memdisk u = (memdisk t)(k := view t k)"
      "dhist u = dhist t @ [(k, view t k)]" "settled u i"
    using bwrite_spec[OF t(2,4)] by blast
  obtain w where w: "brelse i u = Inr ((), w)" "bio_inv w" "quiet u w" "held w = held u - {k}"
    using brelse_spec[OF u(2,4,10)] by blast
  have "bio_step s w" using a(2) t(3) u(3) w(3) unfolding quiet_def by (meson bio_step_trans)
  then show ?thesis
    using r v a t u w by (auto simp: bdata_def quiet_def wrote_def)
qed

subsection \<open>Geometry of the log\<close>

definition logged :: "log_state \<Rightarrow> nat list" where
  "logged l = take (nat (lg_n l)) (lg_block l)"

definition log_area :: "log_state \<Rightarrow> nat set" where
  "log_area l = {lg_start l..<lg_start l + lg_size l}"

definition log_geom :: "'x klog_scheme \<Rightarrow> bool" where
  "log_geom s \<longleftrightarrow> lg_dev (log s) = 1 \<and> 0 \<le> lg_n (log s) \<and> lg_n (log s) < int (lg_size (log s))
     \<and> lg_size (log s) \<le> LOGSIZE \<and> length (lg_block (log s)) = LOGSIZE
     \<and> lg_start (log s) + lg_size (log s) \<le> disksize s \<and> disksize s < 2 ^ 31
     \<and> set (logged (log s)) \<subseteq> {..<disksize s} - log_area (log s)"

lemma log_geomD:
  assumes "log_geom s"
  shows "lg_dev (log s) = 1" "nat (lg_n (log s)) < lg_size (log s)" "nat (lg_n (log s)) < LOGSIZE"
    "length (lg_block (log s)) = LOGSIZE" "lg_start (log s) < disksize s"
    "length (logged (log s)) = nat (lg_n (log s))" "lg_start (log s) \<in> log_area (log s)"
    "i < nat (lg_n (log s)) \<Longrightarrow> logged (log s) ! i = lg_block (log s) ! i"
    "i < nat (lg_n (log s)) \<Longrightarrow> lg_start (log s) + i + 1 \<in> log_area (log s)"
    "i < nat (lg_n (log s)) \<Longrightarrow> lg_start (log s) + i + 1 < disksize s"
    "k \<in> set (logged (log s)) \<Longrightarrow> k < disksize s \<and> k \<notin> log_area (log s)"
    "0 \<le> lg_n (log s)" "lg_n (log s) < 30" "nat (lg_n (log s)) < 30"
  using assms by (auto simp: log_geom_def log_area_def logged_def LOGSIZE_def)

lemma log_geom_step:
  "bio_step s s' \<Longrightarrow> log_geom s' = log_geom s"
  using bio_step_log[of s s'] bio_step_disksize[of s s'] by (simp add: log_geom_def)

definition log_writes :: "log_state \<Rightarrow> disk \<Rightarrow> nat \<Rightarrow> (nat \<times> bytes) list" where
  "log_writes l v k = map (\<lambda>i. (lg_start l + i + 1, v (lg_block l ! i))) [0..<k]"

definition home_writes :: "log_state \<Rightarrow> disk \<Rightarrow> nat \<Rightarrow> (nat \<times> bytes) list" where
  "home_writes l v k = map (\<lambda>i. (lg_block l ! i, v (lg_start l + i + 1))) [0..<k]"

lemma copy_to_first:
  assumes "bio_inv s" "held s = {}" "x < disksize s" "y < disksize s" "x \<noteq> y"
    "card (Collect (dirty s)) < NBUF" "dirty s y \<or> card (insert x (Collect (dirty s))) < NBUF"
  shows "\<exists>s'. bnd (bread 1 x) (\<lambda>to. bnd (bread 1 y) (\<lambda>from. bnd (bdata from) (\<lambda>d.
      sq (bset to d) (sq (bwrite to) (sq (brelse from) (brelse to)))))) s = Inr ((), s')
    \<and> bio_inv s' \<and> bio_step s s' \<and> held s' = {} \<and> view s' = (view s)(x := view s y)
    \<and> dirty s' = (dirty s)(x := False) \<and> wrote s [(x, view s y)] s'"
proof -
  obtain i j s1 s2 where r: "bread 1 x s = Inr (i, s1)" "bread 1 y s1 = Inr (j, s2)" "bio_inv s2" "quiet s s2"
      "holds s2 i x" "holds s2 j y" "settled s2 i" "settled s2 j" "held s2 = {x, y}"
    using read_two[OF assms] by auto
  obtain u where u: "bnd (bdata j) (\<lambda>d. sq (bset i d) (sq (bwrite i) (sq (brelse j) (brelse i)))) s2 = Inr ((), u)"
      "bio_inv u" "bio_step s2 u" "held u = held s2 - {x, y}" "view u = (view s2)(x := view s2 y)"
      "dirty u = (dirty s2)(x := False)" "wrote s2 [(x, view s2 y)] u"
    using copy_tail[OF r(3,5,6) assms(5) r(8)] by blast
  have "bio_step s u" using r(4) u(3) unfolding quiet_def by (meson bio_step_trans)
  moreover have "wrote s [(x, view s y)] u" using u(7) r(4) by (simp add: quiet_def wrote_def)
  ultimately show ?thesis using r u by (simp add: quiet_def)
qed

lemma copy_to_second:
  assumes "bio_inv s" "held s = {}" "x < disksize s" "y < disksize s" "x \<noteq> y"
    "card (Collect (dirty s)) < NBUF" "dirty s y \<or> card (insert x (Collect (dirty s))) < NBUF"
  shows "\<exists>s'. bnd (bread 1 x) (\<lambda>lbuf. bnd (bread 1 y) (\<lambda>dbuf. bnd (bdata lbuf) (\<lambda>d.
      sq (bset dbuf d) (sq (bwrite dbuf) (sq (brelse lbuf) (brelse dbuf)))))) s = Inr ((), s')
    \<and> bio_inv s' \<and> bio_step s s' \<and> held s' = {} \<and> view s' = (view s)(y := view s x)
    \<and> dirty s' = (dirty s)(y := False) \<and> wrote s [(y, view s x)] s'"
proof -
  obtain i j s1 s2 where r: "bread 1 x s = Inr (i, s1)" "bread 1 y s1 = Inr (j, s2)" "bio_inv s2" "quiet s s2"
      "holds s2 i x" "holds s2 j y" "settled s2 i" "settled s2 j" "held s2 = {x, y}"
    using read_two[OF assms] by auto
  obtain u where u: "bnd (bdata i) (\<lambda>d. sq (bset j d) (sq (bwrite j) (sq (brelse i) (brelse j)))) s2 = Inr ((), u)"
      "bio_inv u" "bio_step s2 u" "held u = held s2 - {y, x}" "view u = (view s2)(y := view s2 x)"
      "dirty u = (dirty s2)(y := False)" "wrote s2 [(y, view s2 x)] u"
    using copy_tail[OF r(3,6,5) assms(5)[symmetric] r(7)] by blast
  have "bio_step s u" using r(4) u(3) unfolding quiet_def by (meson bio_step_trans)
  moreover have "wrote s [(y, view s x)] u" using u(7) r(4) by (simp add: quiet_def wrote_def)
  ultimately show ?thesis using r u by (auto simp: quiet_def)
qed

lemma log_writes_home:
  assumes "log_geom s" "k \<le> nat (lg_n (log s))" "y \<notin> log_area (log s)"
  shows "apply_writes (log_writes (log s) v k) d y = d y"
  using assms log_geomD(9)[OF assms(1)]
  by (force simp: log_writes_def intro!: apply_writes_other)

lemma home_writes_log:
  assumes "log_geom s" "k \<le> nat (lg_n (log s))" "x \<notin> set (logged (log s))"
  shows "apply_writes (home_writes (log s) v k) d x = d x"
proof -
  have "lg_block (log s) ! i \<in> set (logged (log s))" if "i < k" for i
    using that assms(2) log_geomD(6,8)[OF assms(1)] by (metis less_le_trans nth_mem)
  with assms(3) show ?thesis by (force simp: home_writes_def intro!: apply_writes_other)
qed

lemma write_log_spec:
  assumes inv: "bio_inv s" "held s = {}" and g: "log_geom s"
    and d: "Collect (dirty s) = set (logged (log s))"
  shows "\<exists>s'. write_log s = Inr ((), s') \<and> bio_inv s' \<and> bio_step s s' \<and> held s' = {} \<and> dirty s' = dirty s
    \<and> wrote s (log_writes (log s) (view s) (nat (lg_n (log s)))) s'
    \<and> view s' = apply_writes (log_writes (log s) (view s) (nat (lg_n (log s)))) (view s)"
proof -
  let ?l = "log s" and ?n = "nat (lg_n (log s))"
  let ?I = "\<lambda>k t. bio_inv t \<and> bio_step s t \<and> held t = {} \<and> dirty t = dirty s
    \<and> wrote s (log_writes ?l (view s) k) t \<and> view t = apply_writes (log_writes ?l (view s) k) (view s)"
  note G = log_geomD[OF g]
  have "card (Collect (dirty s)) \<le> ?n" unfolding d using card_length[of "logged ?l"] G(6) by simp
  then have c: "card (Collect (dirty s)) < NBUF" using G(14) by (simp add: NBUF_def)
  have body: "\<exists>t'. write_log_block k t = Inr ((), t') \<and> ?I (Suc k) t'" if k: "k < ?n" and I: "?I k t" for k t
  proof -
    let ?x = "lg_start ?l + k + 1" and ?y = "lg_block ?l ! k"
    have t: "log t = ?l" "disksize t = disksize s" using I bio_step_log bio_step_disksize by blast+
    have y: "?y \<in> set (logged ?l)" using k G(6) G(8)[OF k] nth_mem[of k "logged ?l"] by simp
    then have y': "?y < disksize s" "?y \<notin> log_area ?l" "dirty t ?y" using G(11) d I by auto
    have xy: "?x \<noteq> ?y" using y'(2) G(9)[OF k] by metis
    have x: "?x < disksize s" by (rule G(10)[OF k])
    have dx: "\<not> dirty s ?x"
    proof
      assume "dirty s ?x"
      then have "?x \<in> set (logged ?l)" unfolding d[symmetric] by simp
      then show False using G(9)[OF k] G(11) by blast
    qed
    have vy: "view t ?y = view s ?y" using I log_writes_home[OF g _ y'(2)] k by simp
    obtain u where u: "bnd (bread 1 ?x) (\<lambda>to. bnd (bread 1 ?y) (\<lambda>from. bnd (bdata from) (\<lambda>d.
        sq (bset to d) (sq (bwrite to) (sq (brelse from) (brelse to)))))) t = Inr ((), u)"
        "bio_inv u" "bio_step t u" "held u = {}" "view u = (view t)(?x := view t ?y)"
        "dirty u = (dirty t)(?x := False)" "wrote t [(?x, view t ?y)] u"
      using copy_to_first[of t ?x ?y] I t xy x y' c by auto
    have "wrote s (log_writes ?l (view s) k @ [(?x, view s ?y)]) u"
      using I u(7) vy wrote_trans by metis
    moreover have "bio_step s u" using I u(3) bio_step_trans by blast
    ultimately have "?I (Suc k) u" using u I dx vy by (simp add: log_writes_def fun_upd_idem)
    moreover have "write_log_block k t = Inr ((), u)" using u(1) t G(1) by (simp add: write_log_block_def)
    ultimately show ?thesis by blast
  qed
  have "?I 0 s" using inv by (simp add: log_writes_def wrote_none)
  moreover have "write_log s = for_all [0..<?n] write_log_block s" by (simp add: write_log_def)
  ultimately show ?thesis using for_all_upt[of ?n ?I write_log_block, OF body] by presburger
qed

lemma install_trans_spec:
  assumes inv: "bio_inv s" "held s = {}" and g: "log_geom s"
    and d: "Collect (dirty s) = {} \<or> distinct (logged (log s)) \<and> Collect (dirty s) = set (logged (log s))"
  shows "\<exists>s'. install_trans s = Inr ((), s') \<and> bio_inv s' \<and> bio_step s s' \<and> held s' = {} \<and> Collect (dirty s') = {}
    \<and> wrote s (home_writes (log s) (view s) (nat (lg_n (log s)))) s'
    \<and> view s' = apply_writes (home_writes (log s) (view s) (nat (lg_n (log s)))) (view s)"
proof -
  let ?l = "log s" and ?n = "nat (lg_n (log s))"
  let ?I = "\<lambda>k t. bio_inv t \<and> bio_step s t \<and> held t = {} \<and> Collect (dirty t) = Collect (dirty s) - set (take k (logged ?l))
    \<and> wrote s (home_writes ?l (view s) k) t \<and> view t = apply_writes (home_writes ?l (view s) k) (view s)"
  note G = log_geomD[OF g]
  have fin: "card (Collect (dirty s)) \<le> ?n \<and> finite (Collect (dirty s))"
    using d card_length[of "logged ?l"] G(6) by (auto simp del: Collect_empty_eq)
  have body: "\<exists>t'. install_block k t = Inr ((), t') \<and> ?I (Suc k) t'" if k: "k < ?n" and I: "?I k t" for k t
  proof -
    let ?x = "lg_start ?l + k + 1" and ?y = "lg_block ?l ! k"
    have t: "log t = ?l" "disksize t = disksize s" using I bio_step_log bio_step_disksize by blast+
    have nth: "logged ?l ! k = ?y" "k < length (logged ?l)" using k G(6) G(8)[OF k] by auto
    then have "?y \<in> set (logged ?l)" by (metis nth_mem)
    then have y': "?y < disksize s" "?y \<notin> log_area ?l" using G(11) by auto
    have xy: "?x \<noteq> ?y" using y'(2) G(9)[OF k] by metis
    have x: "?x < disksize s" by (rule G(10)[OF k])
    have vx: "view t ?x = view s ?x"
      using I home_writes_log[OF g, of k ?x] k G(9)[OF k] G(11)[of ?x] by auto
    have dk: "Collect (dirty t) = {} \<or> dirty t ?y"
    proof (cases "Collect (dirty s) = {}")
      case False
      then have "distinct (logged ?l)" "?y \<in> Collect (dirty s)" using d \<open>?y \<in> set (logged ?l)\<close> by auto
      moreover have "?y \<notin> set (take k (logged ?l))"
        using calculation(1) nth by (metis distinct_take id_take_nth_drop not_distinct_conv_prefix)
      ultimately show ?thesis using I by blast
    qed (use I in auto)
    have "Collect (dirty t) \<subseteq> Collect (dirty s)" using I by blast
    then have c1: "card (Collect (dirty t)) < NBUF"
      using fin G(14) card_mono[of "Collect (dirty s)" "Collect (dirty t)"] by (simp add: NBUF_def)
    have c2: "dirty t ?y \<or> card (insert ?x (Collect (dirty t))) < NBUF"
      using dk by (rule disjE) (simp_all add: NBUF_def del: Collect_empty_eq)
    obtain u where u: "bnd (bread 1 ?x) (\<lambda>lbuf. bnd (bread 1 ?y) (\<lambda>dbuf. bnd (bdata lbuf) (\<lambda>d.
        sq (bset dbuf d) (sq (bwrite dbuf) (sq (brelse lbuf) (brelse dbuf)))))) t = Inr ((), u)"
        "bio_inv u" "bio_step t u" "held u = {}" "view u = (view t)(?y := view t ?x)"
        "dirty u = (dirty t)(?y := False)" "wrote t [(?y, view t ?x)] u"
      using copy_to_second[of t ?x ?y] I t xy x y' c1 c2 by auto
    have "wrote s (home_writes ?l (view s) k @ [(?y, view s ?x)]) u" using I u(7) vx wrote_trans by metis
    moreover have "bio_step s u" using I u(3) bio_step_trans by blast
    moreover have "Collect (dirty u) = Collect (dirty t) - {?y}" unfolding u(6) by (auto split: if_splits)
    then have "Collect (dirty u) = Collect (dirty s) - set (take (Suc k) (logged ?l))"
      using I nth by (simp add: take_Suc_conv_app_nth) blast
    ultimately have "?I (Suc k) u" using u I vx by (simp add: home_writes_def)
    moreover have "install_block k t = Inr ((), u)" using u(1) t G(1) by (simp add: install_block_def)
    ultimately show ?thesis by blast
  qed
  have "?I 0 s" using inv by (simp add: home_writes_def wrote_none)
  from for_all_upt[of ?n ?I install_block, OF body this] obtain s' where "for_all [0..<?n] install_block s = Inr ((), s')" "?I ?n s'"
    by blast
  moreover have "Collect (dirty s) - set (take ?n (logged ?l)) = {}" using d by (auto simp: logged_def)
  ultimately show ?thesis by (auto simp: install_trans_def)
qed

subsection \<open>The header block\<close>

lemma put_head_fold:
  fixes blocks :: "nat list"
  assumes "length d = BSIZE" "m \<le> LOGSIZE"
  defines "p \<equiv> fold (\<lambda>i d. put32 d (4 + 4 * i) (of_nat (blocks ! i))) [0..<m] d"
  shows "length p = BSIZE \<and> get32 p 0 = get32 d 0 \<and> (\<forall>i < m. get32 p (4 + 4 * i) = of_nat (blocks ! i))"
  using assms(2) unfolding p_def
proof (induction m)
  case (Suc m)
  then show ?case
    by (auto simp: BSIZE_def LOGSIZE_def less_Suc_eq le_access)
qed (simp add: assms(1))

lemma put_head_get:
  assumes "length d = BSIZE" "nat n \<le> LOGSIZE"
  shows "length (put_head n blocks d) = BSIZE" "get32 (put_head n blocks d) 0 = of_int n"
    "i < nat n \<Longrightarrow> get32 (put_head n blocks d) (4 + 4 * i) = of_nat (blocks ! i)"
  using put_head_fold[of "put32 d 0 (of_int n)" "nat n" blocks] assms
  by (simp_all add: put_head_def BSIZE_def get32_put32)

lemma head_put_head:
  assumes "length d = BSIZE" "0 \<le> n" "n \<le> int LOGSIZE"
  shows "head_n (put_head n blocks d) = n"
    "i < nat n \<Longrightarrow> blocks ! i < 2 ^ 32 \<Longrightarrow> head_block (put_head n blocks d) i = blocks ! i"
proof -
  have "signed_take_bit 31 n = n"
    using assms(2,3) by (intro signed_take_bit_int_eq_self) (simp_all add: LOGSIZE_def)
  then show "head_n (put_head n blocks d) = n"
    using put_head_get(2)[OF assms(1), of n blocks] assms(2,3)
    by (simp add: head_n_def sint_sbintrunc' One_nat_def)
  assume "i < nat n" "blocks ! i < 2 ^ 32"
  then show "head_block (put_head n blocks d) i = blocks ! i"
    using put_head_get(3)[OF assms(1), of n i blocks] assms(2,3)
    by (simp add: head_block_def word_at_def unat_of_nat take_bit_nat_eq_self)
qed

lemma write_head_spec:
  assumes inv: "bio_inv s" "held s = {}" and l: "lg_dev (log s) = 1" "lg_start (log s) < disksize s"
    "lg_n (log s) \<le> int LOGSIZE"
    and d: "\<not> dirty s (lg_start (log s))" "card (Collect (dirty s)) < NBUF"
  defines "h \<equiv> put_head (lg_n (log s)) (lg_block (log s)) (view s (lg_start (log s)))"
  shows "\<exists>s'. write_head s = Inr ((), s') \<and> bio_inv s' \<and> bio_step s s' \<and> held s' = {} \<and> dirty s' = dirty s
    \<and> view s' = (view s)(lg_start (log s) := h) \<and> wrote s [(lg_start (log s), h)] s'"
proof -
  have "length h = BSIZE"
    unfolding h_def using put_head_get(1)[OF length_view[OF inv(1)]] l(3) by simp
  then obtain s' where "write_head s = Inr ((), s')" "bio_inv s'" "bio_step s s'" "held s' = {}"
      "view s' = (view s)(lg_start (log s) := h)" "dirty s' = (dirty s)(lg_start (log s) := False)"
      "wrote s [(lg_start (log s), h)] s'"
    using rewrite_block[OF inv l(2) d(2), of "put_head (lg_n (log s)) (lg_block (log s))"]
    unfolding h_def by (auto simp: write_head_def l(1))
  then show ?thesis using d(1) by (auto simp: fun_upd_idem)
qed

lemma upd_blocks:
  "for_all [0..<m] (\<lambda>i. upd (upd_log (\<lambda>l. l\<lparr>lg_block := (lg_block l)[i := b i]\<rparr>))) s
   = Inr ((), upd_log (\<lambda>l. l\<lparr>lg_block := fold (\<lambda>i bs. bs[i := b i]) [0..<m] (lg_block l)\<rparr>) s)"
proof -
  have "for_all is (\<lambda>i. upd (upd_log (\<lambda>l. l\<lparr>lg_block := (lg_block l)[i := b i]\<rparr>))) s
     = Inr ((), upd_log (\<lambda>l. l\<lparr>lg_block := fold (\<lambda>i bs. bs[i := b i]) is (lg_block l)\<rparr>) s)" for "is"
    by (induction "is" arbitrary: s) (simp_all add: upd_log_def)
  then show ?thesis .
qed

lemma fold_blocks:
  assumes "m \<le> length bs"
  shows "length (fold (\<lambda>i bs. bs[i := b i]) [0..<m] bs) = length bs \<and>
    (\<forall>i < m. fold (\<lambda>i bs. bs[i := b i]) [0..<m] bs ! i = b i)"
  using assms by (induction m) (auto simp: nth_list_update less_Suc_eq)

lemma read_block:
  assumes inv: "bio_inv s" and h: "held s = {}" and "k < disksize s" "card (Collect (dirty s)) < NBUF"
  shows "\<exists>b s1. bread 1 k s = Inr (b, s1) \<and> b_data (bufs s1 ! b) = view s k \<and> bio_inv s1 \<and> quiet s s1
    \<and> holds s1 b k \<and> settled s1 b \<and> held s1 = {k}"
proof -
  obtain i s1 where r: "bread 1 k s = Inr (i, s1)" using bread_total[OF inv assms(3)] h assms(4) by auto
  with bread_spec[OF inv r] bread_held[OF inv r] h show ?thesis by auto
qed

definition read_log :: "bytes \<Rightarrow> log_state \<Rightarrow> log_state" where
  "read_log d l = l\<lparr>lg_n := head_n d,
     lg_block := fold (\<lambda>i bs. bs[i := head_block d i]) [0..<nat (head_n d)] (lg_block l)\<rparr>"

lemma quiet_upd_log:
  assumes "quiet (upd_log f s) s'"
  shows "log s' = f (log s)" "view s' = view s" "dirty s' = dirty s" "memdisk s' = memdisk s" "dhist s' = dhist s"
    "disksize s' = disksize s" "log_step s s'"
  using assms bio_step_log[of "upd_log f s" s'] log_step_trans[OF log_step_upd_log bio_log_step, of f s s']
  by (auto simp: quiet_def bio_step_def)

lemma quiet_log:
  assumes "quiet s s'"
  shows "log s' = log s" "view s' = view s" "dirty s' = dirty s" "memdisk s' = memdisk s" "dhist s' = dhist s"
    "disksize s' = disksize s" "log_step s s'"
  using assms bio_step_log[of s s'] bio_log_step[of s s'] by (auto simp: quiet_def bio_step_def)

lemma read_head_spec:
  assumes inv: "bio_inv s" "held s = {}" and l: "lg_dev (log s) = 1" "lg_start (log s) < disksize s"
    and d: "card (Collect (dirty s)) < NBUF"
  shows "\<exists>s'. read_head s = Inr ((), s') \<and> bio_inv s' \<and> log_step s s' \<and> held s' = {} \<and> dirty s' = dirty s
    \<and> view s' = view s \<and> wrote s [] s' \<and> log s' = read_log (view s (lg_start (log s))) (log s)"
proof -
  let ?k = "lg_start (log s)"
  obtain b s1 where r: "bread 1 ?k s = Inr (b, s1)" "b_data (bufs s1 ! b) = view s ?k" "bio_inv s1" "quiet s s1"
      "holds s1 b ?k" "settled s1 b" "held s1 = {?k}"
    using read_block[OF inv l(2) d] by blast
  note q = quiet_log[OF r(4)]
  let ?t = "upd_log (read_log (view s ?k)) s1"
  obtain u where u: "brelse b ?t = Inr ((), u)" "bio_inv u" "quiet ?t u" "held u = held ?t - {?k}"
    using brelse_spec[of ?t b ?k] r by auto
  have "upd_log (\<lambda>l. l\<lparr>lg_block := fold (\<lambda>i bs. bs[i := head_block d i]) [0..<nat (head_n d)] (lg_block l)\<rparr>)
      (upd_log (\<lambda>l. l\<lparr>lg_n := head_n d\<rparr>) s1) = upd_log (read_log d) s1" for d
    by (simp add: upd_log_def read_log_def)
  then have "read_head s = Inr ((), u)"
    using r(1,2) u(1) l(1) by (simp add: read_head_def bdata_def upd_blocks)
  moreover have "log_step s u"
    using q(7) quiet_upd_log(7)[OF u(3)] by (rule log_step_trans)
  ultimately show ?thesis
    using u quiet_upd_log[OF u(3)] q r(7) by (simp add: wrote_def)
qed

end
