(* ===== verification/Crash.thy ===== *)
theory Crash
  imports Log
begin

text \<open>
  Crash safety of \<^verbatim>\<open>kernel/log.c\<close>. The machine may stop between any two block writes of \<open>commit\<close> or
  of recovery; what the disk then holds is a prefix of the writes in \<open>dhist\<close>. A block write itself is
  taken to be atomic.
\<close>

subsection \<open>Recovery as a function on disks\<close>

definition log_disk :: "nat \<Rightarrow> nat \<Rightarrow> nat \<Rightarrow> disk \<Rightarrow> bool" where
  "log_disk st sz n d \<longleftrightarrow> 0 \<le> head_n (d st) \<and> head_n (d st) < int sz \<and> sz \<le> LOGSIZE \<and> st + sz \<le> n
     \<and> n < 2 ^ 31 \<and> (\<forall>k. length (d k) = BSIZE)
     \<and> (\<forall>i < nat (head_n (d st)). head_block (d st) i < n \<and> head_block (d st) i \<notin> {st..<st + sz})"

definition rec_writes :: "nat \<Rightarrow> disk \<Rightarrow> (nat \<times> bytes) list" where
  "rec_writes st d = map (\<lambda>i. (head_block (d st) i, d (st + i + 1))) [0..<nat (head_n (d st))]
     @ [(st, put32 (d st) 0 0)]"

definition recover :: "nat \<Rightarrow> disk \<Rightarrow> disk" where
  "recover st d = apply_writes (rec_writes st d) d"

text \<open>A kernel that has just booted from disk \<open>d\<close>: an empty cache.\<close>

definition booted :: "disk \<Rightarrow> 'x klog_scheme \<Rightarrow> bool" where
  "booted d t \<longleftrightarrow> bio_inv t \<and> held t = {} \<and> Collect (dirty t) = {} \<and> view t = d \<and> memdisk t = d
     \<and> length (lg_block (log t)) = LOGSIZE"

lemma put_head_0: "put_head 0 bs d = put32 d 0 0"
  by (simp add: put_head_def)

lemma read_log_geom:
  assumes "log_disk st sz (disksize s) d" "length (lg_block (log s)) = LOGSIZE" "lg_dev (log s) = 1"
    "lg_start (log s) = st" "lg_size (log s) = sz" "log s' = read_log (d st) (log s)" "disksize s' = disksize s"
  shows "log_geom s'" "i < nat (lg_n (log s')) \<Longrightarrow> lg_block (log s') ! i = head_block (d st) i"
    "lg_n (log s') = head_n (d st)" "lg_start (log s') = st" "lg_dev (log s') = 1" "lg_size (log s') = sz"
proof -
  have "nat (head_n (d st)) \<le> length (lg_block (log s))" using assms(1,2) by (auto simp: log_disk_def)
  note f = fold_blocks[OF this, of "head_block (d st)"]
  show b: "lg_n (log s') = head_n (d st)" "lg_start (log s') = st" "lg_dev (log s') = 1" "lg_size (log s') = sz"
    using assms by (simp_all add: read_log_def)
  show nth: "lg_block (log s') ! i = head_block (d st) i" if "i < nat (lg_n (log s'))" for i
    using f that unfolding b(1) by (simp add: assms(6) read_log_def)
  have "length (lg_block (log s')) = LOGSIZE" using f assms(2) by (simp add: assms(6) read_log_def)
  moreover have "set (logged (log s')) \<subseteq> {..<disksize s'} - log_area (log s')"
    using nth assms(1,7) unfolding logged_def log_area_def b set_conv_nth log_disk_def by fastforce
  ultimately show "log_geom s'" using assms(1,7) b by (simp add: log_geom_def log_disk_def)
qed

lemma recover_from_log_spec:
  assumes b: "booted d t" and l: "log_disk st sz (disksize t) d" "lg_dev (log t) = 1" "lg_start (log t) = st"
    "lg_size (log t) = sz" and sz: "0 < sz"
  shows "\<exists>t'. recover_from_log t = Inr ((), t') \<and> bio_inv t' \<and> log_step t t' \<and> held t' = {}
    \<and> Collect (dirty t') = {} \<and> wrote t (rec_writes st d) t' \<and> view t' = recover st d \<and> lg_n (log t') = 0
    \<and> log_geom t'"
proof -
  have B: "bio_inv t" "held t = {}" "Collect (dirty t) = {}" "view t = d" "memdisk t = d"
      "length (lg_block (log t)) = LOGSIZE" using b by (auto simp: booted_def)
  have st: "st < disksize t" using l(1) sz by (simp add: log_disk_def)
  have c0: "card {} < NBUF" by (simp add: NBUF_def)
  obtain u where u: "read_head t = Inr ((), u)" "bio_inv u" "log_step t u" "held u = {}" "dirty u = dirty t"
      "view u = d" "wrote t [] u" "log u = read_log (d st) (log t)"
    using read_head_spec[OF B(1,2) l(2)] l(3) st B(3,4) c0 by auto
  have du: "disksize u = disksize t" using u(3) by (simp add: log_step_def)
  note g = read_log_geom[OF l(1) B(6) l(2,3,4) u(8) du]
  let ?n = "nat (head_n (d st))"
  have hw: "home_writes (log u) d ?n = map (\<lambda>i. (head_block (d st) i, d (st + i + 1))) [0..<?n]"
    unfolding home_writes_def using g(2,3,4) by simp
  have eu: "Collect (dirty u) = {}" using u(5) B(3) by metis
  obtain v where v: "install_trans u = Inr ((), v)" "bio_inv v" "bio_step u v" "held v = {}" "Collect (dirty v) = {}"
      "wrote u (home_writes (log u) d ?n) v" "view v = apply_writes (home_writes (log u) d ?n) d"
    using install_trans_spec[OF u(2,4) g(1)] eu u(6) g(3) by (auto simp del: Collect_empty_eq)
  have lv: "log v = log u" "disksize v = disksize t" using bio_step_log[OF v(3)] bio_step_disksize[OF v(3)] du by auto
  let ?w = "upd_log (\<lambda>l. l\<lparr>lg_n := 0\<rparr>) v"
  have vst: "view ?w st = d st"
    using v(7) home_writes_log[OF g(1), of ?n st d d] g(3,4) log_geomD(7,11)[OF g(1)] by auto
  have "\<not> dirty v st" using v(5) by blast
  then obtain x where x: "write_head ?w = Inr ((), x)" "bio_inv x" "bio_step ?w x" "held x = {}" "dirty x = dirty v"
      "view x = (view v)(st := put32 (d st) 0 0)" "wrote v [(st, put32 (d st) 0 0)] x"
    using write_head_spec[of ?w] v(2,4,5) lv st g(4,5) vst c0 by (auto simp: put_head_0 simp del: Collect_empty_eq)
  have "recover_from_log t = Inr ((), x)"
    using u(1) v(1) x(1) by (simp add: recover_from_log_def)
  moreover have "log_step t x"
    using u(3) v(3) x(3) log_step_upd_log by (meson bio_log_step log_step_trans)
  moreover have "wrote t ([] @ home_writes (log u) d ?n @ [(st, put32 (d st) 0 0)]) x"
    using u(7) v(6) x(7) wrote_trans by metis
  moreover have lx: "log x = (log u)\<lparr>lg_n := 0\<rparr>" "disksize x = disksize t"
    using bio_step_log[OF x(3)] bio_step_disksize[OF x(3)] lv by auto
  moreover have "log_geom x" using g(1,6) sz du lx by (simp add: log_geom_def logged_def)
  ultimately show ?thesis using v x hw B(4) v(5) x(5) by (simp add: rec_writes_def recover_def)
qed

lemma readsb_spec:
  fixes s :: "'x klog_scheme"
  assumes "bio_inv s" "held s = {}" "1 < disksize s" "card (Collect (dirty s)) < NBUF"
  shows "\<exists>s'. readsb 1 s = Inr (sb_of (view s 1), s') \<and> bio_inv s' \<and> quiet s s' \<and> held s' = {}"
proof -
  obtain b s1 where r: "bread 1 1 s = Inr (b, s1)" "b_data (bufs s1 ! b) = view s 1" "bio_inv s1" "quiet s s1"
      "holds s1 b 1" "settled s1 b" "held s1 = {1}"
    using read_block[OF assms] by blast
  obtain u where u: "brelse b s1 = Inr ((), u)" "bio_inv u" "quiet s1 u" "held u = held s1 - {1}"
    using brelse_spec[OF r(3,5,6)] by blast
  then show ?thesis using r quiet_trans[OF r(4) u(3)] by (simp add: readsb_def bdata_def)
qed

lemma initlog_spec:
  assumes b: "booted d t" and sb: "sb_logstart (sb_of (d 1)) = st" "sb_nlog (sb_of (d 1)) = sz"
    and l: "log_disk st sz (disksize t) d" "1 < disksize t" "0 < sz"
  shows "\<exists>t'. initlog 1 t = Inr ((), t') \<and> bio_inv t' \<and> log_step t t' \<and> held t' = {} \<and> Collect (dirty t') = {}
    \<and> wrote t (rec_writes st d) t' \<and> view t' = recover st d \<and> memdisk t' = recover st d \<and> lg_n (log t') = 0
    \<and> log_geom t'"
proof -
  have B: "bio_inv t" "held t = {}" "Collect (dirty t) = {}" "view t = d" "memdisk t = d"
      "length (lg_block (log t)) = LOGSIZE" using b by (auto simp: booted_def)
  have c: "card (Collect (dirty t)) < NBUF" unfolding B(3) by (simp add: NBUF_def)
  obtain u where u: "readsb 1 t = Inr (sb_of (d 1), u)" "bio_inv u" "quiet t u" "held u = {}"
    using readsb_spec[OF B(1,2) l(2) c] B(4) by auto
  note q = quiet_log[OF u(3)]
  let ?f = "\<lambda>l. l\<lparr>lg_start := sb_logstart (sb_of (d 1)), lg_size := sb_nlog (sb_of (d 1)), lg_dev := 1\<rparr>"
  have "booted d (upd_log ?f u)"
    using B u q by (simp add: booted_def del: Collect_empty_eq)
  from recover_from_log_spec[OF this, of st sz] obtain v where v: "recover_from_log (upd_log ?f u) = Inr ((), v)"
      "bio_inv v" "log_step (upd_log ?f u) v" "held v = {}" "Collect (dirty v) = {}"
      "wrote u (rec_writes st d) v" "view v = recover st d" "lg_n (log v) = 0" "log_geom v"
    using l q(6) sb by (auto simp del: Collect_empty_eq)
  have "wrote t (rec_writes st d) v" using v(6) q by (simp add: wrote_def)
  moreover have "log_step t v" using q(7) v(3) log_step_upd_log by (meson log_step_trans)
  moreover have "initlog 1 t = Inr ((), v)" using u(1) v(1) by (simp add: initlog_def LOGSIZE_def BSIZE_def)
  ultimately show ?thesis using v B(5) by (simp add: wrote_def recover_def)
qed

subsection \<open>Prefixes of writes\<close>

lemma apply_writes_const:
  assumes "\<And>b. (k, b) \<in> set ws \<Longrightarrow> b = c" "k \<in> fst ` set ws \<or> d k = c"
  shows "apply_writes ws d k = c"
  using assms
proof (induction ws arbitrary: d)
  case (Cons w ws)
  show ?case
  proof (cases "k \<in> fst ` set ws")
    case True
    with Cons show ?thesis by simp
  next
    case False
    then have "apply_writes ws (d(fst w := snd w)) k = (d(fst w := snd w)) k" by (rule apply_writes_other)
    with False Cons.prems show ?thesis by (cases w) auto
  qed
qed simp

lemma apply_writes_length:
  assumes "\<And>w. w \<in> set ws \<Longrightarrow> length (snd w) = BSIZE" "\<And>k. length (d k) = BSIZE"
  shows "length (apply_writes ws d k) = BSIZE"
  using assms by (induction ws arbitrary: d) auto

lemma apply_writes_prefix: "apply_writes ws (apply_writes (take j ws) d) = apply_writes ws d"
proof
  fix k
  have "apply_writes ws a k = apply_writes ws b k" if "k \<in> fst ` set ws" for a b :: disk
    using that by (induction ws arbitrary: a b) (auto, metis apply_writes_other fun_upd_same)
  moreover have "k \<notin> fst ` set (take j ws)" if "k \<notin> fst ` set ws"
    using that in_set_takeD[of _ j ws] by fastforce
  ultimately show "apply_writes ws (apply_writes (take j ws) d) k = apply_writes ws d k"
    by (cases "k \<in> fst ` set ws") (simp_all add: apply_writes_other)
qed

lemma head_n_zero: "length d = BSIZE \<Longrightarrow> head_n (put32 d 0 0) = 0"
  by (simp add: head_n_def get32_put32 BSIZE_def)

lemma put32_twice: "length d = BSIZE \<Longrightarrow> put32 (put32 d 0 x) 0 y = put32 d 0 y"
  by (simp add: put32_def put_bytes_def BSIZE_def)

text \<open>Home writes of recovery stay out of the log, so an interrupted recovery can be repeated.\<close>

lemma rec_writes_log:
  assumes "log_disk st sz n d" "x \<in> {st..<st + sz}"
  shows "apply_writes (take j (butlast (rec_writes st d))) d x = d x"
proof (rule apply_writes_other)
  show "x \<notin> fst ` set (take j (butlast (rec_writes st d)))"
    using assms in_set_takeD[of _ j "butlast (rec_writes st d)"]
    by (fastforce simp: rec_writes_def log_disk_def)
qed

lemma recover_interrupted:
  assumes "log_disk st sz n d" "0 < sz"
  shows "recover st (apply_writes (take j (rec_writes st d)) d) = recover st d"
proof (cases "j < length (rec_writes st d)")
  case True
  let ?d = "apply_writes (take j (rec_writes st d)) d"
  have "take j (rec_writes st d) = take j (butlast (rec_writes st d))"
    using True by (simp add: take_butlast)
  then have same: "?d x = d x" if "x \<in> {st..<st + sz}" for x
    using rec_writes_log[OF assms(1) that] by simp
  then have "?d st = d st" "\<And>i. i < nat (head_n (d st)) \<Longrightarrow> ?d (st + i + 1) = d (st + i + 1)"
    using assms by (auto simp: log_disk_def)
  then have "rec_writes st ?d = rec_writes st d" by (simp add: rec_writes_def)
  then show ?thesis by (simp add: recover_def apply_writes_prefix)
next
  case False
  let ?d = "recover st d"
  have len: "length (d st) = BSIZE" using assms by (simp add: log_disk_def)
  have st: "?d st = put32 (d st) 0 0" by (simp add: recover_def rec_writes_def)
  then have "rec_writes st ?d = [(st, put32 (d st) 0 0)]"
    using len by (simp add: rec_writes_def head_n_zero put32_twice)
  with False st show ?thesis by (simp add: recover_def fun_upd_idem)
qed

lemma log_disk_interrupted:
  assumes d: "log_disk st sz n d" and sz: "0 < sz"
  shows "log_disk st sz n (apply_writes (take j (rec_writes st d)) d)"
proof -
  let ?d = "apply_writes (take j (rec_writes st d)) d"
  have len: "length (d k) = BSIZE" for k using d by (simp add: log_disk_def)
  have wlen: "length (snd w) = BSIZE" if "w \<in> set (rec_writes st d)" for w
    using that len by (auto simp: rec_writes_def BSIZE_def)
  have dlen: "length (?d k) = BSIZE" for k
    using wlen len by (intro apply_writes_length) (auto dest: in_set_takeD)
  have "?d st = d st \<or> head_n (?d st) = 0"
  proof (cases "j < length (rec_writes st d)")
    case True
    then have "take j (rec_writes st d) = take j (butlast (rec_writes st d))" by (simp add: take_butlast)
    then show ?thesis using rec_writes_log[OF d, of st j] sz by simp
  next
    case False
    then show ?thesis using head_n_zero[OF len] by (simp add: rec_writes_def)
  qed
  with d dlen show ?thesis unfolding log_disk_def by (metis less_nat_zero_code nat_0_iff of_nat_0_less_iff order_refl sz)
qed

lemma recover_home:
  assumes "m \<noteq> st" "\<And>i. i < nat (head_n (d st)) \<Longrightarrow> head_block (d st) i = m \<Longrightarrow> d (st + i + 1) = c"
    "(\<exists>i < nat (head_n (d st)). head_block (d st) i = m) \<or> d m = c"
  shows "recover st d m = c"
  unfolding recover_def rec_writes_def using assms
  by (intro apply_writes_const) (auto simp: image_image)

subsection \<open>Commit\<close>

definition log_inv :: "'x klog_scheme \<Rightarrow> bool" where
  "log_inv s \<longleftrightarrow> bio_inv s \<and> log_geom s \<and> distinct (logged (log s)) \<and> Collect (dirty s) = set (logged (log s))
     \<and> head_n (memdisk s (lg_start (log s))) = 0"

definition commit_writes :: "log_state \<Rightarrow> disk \<Rightarrow> (nat \<times> bytes) list" where
  "commit_writes l v = (let n = nat (lg_n l); h = put_head (lg_n l) (lg_block l) (v (lg_start l)) in
     log_writes l v n @ [(lg_start l, h)] @ map (\<lambda>i. (lg_block l ! i, v (lg_block l ! i))) [0..<n]
       @ [(lg_start l, put32 h 0 0)])"

lemma log_writes_get:
  assumes "i < n"
  shows "apply_writes (log_writes l v n) d (lg_start l + i + 1) = v (lg_block l ! i)"
  unfolding log_writes_def
  using apply_writes_map[of "\<lambda>i. lg_start l + i + 1" "[0..<n]" i "\<lambda>i. v (lg_block l ! i)" d] assms
  by (simp add: distinct_map inj_on_def)

lemma commit_spec:
  assumes inv: "log_inv s" and h: "held s = {}" and n: "0 < lg_n (log s)"
  shows "\<exists>s'. commit s = Inr ((), s') \<and> bio_inv s' \<and> log_step s s' \<and> held s' = {} \<and> Collect (dirty s') = {}
    \<and> wrote s (commit_writes (log s) (view s)) s' \<and> log s' = (log s)\<lparr>lg_n := 0\<rparr>
    \<and> view s' = apply_writes (commit_writes (log s) (view s)) (view s)"
proof -
  let ?l = "log s" and ?v = "view s" and ?st = "lg_start (log s)" and ?n = "nat (lg_n (log s))"
  have I: "bio_inv s" "log_geom s" "distinct (logged ?l)" "Collect (dirty s) = set (logged ?l)"
    using inv by (auto simp: log_inv_def)
  note G = log_geomD[OF I(2)]
  have nd: "\<not> dirty s ?st" using I(4) G(7,11) by blast
  have "card (Collect (dirty s)) \<le> ?n" unfolding I(4) using card_length[of "logged ?l"] G(6) by simp
  then have c: "card (Collect (dirty s)) < NBUF" using G(14) by (simp add: NBUF_def)
  obtain t where t: "write_log s = Inr ((), t)" "bio_inv t" "bio_step s t" "held t = {}" "dirty t = dirty s"
      "wrote s (log_writes ?l ?v ?n) t" "view t = apply_writes (log_writes ?l ?v ?n) ?v"
    using write_log_spec[OF I(1) h I(2,4)] by blast
  have lt: "log t = ?l" "disksize t = disksize s" using bio_step_log[OF t(3)] bio_step_disksize[OF t(3)] by auto
  have tst: "view t ?st = ?v ?st" using t(7) by (auto simp: log_writes_def intro!: apply_writes_other)
  let ?h = "put_head (lg_n ?l) (lg_block ?l) (?v ?st)"
  obtain u where u: "write_head t = Inr ((), u)" "bio_inv u" "bio_step t u" "held u = {}" "dirty u = dirty t"
      "view u = (view t)(?st := ?h)" "wrote t [(?st, ?h)] u"
    using write_head_spec[OF t(2,4)] lt tst G(1,5,13) nd c t(5) by (auto simp: LOGSIZE_def)
  have lu: "log u = ?l" "disksize u = disksize s" using bio_step_log[OF u(3)] bio_step_disksize[OF u(3)] lt by auto
  have gu: "log_geom u" using I(2) lu by (simp add: log_geom_def)
  obtain w where w: "install_trans u = Inr ((), w)" "bio_inv w" "bio_step u w" "held w = {}" "Collect (dirty w) = {}"
      "wrote u (home_writes ?l (view u) ?n) w" "view w = apply_writes (home_writes ?l (view u) ?n) (view u)"
    using install_trans_spec[OF u(2,4) gu] I(3,4) t(5) u(5) lu by auto
  have lw: "log w = ?l" "disksize w = disksize s" using bio_step_log[OF w(3)] bio_step_disksize[OF w(3)] lu by auto
  have hw: "home_writes ?l (view u) ?n = map (\<lambda>i. (lg_block ?l ! i, ?v (lg_block ?l ! i))) [0..<?n]"
    unfolding home_writes_def u(6) t(7) by (simp add: log_writes_get)
  let ?w = "upd_log (\<lambda>l. l\<lparr>lg_n := 0\<rparr>) w"
  have "?st \<notin> set (logged ?l)" using G(7,11) by blast
  then have wst: "view w ?st = ?h" using w(7) home_writes_log[OF gu, of ?n ?st] lu(1) u(6) by simp
  have cw: "card (Collect (dirty w)) < NBUF" unfolding w(5) by (simp add: NBUF_def)
  have "\<not> dirty w ?st" using w(5) by blast
  then obtain x where x: "write_head ?w = Inr ((), x)" "bio_inv x" "bio_step ?w x" "held x = {}" "dirty x = dirty w"
      "view x = (view w)(?st := put32 ?h 0 0)" "wrote w [(?st, put32 ?h 0 0)] x"
    using write_head_spec[of ?w] w(2,4) lw G(1,5) wst cw by (auto simp: put_head_0 simp del: Collect_empty_eq)
  have "commit s = Inr ((), x)" using t(1) u(1) w(1) x(1) n by (simp add: commit_def)
  moreover have "log_step s x"
    using t(3) u(3) w(3) x(3) log_step_upd_log by (meson bio_log_step log_step_trans)
  moreover have "wrote s (commit_writes ?l ?v) x"
    using wrote_trans[OF wrote_trans[OF wrote_trans[OF t(6) u(7)] w(6)] x(7)] hw
    by (simp add: commit_writes_def Let_def)
  moreover have "view x = apply_writes (commit_writes ?l ?v) ?v"
    using x(6) w(7) u(6) t(7) hw by (simp add: commit_writes_def Let_def)
  ultimately show ?thesis using x w(5) bio_step_log[OF x(3)] lw by auto
qed

text \<open>
  What recovery makes of the disk after the first \<open>k\<close> writes of a commit.
\<close>

lemma log_invD:
  assumes "log_inv s"
  shows "bio_inv s" "log_geom s" "distinct (logged (log s))" "Collect (dirty s) = set (logged (log s))"
    "head_n (memdisk s (lg_start (log s))) = 0"
  using assms by (auto simp: log_inv_def)

definition commit_head :: "log_state \<Rightarrow> disk \<Rightarrow> bytes" where
  "commit_head l v = put_head (lg_n l) (lg_block l) (v (lg_start l))"

definition commit_home :: "log_state \<Rightarrow> disk \<Rightarrow> (nat \<times> bytes) list" where
  "commit_home l v = map (\<lambda>i. (lg_block l ! i, v (lg_block l ! i))) [0..<nat (lg_n l)]"

lemma commit_writes_alt:
  "commit_writes l v = log_writes l v (nat (lg_n l)) @ (lg_start l, commit_head l v) # commit_home l v
     @ [(lg_start l, put32 (commit_head l v) 0 0)]"
  by (simp add: commit_writes_def Let_def commit_head_def commit_home_def)

lemma before_commit_point:
  assumes inv: "log_inv s" and m: "m \<notin> log_area (log s)" and k: "k \<le> nat (lg_n (log s))"
  shows "recover (lg_start (log s)) (apply_writes (log_writes (log s) v k) (memdisk s)) m = memdisk s m"
proof (rule recover_home)
  note I = log_invD[OF inv] and G = log_geomD[OF log_invD(2)[OF inv]]
  let ?d = "apply_writes (log_writes (log s) v k) (memdisk s)"
  show "m \<noteq> lg_start (log s)" using m G(7) by blast
  have "?d (lg_start (log s)) = memdisk s (lg_start (log s))"
    by (auto simp: log_writes_def intro!: apply_writes_other)
  then have z: "nat (head_n (?d (lg_start (log s)))) = 0" using I(5) by simp
  then show "?d (lg_start (log s) + i + 1) = memdisk s m" if "i < nat (head_n (?d (lg_start (log s))))" for i
    using that by simp
  show "(\<exists>i < nat (head_n (?d (lg_start (log s)))). head_block (?d (lg_start (log s))) i = m) \<or> ?d m = memdisk s m"
    using log_writes_home[OF I(2) k m] by blast
qed

text \<open>From the header write on, recovery finds the new contents in the log.\<close>

lemma commit_home_apply:
  "apply_writes (take j (commit_home l v)) e m = (if m \<in> fst ` set (take j (commit_home l v)) then v m else e m)"
proof (cases "m \<in> fst ` set (take j (commit_home l v))")
  case True
  have "b = v m" if "(m, b) \<in> set (take j (commit_home l v))" for b
    using in_set_takeD[OF that] by (auto simp: commit_home_def)
  with True show ?thesis by (simp add: apply_writes_const)
next
  case False
  then show ?thesis by (simp add: apply_writes_other)
qed

lemma commit_home_blocks:
  assumes "log_geom s"
  shows "fst ` set (take j (commit_home (log s) v)) \<subseteq> set (logged (log s))"
proof -
  note G = log_geomD[OF assms]
  have "map fst (commit_home (log s) v) = logged (log s)"
    by (rule nth_equalityI) (simp_all add: commit_home_def G)
  then have "fst ` set (commit_home (log s) v) = set (logged (log s))" by (metis list.set_map)
  then show ?thesis using set_take_subset[of j "commit_home (log s) v"] by (metis image_mono)
qed

lemma after_commit_point:
  assumes inv: "log_inv s" and h: "held s = {}" and m: "m \<notin> log_area (log s)"
  defines "e \<equiv> (apply_writes (log_writes (log s) (view s) (nat (lg_n (log s)))) (memdisk s))
    (lg_start (log s) := commit_head (log s) (view s))"
  shows "recover (lg_start (log s)) (apply_writes (take j (commit_home (log s) (view s))) e) m = view s m"
proof (rule recover_home)
  let ?l = "log s" and ?v = "view s" and ?st = "lg_start (log s)" and ?n = "nat (lg_n (log s))"
  let ?d = "apply_writes (take j (commit_home ?l ?v)) e"
  note I = log_invD[OF inv] and G = log_geomD[OF log_invD(2)[OF inv]]
  show mst: "m \<noteq> ?st" using m G(7) by blast
  have dlog: "?d x = e x" if "x \<in> log_area ?l" for x
    unfolding commit_home_apply using commit_home_blocks[OF I(2)] G(11)[of x] that by fastforce
  have "?d ?st = commit_head ?l ?v" using dlog[OF G(7)] by (simp add: e_def)
  moreover have hn: "head_n (commit_head ?l ?v) = lg_n ?l"
    unfolding commit_head_def using G(12,13) length_view[OF I(1)]
    by (intro head_put_head) (simp_all add: LOGSIZE_def)
  moreover have hb: "head_block (commit_head ?l ?v) i = lg_block ?l ! i" if "i < ?n" for i
  proof -
    have "lg_block ?l ! i \<in> set (logged ?l)" using G(6) G(8)[OF that] that by (metis nth_mem)
    then have "lg_block ?l ! i < 2 ^ 32" using G(11) I(2) by (fastforce simp: log_geom_def)
    then show ?thesis unfolding commit_head_def using G(12,13) length_view[OF I(1)] that
      by (intro head_put_head) (simp_all add: LOGSIZE_def)
  qed
  ultimately have D: "head_n (?d ?st) = lg_n ?l" "\<And>i. i < ?n \<Longrightarrow> head_block (?d ?st) i = lg_block ?l ! i" by auto
  show "?d (?st + i + 1) = ?v m" if "i < nat (head_n (?d ?st))" "head_block (?d ?st) i = m" for i
    using dlog[OF G(9)[of i]] log_writes_get[of i ?n ?l ?v] that D by (simp add: e_def)
  show "(\<exists>i < nat (head_n (?d ?st)). head_block (?d ?st) i = m) \<or> ?d m = ?v m"
  proof (cases "m \<in> set (logged ?l)")
    case True
    then show ?thesis using G(6) G(8) D by (metis in_set_conv_nth)
  next
    case False
    then have "?v m = memdisk s m" using clean_view[OF I(1), of m] I(4) h by blast
    moreover have "?d m = e m" unfolding commit_home_apply using commit_home_blocks[OF I(2)] False by fastforce
    ultimately show ?thesis using log_writes_home[OF I(2) order_refl m] mst by (simp add: e_def)
  qed
qed

lemma after_erase:
  assumes inv: "log_inv s" and h: "held s = {}" and m: "m \<notin> log_area (log s)"
  shows "apply_writes (commit_writes (log s) (view s)) (memdisk s) m = view s m"
proof -
  note I = log_invD[OF inv] and G = log_geomD[OF log_invD(2)[OF inv]]
  have mst: "m \<noteq> lg_start (log s)" using m G(7) by blast
  let ?e = "(apply_writes (log_writes (log s) (view s) (nat (lg_n (log s)))) (memdisk s))
    (lg_start (log s) := commit_head (log s) (view s))"
  have "map fst (commit_home (log s) (view s)) = logged (log s)"
    by (rule nth_equalityI) (simp_all add: commit_home_def G)
  then have f: "fst ` set (commit_home (log s) (view s)) = set (logged (log s))" by (metis list.set_map)
  have "apply_writes (commit_home (log s) (view s)) ?e m = view s m"
  proof (cases "m \<in> set (logged (log s))")
    case True
    then show ?thesis using commit_home_apply[of "length (commit_home (log s) (view s))" "log s" "view s" ?e m] f
      by simp
  next
    case False
    then have "view s m = memdisk s m" using clean_view[OF I(1), of m] I(4) h by blast
    with False show ?thesis
      using log_writes_home[OF I(2) order_refl m] mst f by (simp add: apply_writes_other)
  qed
  then show ?thesis using mst by (simp add: commit_writes_alt)
qed

text \<open>The three stages of a commit.\<close>

lemma take_commit_writes:
  obtains "k \<le> nat (lg_n l)" "take k (commit_writes l v) = log_writes l v k"
  | j where "k > nat (lg_n l)" "take k (commit_writes l v)
      = log_writes l v (nat (lg_n l)) @ (lg_start l, commit_head l v) # take j (commit_home l v)"
  | "k > nat (lg_n l)" "take k (commit_writes l v) = commit_writes l v"
proof -
  let ?n = "nat (lg_n l)"
  have len: "length (log_writes l v ?n) = ?n" "length (commit_home l v) = ?n"
    by (simp_all add: log_writes_def commit_home_def)
  consider "k \<le> ?n" | "k > ?n" "k \<le> 2 * ?n + 1" | "k > 2 * ?n + 1" by linarith
  then show thesis
  proof cases
    case 1
    then have "take k (commit_writes l v) = log_writes l v k"
      unfolding commit_writes_alt by (simp add: len) (simp add: log_writes_def take_map)
    with 1 that(1) show thesis by blast
  next
    case 2
    then obtain j where j: "k = ?n + Suc j" using less_imp_Suc_add by fastforce
    then have "take k (commit_writes l v)
        = log_writes l v ?n @ (lg_start l, commit_head l v) # take j (commit_home l v)"
      using 2 unfolding commit_writes_alt by (simp add: len)
    with 2 that(2) show thesis by blast
  next
    case 3
    then have "take k (commit_writes l v) = commit_writes l v"
      unfolding commit_writes_alt by (simp add: len)
    moreover have "k > ?n" using 3 by simp
    ultimately show thesis by (rule that(3)[rotated])
  qed
qed

lemma commit_header:
  assumes "log_inv s"
  shows "length (commit_head (log s) (view s)) = BSIZE" "head_n (commit_head (log s) (view s)) = lg_n (log s)"
    "i < nat (lg_n (log s)) \<Longrightarrow> head_block (commit_head (log s) (view s)) i = lg_block (log s) ! i"
    "i < nat (lg_n (log s)) \<Longrightarrow> lg_block (log s) ! i < disksize s \<and> lg_block (log s) ! i \<notin> log_area (log s)"
proof -
  note I = log_invD[OF assms] and G = log_geomD[OF log_invD(2)[OF assms]]
  note L = length_view[OF I(1), of "lg_start (log s)"]
  show "length (commit_head (log s) (view s)) = BSIZE"
    unfolding commit_head_def using put_head_get(1)[OF L] G(3) by simp
  show "head_n (commit_head (log s) (view s)) = lg_n (log s)"
    unfolding commit_head_def using G(12,13) L by (intro head_put_head) (simp_all add: LOGSIZE_def)
  assume i: "i < nat (lg_n (log s))"
  then have "lg_block (log s) ! i \<in> set (logged (log s))" using G(6) G(8)[OF i] by (metis nth_mem)
  then show b: "lg_block (log s) ! i < disksize s \<and> lg_block (log s) ! i \<notin> log_area (log s)" using G(11) by blast
  then have "lg_block (log s) ! i < 2 ^ 32" using I(2) by (simp add: log_geom_def)
  then show "head_block (commit_head (log s) (view s)) i = lg_block (log s) ! i"
    unfolding commit_head_def using G(12,13) L i by (intro head_put_head) (simp_all add: LOGSIZE_def)
qed

lemma recover_prefix:
  assumes "log_inv s" "held s = {}" "m \<notin> log_area (log s)"
  shows "recover (lg_start (log s)) (apply_writes (take k (commit_writes (log s) (view s))) (memdisk s)) m
    = (if k \<le> nat (lg_n (log s)) then memdisk s m else view s m)"
  using take_commit_writes[of k "log s" "view s"]
proof cases
  case 1
  with before_commit_point[OF assms(1,3)] show ?thesis by simp
next
  case (2 j)
  with after_commit_point[OF assms] show ?thesis by simp
next
  case 3
  let ?d = "apply_writes (commit_writes (log s) (view s)) (memdisk s)"
  have st: "?d (lg_start (log s)) = put32 (commit_head (log s) (view s)) 0 0" by (simp add: commit_writes_alt)
  have "lg_start (log s) \<in> log_area (log s)" using log_geomD(7)[OF log_invD(2)[OF assms(1)]] .
  then have "recover (lg_start (log s)) ?d m = view s m"
    using assms(3) commit_header(1)[OF assms(1)] after_erase[OF assms]
    by (intro recover_home) (auto simp: st head_n_zero)
  with 3 show ?thesis by simp
qed

lemma commit_writes_length:
  assumes "log_inv s" "w \<in> set (commit_writes (log s) (view s))"
  shows "length (snd w) = BSIZE"
  using assms(2) commit_header(1)[OF assms(1)] length_view[OF log_invD(1)[OF assms(1)]]
  by (auto simp: commit_writes_alt log_writes_def commit_home_def length_put32 BSIZE_def)

lemma log_disk_prefix:
  assumes inv: "log_inv s" and h: "held s = {}"
  shows "log_disk (lg_start (log s)) (lg_size (log s)) (disksize s)
    (apply_writes (take k (commit_writes (log s) (view s))) (memdisk s))" (is "log_disk ?st ?sz ?ds ?d")
proof -
  note I = log_invD[OF inv] and G = log_geomD[OF log_invD(2)[OF inv]] and H = commit_header[OF inv]
  have len: "length (?d m) = BSIZE" for m
    using commit_writes_length[OF inv] bio_invD(5)[OF I(1)]
    by (intro apply_writes_length) (auto dest: in_set_takeD)
  have "head_n (?d ?st) = 0 \<or> ?d ?st = commit_head (log s) (view s)"
    using take_commit_writes[of k "log s" "view s"]
  proof cases
    case 1
    then have "?d ?st = memdisk s ?st"
      by (auto simp: log_writes_def intro!: apply_writes_other)
    with I(5) show ?thesis by simp
  next
    case (2 j)
    moreover have "?st \<notin> fst ` set (take j (commit_home (log s) (view s)))"
      using commit_home_blocks[OF I(2), of j "view s"] G(7,11) by blast
    ultimately show ?thesis by (simp add: apply_writes_other)
  next
    case 3
    then show ?thesis using head_n_zero[OF H(1)] by (simp add: commit_writes_alt)
  qed
  then have "head_n (?d ?st) = 0 \<or> head_n (?d ?st) = lg_n (log s)
      \<and> (\<forall>i < nat (lg_n (log s)). head_block (?d ?st) i = lg_block (log s) ! i)"
    using H by metis
  moreover have "\<forall>i < nat (lg_n (log s)). lg_block (log s) ! i < ?ds \<and> lg_block (log s) ! i \<notin> {?st..<?st + ?sz}"
    using H(4) unfolding log_area_def by blast
  moreover have "0 < ?sz" "?sz \<le> LOGSIZE" "?st + ?sz \<le> ?ds" "?ds < 2 ^ 31" "lg_n (log s) < int ?sz" "0 \<le> lg_n (log s)"
    using I(2) by (auto simp: log_geom_def)
  ultimately show ?thesis using len unfolding log_disk_def by fastforce
qed

definition sb_matches :: "'x klog_scheme \<Rightarrow> bool" where
  "sb_matches s \<longleftrightarrow> sb_logstart (sb_of (memdisk s 1)) = lg_start (log s) \<and> sb_nlog (sb_of (memdisk s 1)) = lg_size (log s)
     \<and> 1 \<notin> log_area (log s) \<and> 1 \<notin> set (logged (log s)) \<and> 1 < disksize s"

lemma commit_writes_sb:
  assumes "log_inv s" "sb_matches s"
  shows "apply_writes (take k (commit_writes (log s) (view s))) (memdisk s) 1 = memdisk s 1"
proof (rule apply_writes_other)
  note I = log_invD[OF assms(1)] and G = log_geomD[OF log_invD(2)[OF assms(1)]]
  have "fst ` set (commit_writes (log s) (view s)) \<subseteq> log_area (log s) \<union> set (logged (log s))"
    using commit_home_blocks[OF I(2), of "length (commit_home (log s) (view s))" "view s"] G(7,9)
    by (auto simp: commit_writes_alt log_writes_def)
  then show "1 \<notin> fst ` set (take k (commit_writes (log s) (view s)))"
    using assms(2) in_set_takeD[of _ k "commit_writes (log s) (view s)"] by (fastforce simp: sb_matches_def)
qed

lemma reboot_after_commit:
  assumes inv: "log_inv s" "held s = {}" "sb_matches s"
    and t: "booted (apply_writes (take k (commit_writes (log s) (view s))) (memdisk s)) t" "disksize t = disksize s"
  shows "\<exists>t'. initlog 1 t = Inr ((), t') \<and> (\<forall>m. m \<notin> log_area (log s)
    \<longrightarrow> memdisk t' m = (if k \<le> nat (lg_n (log s)) then memdisk s m else view s m))"
proof -
  have "0 < lg_size (log s)" using log_geomD(2)[OF log_invD(2)[OF inv(1)]] by simp
  then obtain t' where "initlog 1 t = Inr ((), t')"
      "memdisk t' = recover (lg_start (log s)) (apply_writes (take k (commit_writes (log s) (view s))) (memdisk s))"
    using initlog_spec[OF t(1), of "lg_start (log s)" "lg_size (log s)"] commit_writes_sb[OF inv(1,3)]
      log_disk_prefix[OF inv(1,2)] inv(3) t(2) by (auto simp: sb_matches_def)
  with recover_prefix[OF inv(1,2)] show ?thesis by auto
qed

lemma commit_runs:
  assumes inv: "log_inv s" "held s = {}"
  defines "ws \<equiv> (if lg_n (log s) > 0 then commit_writes (log s) (view s) else [])"
  shows "\<exists>s'. commit s = Inr ((), s') \<and> log_inv s' \<and> wrote s ws s' \<and> held s' = {} \<and> log_step s s'
    \<and> log s' = (log s)\<lparr>lg_n := 0\<rparr> \<and> (\<forall>m. m \<notin> log_area (log s) \<longrightarrow> memdisk s' m = view s m \<and> view s' m = view s m)"
proof (cases "0 < lg_n (log s)")
  case True
  note I = log_invD[OF inv(1)]
  obtain s' where s': "commit s = Inr ((), s')" "bio_inv s'" "log_step s s'" "held s' = {}" "Collect (dirty s') = {}"
      "wrote s (commit_writes (log s) (view s)) s'" "log s' = (log s)\<lparr>lg_n := 0\<rparr>"
    using commit_spec[OF inv True] by blast
  have vm: "view s' m = memdisk s' m" for m using clean_view[OF s'(2)] s'(4,5) by blast
  have "memdisk s' (lg_start (log s)) = put32 (commit_head (log s) (view s)) 0 0"
    using s'(6) by (simp add: wrote_def commit_writes_alt)
  then have "head_n (memdisk s' (lg_start (log s))) = 0" using head_n_zero[OF commit_header(1)[OF inv(1)]] by simp
  moreover have "log_geom s'" using I(2) s'(3,7) by (auto simp: log_geom_def logged_def log_step_def)
  ultimately have "log_inv s'" using s' by (simp add: log_inv_def logged_def)
  moreover have "memdisk s' m = view s m" if "m \<notin> log_area (log s)" for m
    using s'(6) after_erase[OF inv that] by (simp add: wrote_def)
  ultimately show ?thesis using s' True vm by (auto simp: ws_def)
next
  case False
  note I = log_invD[OF inv(1)]
  have n: "lg_n (log s) = 0" using False log_geomD(12)[OF I(2)] by simp
  then have "memdisk s m = view s m" for m
    using clean_view[OF I(1), of m] I(4) inv(2) by (auto simp: logged_def)
  with n inv show ?thesis by (auto simp: commit_def ws_def wrote_def)
qed

subsection \<open>Adding a block to the transaction\<close>

lemma log_slot_in:
  assumes "log_geom s" "k \<in> set (logged (log s))"
  shows "log_slot (log s) k < nat (lg_n (log s)) \<and> lg_block (log s) ! log_slot (log s) k = k"
proof -
  note G = log_geomD[OF assms(1)]
  obtain j where "j < nat (lg_n (log s))" "lg_block (log s) ! j = k"
    using assms(2) G(6,8) by (metis in_set_conv_nth)
  then obtain i where "find (\<lambda>i. lg_block (log s) ! i = k) [0..<nat (lg_n (log s))] = Some i"
    by (cases "find (\<lambda>i. lg_block (log s) ! i = k) [0..<nat (lg_n (log s))]") (auto simp: find_None_iff)
  with find_SomeD[OF this] show ?thesis by (simp add: log_slot_def)
qed

lemma log_slot_new:
  assumes "log_geom s" "k \<notin> set (logged (log s))"
  shows "log_slot (log s) k = nat (lg_n (log s))"
proof -
  note G = log_geomD[OF assms(1)]
  have "lg_block (log s) ! i \<noteq> k" if "i < nat (lg_n (log s))" for i
    using assms(2) G(6) G(8)[OF that] that nth_mem[of i "logged (log s)"] by auto
  then have "find (\<lambda>i. lg_block (log s) ! i = k) [0..<nat (lg_n (log s))] = None"
    by (auto simp: find_None_iff)
  then show ?thesis by (simp add: log_slot_def)
qed

definition add_block :: "nat \<Rightarrow> log_state \<Rightarrow> log_state" where
  "add_block k l = (let i = log_slot l k in
     l\<lparr>lg_block := (lg_block l)[i := k], lg_n := (if int i = lg_n l then lg_n l + 1 else lg_n l)\<rparr>)"

lemma add_block_geom:
  assumes g: "log_geom s" and d: "distinct (logged (log s))" and k: "k < disksize s" "k \<notin> log_area (log s)"
    and room: "lg_n (log s) < int (lg_size (log s)) - 1" and s': "log s' = add_block k (log s)" "disksize s' = disksize s"
  shows "log_geom s'" "distinct (logged (log s'))" "set (logged (log s')) = insert k (set (logged (log s)))"
    "lg_n (log s') = (if k \<in> set (logged (log s)) then lg_n (log s) else lg_n (log s) + 1)"
proof -
  note G = log_geomD[OF g]
  have "log_geom s' \<and> distinct (logged (log s')) \<and> set (logged (log s')) = insert k (set (logged (log s)))
    \<and> lg_n (log s') = (if k \<in> set (logged (log s)) then lg_n (log s) else lg_n (log s) + 1)"
  proof (cases "k \<in> set (logged (log s))")
    case True
    note i = log_slot_in[OF g True]
    then have "(lg_block (log s))[log_slot (log s) k := k] = lg_block (log s)" by (metis list_update_id)
    then have "add_block k (log s) = log s" using i G(12) by (auto simp: add_block_def Let_def)
    then show ?thesis using s' True d g by (auto simp: log_geom_def)
  next
    case False
    note i = log_slot_new[OF g False]
    have n: "nat (lg_n (log s)) < length (lg_block (log s))" using G(3,4) by simp
    have l: "logged (log s') = logged (log s) @ [k]"
      using i n G(12) by (simp add: s' add_block_def Let_def logged_def nat_add_distrib take_Suc_conv_app_nth)
    have "lg_n (log s') = lg_n (log s) + 1" using i G(12) by (simp add: s' add_block_def Let_def)
    moreover have "log_area (log s') = log_area (log s)" by (simp add: s' add_block_def Let_def log_area_def)
    ultimately show ?thesis
      using False d l k room g s' i G(12) by (auto simp: log_geom_def add_block_def Let_def)
  qed
  then show "log_geom s'" "distinct (logged (log s'))" "set (logged (log s')) = insert k (set (logged (log s)))"
    "lg_n (log s') = (if k \<in> set (logged (log s)) then lg_n (log s) else lg_n (log s) + 1)" by auto
qed

lemma log_write_run:
  assumes "lg_n (log s) < int LOGSIZE" "lg_n (log s) < int (lg_size (log s)) - 1" "1 \<le> lg_outstanding (log s)"
    "b_blockno (bufs s ! b) = k"
  shows "log_write b s = Inr ((), upd_buf b (\<lambda>b. b\<lparr>b_dirty := True\<rparr>) (upd_log (add_block k) s))"
  using assms
  by (simp add: log_write_def Let_def whenk_def) (simp add: upd_log_def upd_buf_def add_block_def Let_def)

lemma log_write_spec:
  assumes inv: "log_inv s" and h: "holds s b k" and k: "k \<notin> log_area (log s)"
    and room: "lg_n (log s) < int (lg_size (log s)) - 1" "1 \<le> lg_outstanding (log s)"
  shows "\<exists>s'. log_write b s = Inr ((), s') \<and> log_inv s' \<and> log_step s s' \<and> holds s' b k \<and> held s' = held s
    \<and> settled s' b \<and> view s' = view s \<and> memdisk s' = memdisk s \<and> dhist s' = dhist s
    \<and> others_held s s' b \<and> log s' = add_block k (log s)
    \<and> set (logged (log s')) = insert k (set (logged (log s)))
    \<and> lg_n (log s') = (if k \<in> set (logged (log s)) then lg_n (log s) else lg_n (log s) + 1)"
proof -
  note I = log_invD[OF inv] and G = log_geomD[OF log_invD(2)[OF inv]]
  let ?t = "upd_log (add_block k) s"
  let ?s = "upd_buf b (\<lambda>b. b\<lparr>b_dirty := True\<rparr>) ?t"
  have b: "b < NBUF" "bkey (bufs s ! b) k" using h by (auto simp: holds_def)
  have kd: "k < disksize s" using bio_invD(6)[OF I(1) b(1)] b(2) by (auto simp: buf_ok_def bkey_def)
  have m: "bio_inv ?s" "bio_step ?t ?s" "holds ?s b k" "held ?s = held s" "view ?s = view s"
      "dirty ?s = (dirty s)(k := True)" "memdisk ?s = memdisk s" "dhist ?s = dhist s" "others_held ?t ?s b"
      "settled ?s b"
    using mark_dirty[of ?t b k] I(1) h by simp_all
  have run: "log_write b s = Inr ((), ?s)"
    using room G(13) b(2) by (intro log_write_run) (simp_all add: LOGSIZE_def bkey_def)
  have ls: "log ?s = add_block k (log s)" "disksize ?s = disksize s"
    using bio_step_log[OF m(2)] bio_step_disksize[OF m(2)] by simp_all
  note ag = add_block_geom[OF I(2,3) kd k room(1) ls]
  have "Collect (dirty ?s) = set (logged (log ?s))" using m(6) I(4) ag(3) by auto
  moreover have "lg_start (log ?s) = lg_start (log s)" using ls by (simp add: add_block_def Let_def)
  ultimately have "log_inv ?s" using m ag I(5) by (simp add: log_inv_def)
  moreover have "log_step s ?s" using log_step_trans[OF log_step_upd_log bio_log_step[OF m(2)]] .
  moreover have "others_held s ?s b" using m(9) by (simp add: others_held_def)
  ultimately show ?thesis using run m ag ls by blast
qed

lemma log_inv_cong:
  assumes "log_inv s" "bio_inv s'" "log s' = log s" "dirty s' = dirty s" "memdisk s' = memdisk s"
    "disksize s' = disksize s"
  shows "log_inv s'"
  using assms by (simp add: log_inv_def log_geom_def)

text \<open>
  The typical use of the log in \<^verbatim>\<open>kernel/fs.c\<close>: read a block, change it, \<open>log_write\<close> it and release it. The
  block need not be cached; the cache has room for it because at most \<open>LOGSIZE\<close> blocks are pinned.
\<close>

lemma log_card_dirty:
  assumes "log_inv s"
  shows "card (Collect (dirty s)) = nat (lg_n (log s))" "finite (Collect (dirty s))"
  using log_invD[OF assms] log_geomD(6)[OF log_invD(2)[OF assms]] distinct_card[of "logged (log s)"] by simp_all

lemma log_read:
  assumes inv: "log_inv s" and k: "k < disksize s" "k \<notin> held s" and c: "card (held s) + nat (lg_n (log s)) < NBUF"
  shows "\<exists>b s'. bread 1 k s = Inr (b, s') \<and> log_inv s' \<and> quiet s s' \<and> holds s' b k \<and> settled s' b
    \<and> b_data (bufs s' ! b) = view s k \<and> held s' = insert k (held s) \<and> others_held s s' b"
proof -
  note I = log_invD[OF inv]
  have "card (held s \<union> Collect (dirty s)) < NBUF"
    using c card_Un_le[of "held s" "Collect (dirty s)"] log_card_dirty[OF inv] by simp
  then obtain b s' where r: "bread 1 k s = Inr (b, s')" using bread_total[OF I(1) k] by blast
  note q = bread_spec[OF I(1) r] bread_held[OF I(1) r]
  then have "log_inv s'"
    using quiet_log[of s s'] by (intro log_inv_cong[OF inv]) auto
  with r q show ?thesis by blast
qed

lemma log_release:
  assumes "log_inv s" "holds s b k" "settled s b"
  shows "\<exists>s'. brelse b s = Inr ((), s') \<and> log_inv s' \<and> quiet s s' \<and> held s' = held s - {k} \<and> others_held s s' b"
proof -
  obtain s' where r: "brelse b s = Inr ((), s')" "bio_inv s'" "quiet s s'" "held s' = held s - {k}" "others_held s s' b"
    using brelse_spec[OF log_invD(1)[OF assms(1)] assms(2,3)] by blast
  then have "log_inv s'" using quiet_log[of s s'] by (intro log_inv_cong[OF assms(1)]) auto
  with r show ?thesis by blast
qed

lemma log_set:
  assumes "log_inv s" "holds s b k" "length d = BSIZE"
  shows "\<exists>s'. bset b d s = Inr ((), s') \<and> log_inv s' \<and> bio_step s s' \<and> holds s' b k \<and> held s' = held s
    \<and> view s' = (view s)(k := d) \<and> dirty s' = dirty s \<and> memdisk s' = memdisk s \<and> dhist s' = dhist s
    \<and> others_held s s' b \<and> b_data (bufs s' ! b) = d"
proof -
  obtain s' where r: "bset b d s = Inr ((), s')" "bio_inv s'" "bio_step s s'" "holds s' b k" "held s' = held s"
      "view s' = (view s)(k := d)" "dirty s' = dirty s" "memdisk s' = memdisk s" "dhist s' = dhist s"
      "others_held s s' b" "b_data (bufs s' ! b) = d"
    using bset_spec[OF log_invD(1)[OF assms(1)] assms(2,3)] by blast
  then have "log_inv s'" using bio_step_log[of s s'] bio_step_disksize[of s s'] by (intro log_inv_cong[OF assms(1)]) auto
  with r show ?thesis by blast
qed

lemma update_held:
  assumes inv: "log_inv s" and h: "holds s b k" and k: "k \<notin> log_area (log s)" and len: "length d = BSIZE"
    and room: "lg_n (log s) < int (lg_size (log s)) - 1" "1 \<le> lg_outstanding (log s)"
  shows "\<exists>s'. sq (bset b d) (sq (log_write b) (brelse b)) s = Inr ((), s') \<and> log_inv s' \<and> log_step s s'
    \<and> held s' = held s - {k} \<and> view s' = (view s)(k := d) \<and> memdisk s' = memdisk s \<and> dhist s' = dhist s
    \<and> log s' = add_block k (log s) \<and> others_held s s' b
    \<and> lg_n (log s') = (if k \<in> set (logged (log s)) then lg_n (log s) else lg_n (log s) + 1)"
proof -
  obtain t where t: "bset b d s = Inr ((), t)" "log_inv t" "bio_step s t" "holds t b k" "held t = held s"
      "view t = (view s)(k := d)" "dirty t = dirty s" "memdisk t = memdisk s" "dhist t = dhist s" "others_held s t b"
    using log_set[OF inv h len] by blast
  have lt: "log t = log s" using bio_step_log[OF t(3)] .
  obtain u where u: "log_write b t = Inr ((), u)" "log_inv u" "log_step t u" "holds u b k" "held u = held t" "settled u b"
      "view u = view t" "memdisk u = memdisk t" "dhist u = dhist t" "others_held t u b" "log u = add_block k (log s)"
      "lg_n (log u) = (if k \<in> set (logged (log s)) then lg_n (log s) else lg_n (log s) + 1)"
    using log_write_spec[OF t(2,4)] lt k room by auto
  obtain w where w: "brelse b u = Inr ((), w)" "log_inv w" "quiet u w" "held w = held u - {k}" "others_held u w b"
    using log_release[OF u(2,4,6)] by blast
  note q = quiet_log[OF w(3)]
  have "log_step s w" using bio_log_step[OF t(3)] u(3) q(7) by (meson log_step_trans)
  moreover have "others_held s w b"
    using t(10) u(10) w(5) unfolding others_held_def by metis
  ultimately show ?thesis using t u w q by auto
qed

lemma update_block:
  assumes inv: "log_inv s" and k: "k < disksize s" "k \<notin> held s" "k \<notin> log_area (log s)"
    and c: "card (held s) + nat (lg_n (log s)) < NBUF"
    and len: "length (f (view s k)) = BSIZE"
    and room: "lg_n (log s) < int (lg_size (log s)) - 1" "1 \<le> lg_outstanding (log s)"
  shows "\<exists>s'. bnd (bread 1 k) (\<lambda>b. bnd (bdata b) (\<lambda>d. sq (bset b (f d)) (sq (log_write b) (brelse b)))) s = Inr ((), s')
    \<and> log_inv s' \<and> log_step s s' \<and> held s' = held s \<and> view s' = (view s)(k := f (view s k))
    \<and> memdisk s' = memdisk s \<and> dhist s' = dhist s \<and> log s' = add_block k (log s)
    \<and> lg_n (log s') = (if k \<in> set (logged (log s)) then lg_n (log s) else lg_n (log s) + 1)"
proof -
  obtain b t where t: "bread 1 k s = Inr (b, t)" "log_inv t" "quiet s t" "holds t b k" "b_data (bufs t ! b) = view s k"
      "held t = insert k (held s)"
    using log_read[OF inv k(1,2) c] by blast
  note q = quiet_log[OF t(3)]
  obtain u where u: "sq (bset b (f (view s k))) (sq (log_write b) (brelse b)) t = Inr ((), u)" "log_inv u" "log_step t u"
     "held u = held t - {k}" "view u = (view t)(k := f (view s k))" "memdisk u = memdisk t" "dhist u = dhist t"
     "log u = add_block k (log t)" "lg_n (log u) = (if k \<in> set (logged (log t)) then lg_n (log t) else lg_n (log t) + 1)"
    using update_held[OF t(2,4), of "f (view s k)"] k(3) room len q(1) by auto
  then show ?thesis
    using t q k(2) log_step_trans[OF q(7) u(3)] by (simp add: bdata_def)
qed

subsection \<open>A concrete disk\<close>

definition demo_sb :: bytes where
  "demo_sb = put32 (put32 (replicate BSIZE 0) 12 30) 16 2"

definition demo_disk :: disk where
  "demo_disk k = (if k = 1 then demo_sb else replicate BSIZE 0)"

definition fresh_log :: log_state where
  "fresh_log = \<lparr>lg_start = 2, lg_size = 30, lg_outstanding = 1, lg_committing = False, lg_dev = 1, lg_n = 0,
     lg_block = replicate LOGSIZE 0\<rparr>"

definition boot_log :: klog where
  "boot_log = boot_bio demo_disk 100 (klog.fields fresh_log)"

lemma get32_replicate [simp]: "k + 4 \<le> n \<Longrightarrow> get32 (replicate n 0) k = 0"
  by (simp add: get32_def)

lemma demo_sb_of: "sb_logstart (sb_of demo_sb) = 2" "sb_nlog (sb_of demo_sb) = 30" "length demo_sb = BSIZE"
  by (simp_all add: sb_of_def word_at_def demo_sb_def BSIZE_def le_access)

lemma demo_disk_len: "length (demo_disk k) = BSIZE"
  by (simp add: demo_disk_def demo_sb_of)

lemma boot_log_fields:
  "log boot_log = fresh_log" "disksize boot_log = 100" "memdisk boot_log = demo_disk" "dhist boot_log = []"
  by (simp_all add: boot_log_def boot_bio_def klog.defs)

lemma boot_log_abs:
  "bio_inv boot_log" "held boot_log = {}" "Collect (dirty boot_log) = {}" "view boot_log = demo_disk"
  unfolding boot_log_def using boot_bio_inv[OF demo_disk_len] by simp_all

lemma boot_log_inv: "log_inv boot_log" "sb_matches boot_log"
proof -
  have "head_n (demo_disk 2) = 0" by (simp add: demo_disk_def head_n_def BSIZE_def)
  moreover have "log_geom boot_log"
    by (simp add: log_geom_def boot_log_fields fresh_log_def logged_def LOGSIZE_def)
  ultimately show "log_inv boot_log"
    using boot_log_abs by (simp add: log_inv_def boot_log_fields fresh_log_def logged_def)
  show "sb_matches boot_log"
    by (simp add: sb_matches_def boot_log_fields fresh_log_def logged_def log_area_def demo_disk_def demo_sb_of)
qed

text \<open>A transaction of one block.\<close>

definition demo_write :: "('x klog_scheme, unit) kmon" where
  "demo_write = bnd (bread 1 50) (\<lambda>b. bnd (bdata b) (\<lambda>d. sq (bset b (replicate BSIZE 7)) (sq (log_write b) (brelse b))))"

lemma demo_write_run:
  "\<exists>s. demo_write boot_log = Inr ((), s) \<and> log_inv s \<and> held s = {} \<and> sb_matches s \<and> log_area (log s) = {2..<32}
    \<and> view s = demo_disk(50 := replicate BSIZE 7) \<and> memdisk s = demo_disk \<and> dhist s = []
    \<and> lg_outstanding (log s) = 1 \<and> \<not> lg_committing (log s)"
proof -
  obtain s where s: "demo_write boot_log = Inr ((), s)" "log_inv s" "log_step boot_log s" "held s = held boot_log"
      "view s = (view boot_log)(50 := replicate BSIZE 7)" "memdisk s = memdisk boot_log" "dhist s = dhist boot_log"
      "log s = add_block 50 (log boot_log)"
    unfolding demo_write_def using update_block[OF boot_log_inv(1), of 50 "\<lambda>_. replicate BSIZE 7"] boot_log_abs(2)
    by (auto simp: boot_log_fields fresh_log_def log_area_def NBUF_def)
  moreover have "sb_matches s"
    using s(3)
    by (simp add: sb_matches_def s(6,8) log_step_def boot_log_fields add_block_def Let_def fresh_log_def
        log_slot_def log_area_def logged_def demo_disk_def demo_sb_of LOGSIZE_def)
      (simp add: eval_nat_numeral One_nat_def)
  ultimately show ?thesis
    using boot_log_abs
    by (auto simp: boot_log_fields add_block_def Let_def fresh_log_def log_area_def)
qed

subsection \<open>Theorems\<close>

text \<open>
  C1. Crash atomicity of the log. From any state in which the log is consistent (the blocks in the
  log header are exactly the pinned ones, lie outside the log, and the header on disk is empty), and no
  buffer is held, \<open>commit\<close> returns, and every block outside the log is then on disk with the contents
  the kernel saw. If the machine stops after any number \<open>k\<close> of the block writes of this commit, then
  the \<open>initlog\<close> of the next boot returns, and it leaves either every block outside the log as it was on
  disk before the commit, or every such block as the transaction wrote it.
\<close>

theorem commit_crash_atomic:
  assumes "log_inv s" "held s = {}" "sb_matches s"
  shows "\<exists>s' ws. commit s = Inr ((), s') \<and> dhist s' = dhist s @ ws \<and> log_inv s'
    \<and> (\<forall>m. m \<notin> log_area (log s) \<longrightarrow> memdisk s' m = view s m)
    \<and> (\<forall>k (t :: klog). booted (apply_writes (take k ws) (memdisk s)) t \<longrightarrow> disksize t = disksize s \<longrightarrow>
        (\<exists>t'. initlog 1 t = Inr ((), t')
          \<and> ((\<forall>m. m \<notin> log_area (log s) \<longrightarrow> memdisk t' m = memdisk s m)
             \<or> (\<forall>m. m \<notin> log_area (log s) \<longrightarrow> memdisk t' m = view s m))))"
proof -
  let ?ws = "if lg_n (log s) > 0 then commit_writes (log s) (view s) else []"
  obtain s' where s': "commit s = Inr ((), s')" "log_inv s'" "wrote s ?ws s'"
      "\<forall>m. m \<notin> log_area (log s) \<longrightarrow> memdisk s' m = view s m"
    using commit_runs[OF assms(1,2)] by blast
  have "\<exists>t'. initlog 1 t = Inr ((), t') \<and> ((\<forall>m. m \<notin> log_area (log s) \<longrightarrow> memdisk t' m = memdisk s m)
      \<or> (\<forall>m. m \<notin> log_area (log s) \<longrightarrow> memdisk t' m = view s m))"
    if "booted (apply_writes (take k ?ws) (memdisk s)) t" "disksize t = disksize s" for k and t :: klog
  proof -
    obtain j where "take k ?ws = take j (commit_writes (log s) (view s))"
      by (metis take_Nil take0)
    with reboot_after_commit[OF assms, of j t] that show ?thesis by (cases "j \<le> nat (lg_n (log s))") auto
  qed
  with s' show ?thesis unfolding wrote_def by blast
qed

theorem commit_crash_atomic_witness:
  "\<exists>s s' ws. demo_write boot_log = Inr ((), s) \<and> commit s = Inr ((), s') \<and> dhist s' = ws
     \<and> memdisk s' 50 = replicate BSIZE 7 \<and> memdisk s 50 = replicate BSIZE 0"
proof -
  obtain s where s: "demo_write boot_log = Inr ((), s)" "log_inv s" "held s = {}" "sb_matches s"
      "log_area (log s) = {2..<32}" "view s = demo_disk(50 := replicate BSIZE 7)" "memdisk s = demo_disk"
    using demo_write_run by blast
  from commit_crash_atomic[OF s(2-4)] s show ?thesis
    by (auto simp: demo_disk_def)
qed

text \<open>
  C5. Recovery can itself be interrupted. If the machine stops after any number of the block writes of
  \<open>initlog\<close> at boot, the \<open>initlog\<close> of the boot after that returns with the same disk as the first one
  would have left.
\<close>

theorem recovery_idempotent:
  assumes "booted d t" "log_disk (sb_logstart (sb_of (d 1))) (sb_nlog (sb_of (d 1))) (disksize t) d"
    "0 < sb_nlog (sb_of (d 1))" "1 < disksize t" "initlog 1 t = Inr ((), t')" "dhist t' = dhist t @ ws"
    "1 \<notin> fst ` set ws" "booted (apply_writes (take j ws) d) u" "disksize u = disksize t"
  shows "\<exists>u'. initlog 1 u = Inr ((), u') \<and> memdisk u' = memdisk t'"
proof -
  let ?st = "sb_logstart (sb_of (d 1))" and ?sz = "sb_nlog (sb_of (d 1))"
  have t': "memdisk t' = recover ?st d" "ws = rec_writes ?st d"
    using initlog_spec[OF assms(1) refl refl assms(2,4,3)] assms(5,6) by (auto simp: wrote_def)
  let ?d = "apply_writes (take j ws) d"
  have one: "?d 1 = d 1" using assms(7) in_set_takeD[of _ j ws] by (fastforce intro: apply_writes_other)
  have "log_disk ?st ?sz (disksize u) ?d"
    using log_disk_interrupted[OF assms(2,3)] t'(2) assms(9) by simp
  then obtain u' where "initlog 1 u = Inr ((), u')" "memdisk u' = recover ?st ?d"
    using initlog_spec[OF assms(8), of ?st ?sz] one assms(3,4,9) by auto
  with recover_interrupted[OF assms(2,3)] t' show ?thesis by auto
qed

theorem recovery_idempotent_witness:
  "\<exists>t' u'. initlog 1 boot_log = Inr ((), t') \<and> initlog 1 boot_log = Inr ((), u') \<and> memdisk u' = memdisk t'
     \<and> dhist t' = [(2, put32 (demo_disk 2) 0 0)]"
proof -
  have b: "booted demo_disk boot_log"
    using boot_log_abs by (simp add: booted_def boot_log_fields fresh_log_def del: Collect_empty_eq)
  have h: "head_n (demo_disk 2) = 0" by (simp add: demo_disk_def head_n_def BSIZE_def)
  have sb: "sb_logstart (sb_of (demo_disk 1)) = 2" "sb_nlog (sb_of (demo_disk 1)) = 30"
    by (simp_all add: demo_disk_def demo_sb_of)
  have l: "log_disk 2 30 100 demo_disk"
    using h demo_disk_len by (simp add: log_disk_def LOGSIZE_def)
  obtain t' where t': "initlog 1 boot_log = Inr ((), t')" "wrote boot_log (rec_writes 2 demo_disk) t'"
    using initlog_spec[OF b sb] l by (auto simp: boot_log_fields)
  have w: "rec_writes 2 demo_disk = [(2, put32 (demo_disk 2) 0 0)]" using h by (simp add: rec_writes_def)
  have "\<exists>u'. initlog 1 boot_log = Inr ((), u') \<and> memdisk u' = memdisk t'"
    by (rule recovery_idempotent[OF b, of t' "rec_writes 2 demo_disk" 0 boot_log])
      (use l sb t' b w in \<open>simp_all add: boot_log_fields wrote_def\<close>)
  with t' w show ?thesis by (auto simp: wrote_def boot_log_fields)
qed

text \<open>
  C25. Absorption in \<open>log_write\<close>. For a buffer held by the caller whose block is outside the log, while
  the transaction has room, \<open>log_write\<close> returns; it keeps the log consistent, changes neither the disk nor
  what any block reads as, pins the block, and takes a new slot of the log exactly when the block is not
  in the transaction yet.
\<close>

theorem log_write_absorbs:
  assumes "log_inv s" "holds s b k" "k \<notin> log_area (log s)"
    "lg_n (log s) < int (lg_size (log s)) - 1" "1 \<le> lg_outstanding (log s)"
  shows "\<exists>s'. log_write b s = Inr ((), s') \<and> log_inv s' \<and> view s' = view s \<and> memdisk s' = memdisk s \<and> dirty s' k
    \<and> set (logged (log s')) = insert k (set (logged (log s)))
    \<and> lg_n (log s') = (if k \<in> set (logged (log s)) then lg_n (log s) else lg_n (log s) + 1)"
proof -
  obtain s' where s': "log_write b s = Inr ((), s')" "log_inv s'" "view s' = view s" "memdisk s' = memdisk s"
      "set (logged (log s')) = insert k (set (logged (log s)))"
      "lg_n (log s') = (if k \<in> set (logged (log s)) then lg_n (log s) else lg_n (log s) + 1)"
    using log_write_spec[OF assms] by blast
  then have "dirty s' k" using log_invD(4)[OF s'(2)] by blast
  with s' show ?thesis by blast
qed

theorem log_write_absorbs_witness:
  "\<exists>b t s'. bread 1 50 boot_log = Inr (b, t) \<and> log_write b t = Inr ((), s') \<and> set (logged (log s')) = {50}"
proof -
  obtain b t where t: "bread 1 50 boot_log = Inr (b, t)" "log_inv t" "quiet boot_log t" "holds t b 50"
    using log_read[OF boot_log_inv(1), of 50] boot_log_abs(2) by (auto simp: boot_log_fields fresh_log_def NBUF_def)
  have l: "log t = fresh_log" using quiet_log(1)[OF t(3)] by (simp add: boot_log_fields)
  from log_write_absorbs[OF t(2,4)] t(1) show ?thesis
    by (auto simp: l fresh_log_def log_area_def logged_def)
qed

lemma log_inv_counters:
  assumes "log_inv s" "\<And>l. lg_n (f l) = lg_n l" "\<And>l. lg_block (f l) = lg_block l" "\<And>l. lg_start (f l) = lg_start l"
    "\<And>l. lg_size (f l) = lg_size l" "\<And>l. lg_dev (f l) = lg_dev l"
  shows "log_inv (upd_log f s)"
  using assms by (simp add: log_inv_def log_geom_def logged_def log_area_def)

text \<open>
  C10. Durability. When the last outstanding operation ends, \<open>end_op\<close> returns, the log is consistent and
  empty, no commit is in progress, and every block outside the log is on disk with the contents the
  kernel saw when \<open>end_op\<close> was called.
\<close>

theorem end_op_durable:
  assumes "log_inv s" "held s = {}" "lg_outstanding (log s) = 1" "\<not> lg_committing (log s)"
  shows "\<exists>s'. end_op s = Inr ((), s') \<and> log_inv s' \<and> held s' = {} \<and> lg_n (log s') = 0 \<and> lg_outstanding (log s') = 0
    \<and> \<not> lg_committing (log s') \<and> (\<forall>m. m \<notin> log_area (log s) \<longrightarrow> memdisk s' m = view s m \<and> view s' m = view s m)"
proof -
  let ?t = "upd_log (\<lambda>l. l\<lparr>lg_committing := True\<rparr>) (upd_log (\<lambda>l. l\<lparr>lg_outstanding := lg_outstanding l - 1\<rparr>) s)"
  have "log_inv ?t" by (intro log_inv_counters assms(1)) simp_all
  then obtain u where u: "commit ?t = Inr ((), u)" "log_inv u" "held u = {}" "log u = (log ?t)\<lparr>lg_n := 0\<rparr>"
      "\<forall>m. m \<notin> log_area (log ?t) \<longrightarrow> memdisk u m = view ?t m \<and> view u m = view ?t m"
    using commit_runs[of ?t] assms(2) by auto
  let ?u = "upd_log (\<lambda>l. l\<lparr>lg_committing := False\<rparr>) u"
  let ?w = "wakeup1 ChLog ?u"
  have iu: "log_inv ?u" by (intro log_inv_counters u(2)) simp_all
  note re = relinked_wakeup[OF log_invD(1)[OF iu], of ChLog]
  note ra = relinked_abs[OF re]
  have lw: "log ?w = log ?u" "memdisk ?w = memdisk u" "disksize ?w = disksize ?u"
    using bio_step_log[OF ra(5)] re by (auto simp: relinked_def)
  have "log_inv ?w" using ra log_invD(1)[OF iu] lw by (intro log_inv_cong[OF iu]) simp_all
  moreover have "end_op s = Inr ((), ?w)" using u(1) assms(3,4) by (simp add: end_op_def wakeup_def)
  ultimately show ?thesis using u lw ra assms(3) by (auto simp: log_area_def)
qed

theorem end_op_durable_witness:
  "\<exists>s s'. demo_write boot_log = Inr ((), s) \<and> end_op s = Inr ((), s') \<and> memdisk s' 50 = replicate BSIZE 7"
proof -
  obtain s where s: "demo_write boot_log = Inr ((), s)" "log_inv s" "held s = {}" "log_area (log s) = {2..<32}"
      "view s = demo_disk(50 := replicate BSIZE 7)" "lg_outstanding (log s) = 1" "\<not> lg_committing (log s)"
    using demo_write_run by blast
  from end_op_durable[OF s(2,3,6,7)] s show ?thesis by auto
qed

text \<open>
  Admission. \<open>begin_op\<close> lets an operation in exactly when no commit is in progress and ten more
  blocks for it and for every operation already inside still fit in \<open>LOGSIZE\<close>; otherwise the caller goes
  to sleep on the log, and the log is as before.
\<close>

theorem begin_op_admits:
  "begin_op s = (if \<not> lg_committing (log s) \<and> lg_n (log s) + (lg_outstanding (log s) + 1) * 10 \<le> 30
     then Inr ((), s\<lparr>log := (log s)\<lparr>lg_outstanding := lg_outstanding (log s) + 1\<rparr>\<rparr>)
     else Inl (Asleep ChLog, upd_myproc (sleep_enter ChLog) s))"
  by (simp add: begin_op_def MAXOPBLOCKS_def LOGSIZE_def upd_log_def)

end
