(* ===== verification/Trans.thy ===== *)
theory Trans
  imports Crash
begin

text \<open>
  What the file system relies on inside a transaction, stated once for its clients: \<open>tx m s\<close> says that
  the log and the buffer cache are consistent, that an operation is under way, and that \<open>m\<close> more blocks
  fit into the log and into the cache. Reading a block gives its current contents; changing one, the
  sequence \<open>bread\<close>, change, \<open>log_write\<close>, \<open>brelse\<close> of \<^verbatim>\<open>kernel/fs.c\<close>, takes at most one place.
\<close>

definition tx :: "nat \<Rightarrow> 'x klog_scheme \<Rightarrow> bool" where
  "tx m s \<longleftrightarrow> log_inv s \<and> 1 \<le> lg_outstanding (log s) \<and> lg_n (log s) + int m < int (lg_size (log s))
     \<and> card (held s) + nat (lg_n (log s)) + m < NBUF"

text \<open>What stays the same: everything but the log, the cache and the state of sleeping processes.\<close>

definition tx_step :: "'x klog_scheme \<Rightarrow> 'x klog_scheme \<Rightarrow> bool" where
  "tx_step s s' \<longleftrightarrow> log_step s s' \<and> memdisk s' = memdisk s \<and> dhist s' = dhist s \<and> held s' = held s
     \<and> log_area (log s') = log_area (log s)"

definition modify :: "nat \<Rightarrow> (bytes \<Rightarrow> bytes) \<Rightarrow> ('x klog_scheme, unit) kmon" where
  "modify k f = bnd (bread 1 k) (\<lambda>b. bnd (bdata b) (\<lambda>d. sq (bset b (f d)) (sq (log_write b) (brelse b))))"

definition usable :: "'x klog_scheme \<Rightarrow> nat \<Rightarrow> bool" where
  "usable s k \<longleftrightarrow> k < disksize s \<and> k \<notin> held s \<and> k \<notin> log_area (log s)"

lemma finite_held: "finite (held s)"
proof -
  have "held s \<subseteq> (\<lambda>i. b_blockno (bufs s ! i)) ` {..<NBUF}" by (auto simp: held_def bkey_def)
  then show ?thesis by (rule finite_subset) simp
qed

lemma tx_step_refl [simp]: "tx_step s s"
  by (simp add: tx_step_def)

lemma tx_step_trans [trans]: "tx_step s t \<Longrightarrow> tx_step t u \<Longrightarrow> tx_step s u"
  by (auto simp: tx_step_def intro: log_step_trans)

lemma tx_weaken: "tx m s \<Longrightarrow> n \<le> m \<Longrightarrow> tx n s"
  by (simp add: tx_def)

lemma usable_step: "tx_step s s' \<Longrightarrow> usable s' k = usable s k"
  by (simp add: usable_def tx_step_def log_step_def)

lemma add_block_simps [simp]:
  "lg_start (add_block k l) = lg_start l" "lg_size (add_block k l) = lg_size l" "lg_dev (add_block k l) = lg_dev l"
  "lg_outstanding (add_block k l) = lg_outstanding l" "log_area (add_block k l) = log_area l"
  by (simp_all add: add_block_def log_area_def Let_def)

lemma view_len: "log_inv s \<Longrightarrow> length (view s k) = BSIZE"
  by (rule length_view) (simp add: log_inv_def)

lemma modify_spec:
  assumes "tx (Suc m) s" "usable s k" "length (f (view s k)) = BSIZE"
  shows "\<exists>s'. modify k f s = Inr ((), s') \<and> tx m s' \<and> tx_step s s' \<and> view s' = (view s)(k := f (view s k))"
proof -
  have n: "lg_n (log s) < int (lg_size (log s)) - 1" "1 \<le> lg_outstanding (log s)" "0 \<le> lg_n (log s)"
    using assms(1) by (auto simp: tx_def log_inv_def log_geom_def)
  have c: "card (held s) + nat (lg_n (log s)) < NBUF" "log_inv s" using assms(1) by (simp_all add: tx_def)
  have u: "k < disksize s" "k \<notin> held s" "k \<notin> log_area (log s)" using assms(2) by (simp_all add: usable_def)
  obtain s' where r: "modify k f s = Inr ((), s')" "log_inv s'" "log_step s s'" "held s' = held s"
      "view s' = (view s)(k := f (view s k))" "memdisk s' = memdisk s" "dhist s' = dhist s" "log s' = add_block k (log s)"
      "lg_n (log s') = (if k \<in> set (logged (log s)) then lg_n (log s) else lg_n (log s) + 1)"
    unfolding modify_def using update_block[where f = f, OF c(2) u c(1) assms(3) n(1,2)] by blast
  have le: "lg_n (log s') \<le> lg_n (log s) + 1" "lg_outstanding (log s') = lg_outstanding (log s)"
    "lg_size (log s') = lg_size (log s)" by (simp add: r(9), simp add: r(8), simp add: r(8))
  have "nat (lg_n (log s')) \<le> Suc (nat (lg_n (log s)))" using le(1) n(3) by linarith
  then have "tx m s'" using assms(1) r(2,4) le by (simp add: tx_def)
  moreover have "tx_step s s'" using r by (simp add: tx_step_def)
  ultimately show ?thesis using r(1,5) by blast
qed

text \<open>Reading a block, and going on with it held.\<close>

lemma tx_read:
  assumes "tx (Suc m) s" "k < disksize s" "k \<notin> held s"
  obtains b t where "bread 1 k s = Inr (b, t)" "tx m t" "quiet s t" "holds t b k" "settled t b"
    "b_data (bufs t ! b) = view s k" "held t = insert k (held s)"
proof -
  have i: "log_inv s" "card (held s) + nat (lg_n (log s)) < NBUF" using assms(1) by (simp_all add: tx_def)
  obtain b t where r: "bread 1 k s = Inr (b, t)" "log_inv t" "quiet s t" "holds t b k" "settled t b"
      "b_data (bufs t ! b) = view s k" "held t = insert k (held s)"
    using log_read[OF i(1) assms(2,3) i(2)] by blast
  have "card (held t) = Suc (card (held s))" using r(7) assms(3) finite_held[of s] by simp
  then have "tx m t" using assms(1) r(2) quiet_log[OF r(3)] by (simp add: tx_def)
  with r that show ?thesis by blast
qed

lemma tx_read_data:
  assumes "tx (Suc m) s" "usable s k" "bread 1 k s = Inr (b, t)"
  shows "b_data (bufs t ! b) = view s k"
proof -
  have u: "k < disksize s" "k \<notin> held s" using assms(2) by (simp_all add: usable_def)
  show ?thesis using tx_read[OF assms(1) u] assms(3) by auto
qed

lemma tx_release:
  assumes "tx m s" "holds s b k" "settled s b"
  obtains t where "brelse b s = Inr ((), t)" "tx m t" "quiet s t" "held t = held s - {k}"
proof -
  obtain t where r: "brelse b s = Inr ((), t)" "log_inv t" "quiet s t" "held t = held s - {k}"
    using log_release[of s b k] assms by (auto simp: tx_def)
  have "card (held t) \<le> card (held s)" using r(4) finite_held[of s] by (simp add: card_Diff1_le)
  then have "tx m t" using assms(1) r(2) quiet_log[OF r(3)] by (simp add: tx_def)
  with r that show ?thesis by blast
qed

text \<open>Reading a block and letting it go.\<close>

definition look :: "nat \<Rightarrow> ('x kbio_scheme, bytes) kmon" where
  "look k = bnd (bread 1 k) (\<lambda>b. bnd (bdata b) (\<lambda>d. sq (brelse b) (ret d)))"

lemma look_spec:
  assumes "tx (Suc m) s" "k < disksize s" "k \<notin> held s"
  shows "\<exists>s'. look k s = Inr (view s k, s') \<and> tx (Suc m) s' \<and> tx_step s s' \<and> view s' = view s"
proof -
  obtain b t where t: "bread 1 k s = Inr (b, t)" "tx m t" "quiet s t" "holds t b k" "settled t b"
      "b_data (bufs t ! b) = view s k" "held t = insert k (held s)"
    using tx_read[OF assms] .
  obtain u where u: "brelse b t = Inr ((), u)" "tx m u" "quiet t u" "held u = held t - {k}"
    using tx_release[OF t(2,4,5)] .
  have q: "quiet s u" using t(3) u(3) by (rule quiet_trans)
  have h: "held u = held s" using t(7) u(4) assms(3) by auto
  have "tx (Suc m) u" using assms(1) u(2) h quiet_log[OF q] by (simp add: tx_def)
  moreover have "tx_step s u" using quiet_log[OF q] h by (simp add: tx_step_def)
  moreover have "look k s = Inr (view s k, u)" using t(1,6) u(1) by (simp add: look_def bdata_def)
  ultimately show ?thesis using quiet_log(2)[OF q] by blast
qed

text \<open>A state as after booting, with an operation under way, on a disk of 100 blocks whose log is empty.\<close>

definition fresh_on :: "disk \<Rightarrow> 'x klog_scheme \<Rightarrow> bool" where
  "fresh_on md s \<longleftrightarrow> s = boot_bio md 100 (kbio.more s) \<and> log s = fresh_log"

lemma fresh_tx:
  assumes "fresh_on md s" "\<And>k. length (md k) = BSIZE" "head_n (md 2) = 0"
  shows "tx 20 s" "view s = md" "held s = {}" "usable s k \<longleftrightarrow> k < 100 \<and> k \<notin> {2..<32}" "memdisk s = md"
    "myproc s = first_proc"
proof -
  have s: "s = boot_bio md 100 (kbio.more s)" and l: "log s = fresh_log" using assms(1) by (auto simp: fresh_on_def)
  note b = boot_bio_inv[where md = md and n = 100 and x = "kbio.more s", OF assms(2), folded s]
  have d: "disksize s = 100" by (subst s) (simp add: boot_bio_def)
  show m: "memdisk s = md" by (subst s) (simp add: boot_bio_def)
  show "view s = md" "held s = {}" using b by simp_all
  show "myproc s = first_proc" by (subst s) (simp add: boot_bio_def myproc_def)
  have "log_geom s" by (simp add: log_geom_def l d fresh_log_def logged_def LOGSIZE_def)
  then have "log_inv s" using b assms(3) by (simp add: log_inv_def l m fresh_log_def logged_def)
  then show "tx 20 s" using b by (simp add: tx_def l fresh_log_def NBUF_def)
  show "usable s k \<longleftrightarrow> k < 100 \<and> k \<notin> {2..<32}" using b by (simp add: usable_def d l log_area_def fresh_log_def)
qed

subsection \<open>The room in the log\<close>

lemma modify_new:
  assumes inv: "log_inv s" and k: "usable s k" "k \<notin> set (logged (log s))" and len: "length (f (view s k)) = BSIZE"
    and h: "held s = {}" and room: "lg_n (log s) < 29" "lg_size (log s) = 30" "1 \<le> lg_outstanding (log s)"
  shows "\<exists>s'. modify k f s = Inr ((), s') \<and> log_inv s' \<and> tx_step s s' \<and> lg_n (log s') = lg_n (log s) + 1 \<and>
    set (logged (log s')) = insert k (set (logged (log s))) \<and> lg_size (log s') = 30 \<and>
    lg_outstanding (log s') = lg_outstanding (log s)"
proof -
  have u: "k < disksize s" "k \<notin> held s" "k \<notin> log_area (log s)" using k(1) by (simp_all add: usable_def)
  have c: "card (held s) + nat (lg_n (log s)) < NBUF" "lg_n (log s) < int (lg_size (log s)) - 1"
    using h room by (simp_all add: NBUF_def)
  obtain s' where r: "modify k f s = Inr ((), s')" "log_inv s'" "log_step s s'" "held s' = held s"
      "memdisk s' = memdisk s" "dhist s' = dhist s" "log s' = add_block k (log s)"
      "lg_n (log s') = (if k \<in> set (logged (log s)) then lg_n (log s) else lg_n (log s) + 1)"
    unfolding modify_def using update_block[where f = f, OF inv u c(1) len c(2) room(3)] by blast
  have "disksize s' = disksize s" using r(3) by (simp add: log_step_def)
  then have "set (logged (log s')) = insert k (set (logged (log s)))"
    using add_block_geom[OF log_invD(2,3)[OF inv] u(1,3) c(2) r(7)] by blast
  moreover have "tx_step s s'" using r by (simp add: tx_step_def)
  ultimately show ?thesis using r k(2) room by (simp add: r(7))
qed

lemma modify_full:
  assumes inv: "log_inv s" and k: "usable s k" and len: "length (f (view s k)) = BSIZE"
    and h: "held s = {}" and full: "lg_n (log s) = 29" "lg_size (log s) = 30"
  shows "\<exists>t. modify k f s = Inl (Panic ''too big a transaction'', t)"
proof -
  have u: "k < disksize s" "k \<notin> held s" using k by (simp_all add: usable_def)
  obtain b t where t: "bread 1 k s = Inr (b, t)" "log_inv t" "quiet s t" "holds t b k" "b_data (bufs t ! b) = view s k"
    using log_read[OF inv u] h full by (auto simp: NBUF_def)
  obtain v where v: "bset b (f (view s k)) t = Inr ((), v)" "bio_step t v" using log_set[OF t(2,4) len] by blast
  have "log v = log s" using bio_step_log[OF v(2)] quiet_log(1)[OF t(3)] by simp
  then have "log_write b v = Inl (Panic ''too big a transaction'', v)" using full by (simp add: log_write_def LOGSIZE_def)
  then show ?thesis using t(1,5) v(1) by (simp add: modify_def bdata_def sq_fail)
qed

lemma modify_many:
  assumes "log_inv s" "held s = {}" "1 \<le> lg_outstanding (log s)" "lg_size (log s) = 30" "0 \<le> lg_n (log s)"
    "distinct ks" "set ks \<inter> set (logged (log s)) = {}" "\<forall>k \<in> set ks. usable s k" "\<forall>d. length d = BSIZE \<longrightarrow> length (f d) = BSIZE"
    "lg_n (log s) \<le> 29"
  shows "if lg_n (log s) + int (length ks) \<le> 29
    then \<exists>s'. for_all ks (\<lambda>k. modify k f) s = Inr ((), s') \<and> lg_n (log s') = lg_n (log s) + int (length ks)
    else \<exists>t. for_all ks (\<lambda>k. modify k f) s = Inl (Panic ''too big a transaction'', t)"
  using assms
proof (induction ks arbitrary: s)
  case Nil
  then show ?case by simp
next
  case (Cons k ks)
  have len: "length (f (view s k)) = BSIZE" using Cons.prems(1,9) view_len by blast
  show ?case
  proof (cases "lg_n (log s) < 29")
    case True
    from modify_new[where k = k and f = f, OF Cons.prems(1) _ _ len Cons.prems(2) True Cons.prems(4,3)] Cons.prems(7,8)
    obtain u where u: "modify k f s = Inr ((), u)" "log_inv u" "tx_step s u" "lg_n (log u) = lg_n (log s) + 1"
      "set (logged (log u)) = insert k (set (logged (log s)))" "lg_size (log u) = 30" "lg_outstanding (log u) = lg_outstanding (log s)"
      by auto
    have "held u = {}" using u(3) Cons.prems(2) by (simp add: tx_step_def)
    moreover have "\<forall>k \<in> set ks. usable u k" using usable_step[OF u(3)] Cons.prems(8) by simp
    moreover have "set ks \<inter> set (logged (log u)) = {}" using u(5) Cons.prems(6,7) by auto
    ultimately have "if lg_n (log u) + int (length ks) \<le> 29
      then \<exists>s'. for_all ks (\<lambda>k. modify k f) u = Inr ((), s') \<and> lg_n (log s') = lg_n (log u) + int (length ks)
      else \<exists>t. for_all ks (\<lambda>k. modify k f) u = Inl (Panic ''too big a transaction'', t)"
      using Cons.IH[OF u(2)] u Cons.prems True by simp
    then show ?thesis using u(1,4) by (auto split: if_splits)
  next
    case False
    then have n: "lg_n (log s) = 29" using Cons.prems(10) by simp
    from modify_full[where k = k and f = f, OF Cons.prems(1) _ len Cons.prems(2) n Cons.prems(4)] Cons.prems(8)
    show ?thesis using n by (auto simp: sq_fail)
  qed
qed

text \<open>
  C37. The reservation of \<open>begin_op\<close> is one block too large. With the log of 30 blocks that \<^verbatim>\<open>mkfs\<close> makes, an empty log
  admits three operations, which may then change ten blocks each. Changing up to 29 distinct blocks
  succeeds and logs each of them; the thirtieth panics in \<open>log_write\<close> with "too big a transaction".
\<close>

theorem three_ops_overflow:
  assumes "log_inv s" "held s = {}" "lg_n (log s) = 0" "lg_outstanding (log s) = 0" "\<not> lg_committing (log s)"
    "lg_size (log s) = 30" "distinct ks" "\<forall>k \<in> set ks. k < disksize s \<and> k \<notin> log_area (log s)"
    "\<forall>d. length d = BSIZE \<longrightarrow> length (f d) = BSIZE"
  shows "if length ks < 3 * nat MAXOPBLOCKS
    then \<exists>s'. sq begin_op (sq begin_op (sq begin_op (for_all ks (\<lambda>k. modify k f)))) s = Inr ((), s') \<and> lg_n (log s') = int (length ks)
    else \<exists>t. sq begin_op (sq begin_op (sq begin_op (for_all ks (\<lambda>k. modify k f)))) s = Inl (Panic ''too big a transaction'', t)"
proof -
  let ?s = "upd_log (\<lambda>l. l\<lparr>lg_outstanding := 3\<rparr>) s"
  have b: "sq begin_op (sq begin_op (sq begin_op m)) s = m ?s" for m :: "('a klog_scheme, unit) kmon"
    using assms(3-5) by (simp add: begin_op_def upd_log_def MAXOPBLOCKS_def LOGSIZE_def)
  have log_upd: "log ?s = (log s)\<lparr>lg_outstanding := 3\<rparr>" by (simp add: upd_log_def)
  have "log_inv ?s" using assms(1) by (intro log_inv_counters) simp_all
  moreover have "held ?s = {}" using assms(2) by (simp add: upd_log_def held_def)
  moreover have "logged (log ?s) = []" using assms(3) by (simp add: upd_log_def logged_def)
  moreover have "usable ?s k" if "k \<in> set ks" for k
    using that assms(2,8) by (simp add: usable_def upd_log_def held_def log_area_def)
  ultimately have "if int (length ks) \<le> 29
    then \<exists>s'. for_all ks (\<lambda>k. modify k f) ?s = Inr ((), s') \<and> lg_n (log s') = int (length ks)
    else \<exists>t. for_all ks (\<lambda>k. modify k f) ?s = Inl (Panic ''too big a transaction'', t)"
    using modify_many[of ?s ks f] assms by (auto simp: log_upd split: if_splits)
  then show ?thesis unfolding b by (auto simp: MAXOPBLOCKS_def split: if_splits)
qed

theorem three_ops_overflow_witness:
  "\<exists>t. sq begin_op (sq begin_op (sq begin_op (for_all [50..<80] (\<lambda>k. modify k (\<lambda>d. d)))))
     (upd_log (\<lambda>l. l\<lparr>lg_outstanding := 0\<rparr>) boot_log) = Inl (Panic ''too big a transaction'', t)"
proof -
  let ?s = "upd_log (\<lambda>l. l\<lparr>lg_outstanding := 0\<rparr>) boot_log"
  have "log_inv ?s" by (intro log_inv_counters boot_log_inv(1)) simp_all
  moreover have "held ?s = {}" using boot_log_abs(2) by (simp add: upd_log_def held_def)
  ultimately show ?thesis
    using three_ops_overflow[of ?s "[50..<80]" "\<lambda>d. d"]
    by (simp add: upd_log_def boot_log_fields fresh_log_def log_area_def MAXOPBLOCKS_def)
qed

end
