(* ===== verification/Ring.thy ===== *)
theory Ring
  imports Prelude
begin

text \<open>
  Ring buffers indexed by free-running 32-bit counters, as in \<^verbatim>\<open>kernel/pipe.c\<close> (\<open>nread\<close>, \<open>nwrite\<close>) and
  \<^verbatim>\<open>kernel/console.c\<close> (\<open>input.r\<close>, \<open>input.w\<close>, \<open>input.e\<close>): the counters are never reset, they wrap at
  \<open>2 ^ 32\<close>, and an element lives at the counter modulo the size of the buffer. The locale gives the
  queue such a buffer stands for; it applies because both sizes divide \<open>2 ^ 32\<close>.
\<close>

definition ring_index :: "nat \<Rightarrow> u32 \<Rightarrow> nat" where
  "ring_index n c = unat c mod n"

text \<open>The elements between two counters, oldest first.\<close>

definition ring_list :: "nat \<Rightarrow> 'a list \<Rightarrow> u32 \<Rightarrow> u32 \<Rightarrow> 'a list" where
  "ring_list n buf r w = map (\<lambda>i. buf ! ((unat r + i) mod n)) [0..<unat (w - r)]"

lemma length_ring_list [simp]: "length (ring_list n buf r w) = unat (w - r)"
  by (simp add: ring_list_def)

lemma ring_list_empty [simp]: "ring_list n buf r r = []"
  by (simp add: ring_list_def)

lemma unat_succ_diff:
  fixes r w :: u32
  assumes "unat (w - r) + 1 < 2 ^ 32"
  shows "unat (w + 1 - r) = unat (w - r) + 1"
proof -
  have e: "w + 1 - r = (w - r) + of_nat 1" by simp
  show ?thesis unfolding e using assms by (rule unat_add32)
qed

lemma unat_diff_succ:
  fixes r w :: u32
  assumes "r \<noteq> w"
  shows "unat (w - (r + 1)) = unat (w - r) - 1" "0 < unat (w - r)"
proof -
  have d: "w - r \<noteq> 0" using assms by simp
  then show "0 < unat (w - r)" by (simp add: unat_gt_0)
  have e: "w - (r + 1) = (w - r) - 1" by simp
  show "unat (w - (r + 1)) = unat (w - r) - 1" unfolding e using d by (rule unat_minus_one)
qed

lemma mod_add_inj:
  fixes a i j n :: nat
  assumes "i < n" "j < n" "(a + i) mod n = (a + j) mod n"
  shows "i = j"
proof -
  have "int n dvd int (a + i) - int (a + j)"
    using assms(3) by (simp only: mod_eq_dvd_iff[symmetric] zmod_int[symmetric])
  then have "int n dvd int i - int j" by simp
  then show ?thesis using assms(1,2) zdvd_imp_le[of "int n" "int i - int j"] zdvd_imp_le[of "int n" "int j - int i"]
    by (cases i j rule: linorder_cases) (auto simp: dvd_diff_commute)
qed

locale ring =
  fixes n :: nat
  assumes size: "0 < n" "n dvd 2 ^ 32" "n < 2 ^ 32"
begin

lemma index_shift: "unat (w :: u32) mod n = (unat r + unat (w - r)) mod n"
proof -
  have "unat w = unat (r + (w - r))" by simp
  also have "\<dots> = (unat r + unat (w - r)) mod 2 ^ 32" by (subst unat_word_ariths) simp
  finally have "unat w mod n = (unat r + unat (w - r)) mod 2 ^ 32 mod n" by (rule arg_cong)
  also have "\<dots> = (unat r + unat (w - r)) mod n" by (rule mod_mod_cancel[OF size(2)])
  finally show ?thesis .
qed

lemma push:
  assumes "unat (w - r) < n" "length buf = n"
  shows "ring_list n (buf[ring_index n w := x]) r (w + 1) = ring_list n buf r w @ [x]"
proof -
  have s: "unat (w + 1 - r) = unat (w - r) + 1" using assms(1) size(3) by (intro unat_succ_diff) simp
  have ix: "ring_index n w = (unat r + unat (w - r)) mod n" unfolding ring_index_def by (rule index_shift)
  have "ring_index n w \<noteq> (unat r + i) mod n" if "i < unat (w - r)" for i
    unfolding ix using mod_add_inj[of i n "unat (w - r)" "unat r"] that assms(1) by linarith
  then have "map (\<lambda>i. buf[ring_index n w := x] ! ((unat r + i) mod n)) [0..<unat (w - r)]
      = map (\<lambda>i. buf ! ((unat r + i) mod n)) [0..<unat (w - r)]" by (simp add: nth_list_update_neq)
  with assms(2) size(1) show ?thesis unfolding ring_list_def s by (simp add: ix)
qed

lemma pop:
  assumes "r \<noteq> w"
  shows "ring_list n buf r w = buf ! ring_index n r # ring_list n buf (r + 1) w"
proof -
  obtain m where m: "unat (w - r) = Suc m" "unat (w - (r + 1)) = m"
    using unat_diff_succ[OF assms] by (cases "unat (w - r)") auto
  have one: "unat (r + 1) mod n = (unat r + 1) mod n" using index_shift[of "r + 1" r] by simp
  have "(unat (r + 1) + i) mod n = (unat r + Suc i) mod n" for i
    using mod_add_cong[OF one refl, of i] by simp
  then show ?thesis unfolding ring_list_def m by (simp add: ring_index_def map_upt_Suc del: upt_Suc)
qed

text \<open>The last element, as the console's backspace removes it.\<close>

lemma pop_back:
  assumes "r \<noteq> w"
  shows "ring_list n buf r w = ring_list n buf r (w - 1) @ [buf ! ring_index n (w - 1)]"
proof -
  have e: "w - 1 - r = (w - r) - 1" by simp
  have m: "unat (w - r) = Suc (unat (w - 1 - r))"
    unfolding e using assms unat_diff_succ(2)[OF assms] by (simp add: unat_minus_one)
  have "ring_index n (w - 1) = (unat r + unat (w - 1 - r)) mod n" unfolding ring_index_def by (rule index_shift)
  then show ?thesis unfolding ring_list_def m by simp
qed

end

subsection \<open>Bounded queues\<close>

text \<open>
  The contract of a bounded first-in first-out queue: \<open>contents\<close> is the abstract value, \<open>put\<close> and
  \<open>get\<close> are the code's steps on its representation. \<open>take_out\<close> repeats \<open>get\<close>.
\<close>

primrec take_out :: "('q \<Rightarrow> 'a \<times> 'q) \<Rightarrow> nat \<Rightarrow> 'q \<Rightarrow> 'a list \<times> 'q" where
  "take_out get 0 q = ([], q)"
| "take_out get (Suc k) q = (let (x, q1) = get q; (xs, q2) = take_out get k q1 in (x # xs, q2))"

locale fifo =
  fixes inv :: "'q \<Rightarrow> bool" and contents :: "'q \<Rightarrow> 'a list" and cap :: nat
    and put :: "'a \<Rightarrow> 'q \<Rightarrow> 'q" and get :: "'q \<Rightarrow> 'a \<times> 'q"
  assumes bounded: "inv q \<Longrightarrow> length (contents q) \<le> cap"
    and put_inv: "inv q \<Longrightarrow> length (contents q) < cap \<Longrightarrow> inv (put x q)"
    and put_contents: "inv q \<Longrightarrow> length (contents q) < cap \<Longrightarrow> contents (put x q) = contents q @ [x]"
    and get_inv: "inv q \<Longrightarrow> contents q \<noteq> [] \<Longrightarrow> inv (snd (get q))"
    and get_contents: "inv q \<Longrightarrow> contents q \<noteq> [] \<Longrightarrow> contents q = fst (get q) # contents (snd (get q))"
begin

lemma put_all:
  "inv q \<Longrightarrow> length (contents q) + length xs \<le> cap
    \<Longrightarrow> inv (fold put xs q) \<and> contents (fold put xs q) = contents q @ xs"
proof (induction xs arbitrary: q)
  case (Cons x xs)
  then show ?case using put_inv[of q x] put_contents[of q x] Cons.IH[of "put x q"] by simp
qed simp

lemma take_out_contents:
  "inv q \<Longrightarrow> k \<le> length (contents q)
    \<Longrightarrow> fst (take_out get k q) = take k (contents q) \<and> inv (snd (take_out get k q))
      \<and> contents (snd (take_out get k q)) = drop k (contents q)"
proof (induction k arbitrary: q)
  case (Suc k)
  then have ne: "contents q \<noteq> []" by auto
  obtain x q1 where g: "get q = (x, q1)" by (cases "get q")
  have c: "inv q1" "contents q = x # contents q1" using get_inv[OF Suc.prems(1) ne] get_contents[OF Suc.prems(1) ne] g by auto
  with Suc.prems have "k \<le> length (contents q1)" by simp
  from Suc.IH[OF c(1) this] c show ?case by (simp add: g split_beta Let_def)
qed simp

text \<open>What was put comes out again, in order.\<close>

lemma put_take_out:
  assumes "inv q" "contents q = []" "length xs \<le> cap"
  shows "fst (take_out get (length xs) (fold put xs q)) = xs"
  using put_all[OF assms(1), of xs] take_out_contents[of "fold put xs q" "length xs"] assms by simp

end

end
