(* ===== verification/Console.thy ===== *)
theory Console
  imports Crash Ring
begin

text \<open>
  The console driver, \<^verbatim>\<open>kernel/console.c\<close>: the formatted output of \<open>cprintf\<close>, the CGA screen, the
  serial port of \<^verbatim>\<open>kernel/uart.c\<close>, and the line-editing input ring that the keyboard interrupt fills.
  \<open>consoleread\<close> and \<open>consolewrite\<close>, which unlock and relock an inode, are in theory \<open>Fs\<close>. A character is
  an \<open>int\<close>, as in the code. \<open>crt\<close> is the 25 by 80 array of video memory, \<open>crt_pos\<close> the cursor register,
  \<open>uart_out\<close> what the serial port has sent. \<open>getcallerpcs\<close> of \<^verbatim>\<open>kernel/spinlock.c\<close> and \<open>procdump\<close> of
  \<^verbatim>\<open>kernel/proc.c\<close> are here because \<open>consoleintr\<close> calls them.
\<close>

definition INPUT_BUF :: nat where "INPUT_BUF = 128"
definition BACKSPACE :: int where "BACKSPACE = 256"

record kcons = klog +
  in_buf :: bytes
  in_r :: u32
  in_w :: u32
  in_e :: u32
  crt :: "u16 list"
  crt_pos :: nat
  uart :: bool
  uart_out :: "u8 list"
  echodisabled :: u32

subsection \<open>Output\<close>

definition uartputc :: "int \<Rightarrow> ('x kcons_scheme, unit) kmon" where
  "uartputc c = bnd (rd uart) (\<lambda>present. whenk present (upd (\<lambda>s. s\<lparr>uart_out := uart_out s @ [of_int c]\<rparr>)))"

text \<open>The position and the screen after the character itself, before the check and the scrolling.\<close>

definition cga_char :: "int \<Rightarrow> bool \<Rightarrow> nat \<times> u16 list \<Rightarrow> nat \<times> u16 list" where
  "cga_char c echo = (\<lambda>(pos, scr).
     if c = 10 then (pos + (80 - pos mod 80), scr)
     else if c = BACKSPACE \<and> echo then (if pos > 0 then pos - 1 else pos, scr)
     else if echo then (pos + 1, scr[pos := (of_int c AND 0xff) OR 0x0700])
     else (pos, scr))"

definition cga_scroll :: "nat \<times> u16 list \<Rightarrow> nat \<times> u16 list" where
  "cga_scroll = (\<lambda>(pos, scr).
     if pos div 80 \<ge> 24 then
       (let pos' = pos - 80; up = take (23 * 80) (drop 80 scr) @ drop (23 * 80) scr
        in (pos', take pos' up @ replicate (24 * 80 - pos') 0 @ drop (24 * 80) up))
     else (pos, scr))"

definition cgaputc :: "int \<Rightarrow> ('x kcons_scheme, unit) kmon" where
  "cgaputc c = bnd (rd (\<lambda>s. cga_char c (echodisabled s = 0) (crt_pos s, crt s))) (\<lambda>(pos, scr).
     if pos > 25 * 80 then sq (upd (\<lambda>s. s\<lparr>crt := scr\<rparr>)) (panic ''pos under/overflow'')
     else let (pos', scr') = cga_scroll (pos, scr) in
       upd (\<lambda>s. s\<lparr>crt_pos := pos', crt := scr'[pos' := 0x0720]\<rparr>))"

text \<open>
  \<open>consputc\<close> up to its test of \<open>panicked\<close>: that flag is set by \<open>panic\<close>, after which the processor that
  panicked runs nothing any more and the others freeze here.
\<close>

definition consputc :: "int \<Rightarrow> ('x kcons_scheme, unit) kmon" where
  "consputc c = sq (if c = BACKSPACE then sq (uartputc 8) (sq (uartputc 32) (uartputc 8)) else uartputc c)
     (cgaputc c)"

fun digits_of :: "nat \<Rightarrow> nat \<Rightarrow> nat list" where
  "digits_of base x = (if base < 2 \<or> x < base then [x] else digits_of base (x div base) @ [x mod base])"

definition digit_char :: "nat \<Rightarrow> int" where
  "digit_char d = (if d < 10 then 48 + int d else 87 + int d)"

text \<open>The characters of \<open>printint\<close>, in the order they are put.\<close>

definition printint_chars :: "u32 \<Rightarrow> nat \<Rightarrow> bool \<Rightarrow> int list" where
  "printint_chars xx base sign =
     (let neg = sign \<and> sint xx < 0; x = (if neg then - xx else xx)
      in (if neg then [45] else []) @ map digit_char (digits_of base (unat x)))"

datatype fmt_arg = ArgInt u32 | ArgStr "bytes option"

fun fmt_int :: "fmt_arg \<Rightarrow> u32" where
  "fmt_int (ArgInt x) = x"
| "fmt_int (ArgStr _) = 0"

fun fmt_str :: "fmt_arg \<Rightarrow> int list" where
  "fmt_str (ArgStr (Some s)) = map uint s"
| "fmt_str (ArgStr None) = map (of_nat \<circ> of_char) ''(null)''"
| "fmt_str (ArgInt _) = []"

text \<open>
  The characters \<open>cprintf\<close> puts for a format (without its final NUL) and its arguments. \<open>None\<close>: the
  format asks for an argument that was not passed.
\<close>

fun cprintf_chars :: "int list \<Rightarrow> fmt_arg list \<Rightarrow> int list option" where
  "cprintf_chars [] args = Some []"
| "cprintf_chars (c # fmt) args =
     (if c \<noteq> 37 then map_option ((#) c) (cprintf_chars fmt args)
      else case fmt of
        [] \<Rightarrow> Some []
      | d # fmt' \<Rightarrow>
          if d = 100 then (case args of [] \<Rightarrow> None
             | a # as \<Rightarrow> map_option ((@) (printint_chars (fmt_int a) 10 True)) (cprintf_chars fmt' as))
          else if d = 120 \<or> d = 112 then (case args of [] \<Rightarrow> None
             | a # as \<Rightarrow> map_option ((@) (printint_chars (fmt_int a) 16 False)) (cprintf_chars fmt' as))
          else if d = 115 then (case args of [] \<Rightarrow> None
             | a # as \<Rightarrow> map_option ((@) (fmt_str a)) (cprintf_chars fmt' as))
          else if d = 37 then map_option ((#) 37) (cprintf_chars fmt' args)
          else map_option (\<lambda>r. 37 # d # r) (cprintf_chars fmt' args))"

definition str :: "string \<Rightarrow> int list" where
  "str s = map (of_nat \<circ> of_char) s"

text \<open>
  \<open>cprintf\<close> for a format that is no null pointer; with one it panics. All calls in the kernel pass a literal,
  or the message of a panic. The lock of the console is taken and released around it.
\<close>

definition cprintf :: "int list \<Rightarrow> fmt_arg list \<Rightarrow> ('x kcons_scheme, unit) kmon" where
  "cprintf fmt args = (case cprintf_chars fmt args of
     Some cs \<Rightarrow> for_all cs consputc | None \<Rightarrow> panic ''cprintf: missing argument'')"

subsection \<open>Process listing\<close>

fun getcallerpcs_loop :: "memory \<Rightarrow> u32 \<Rightarrow> nat \<Rightarrow> u32 list" where
  "getcallerpcs_loop m ebp 0 = []"
| "getcallerpcs_loop m ebp (Suc k) =
     (if ebp = 0 \<or> ebp < KERNBASE \<or> ebp = 0xffffffff then replicate (Suc k) 0
      else load32 m (ebp + 4) # getcallerpcs_loop m (load32 m ebp) k)"

definition getcallerpcs :: "memory \<Rightarrow> u32 \<Rightarrow> u32 list" where
  "getcallerpcs m v = getcallerpcs_loop m (v - 8) 10"

fun state_name :: "procstate \<Rightarrow> string" where
  "state_name UNUSED = ''unused''"
| "state_name EMBRYO = ''embryo''"
| "state_name SLEEPING = ''sleep ''"
| "state_name RUNNABLE = ''runble''"
| "state_name RUNNING = ''run   ''"
| "state_name ZOMBIE = ''zombie''"

definition procdump :: "('x kcons_scheme, unit) kmon" where
  "procdump = bnd (rd ptable) (\<lambda>ps. for_all ps (\<lambda>p.
     if p_state p = UNUSED then ret ()
     else sq (cprintf (str ''%d %s %s'') [ArgInt (of_int (p_pid p)),
                ArgStr (Some (map of_char (state_name (p_state p)))), ArgStr (Some (cstr (p_name p)))])
         (sq (if p_state p = SLEEPING
              then bnd (rd mem) (\<lambda>m.
                for_all (takeWhile (\<lambda>pc. pc \<noteq> 0) (getcallerpcs m (load32 m (p_context p + 12) + 8)))
                  (\<lambda>pc. cprintf (str '' %p'') [ArgInt pc]))
              else ret ())
             (cprintf [10] []))))"

subsection \<open>Input\<close>

text \<open>The statements that put a character at \<open>e\<close> and take one at \<open>r\<close>.\<close>

definition cons_put :: "u8 \<Rightarrow> 'x kcons_scheme \<Rightarrow> 'x kcons_scheme" where
  "cons_put c s = s\<lparr>in_buf := (in_buf s)[ring_index INPUT_BUF (in_e s) := c], in_e := in_e s + 1\<rparr>"

definition cons_get :: "'x kcons_scheme \<Rightarrow> u8 \<times> 'x kcons_scheme" where
  "cons_get s = (in_buf s ! ring_index INPUT_BUF (in_r s), s\<lparr>in_r := in_r s + 1\<rparr>)"

text \<open>The loop of control-U. Each turn takes one character back, so \<open>e - w\<close> turns are enough.\<close>

fun kill_line :: "nat \<Rightarrow> ('x kcons_scheme, unit) kmon" where
  "kill_line 0 = ret ()"
| "kill_line (Suc k) = bnd (rd (\<lambda>s. in_e s \<noteq> in_w s \<and> in_buf s ! ring_index INPUT_BUF (in_e s - 1) \<noteq> 10)) (\<lambda>go.
     if go then sq (upd (\<lambda>s. s\<lparr>in_e := in_e s - 1\<rparr>)) (sq (consputc BACKSPACE) (kill_line k)) else ret ())"

text \<open>One character; the result tells whether it asks for a process listing.\<close>

definition console_char :: "int \<Rightarrow> ('x kcons_scheme, bool) kmon" where
  "console_char c =
     (if c = 16 then ret True
      else if c = 21 then sq (bnd (rd (\<lambda>s. unat (in_e s - in_w s))) kill_line) (ret False)
      else if c = 8 \<or> c = 127 then
        bnd (rd (\<lambda>s. in_e s \<noteq> in_w s)) (\<lambda>b.
          sq (whenk b (sq (upd (\<lambda>s. s\<lparr>in_e := in_e s - 1\<rparr>)) (consputc BACKSPACE))) (ret False))
      else bnd (rd (\<lambda>s. c \<noteq> 0 \<and> in_e s - in_r s < of_nat INPUT_BUF)) (\<lambda>b.
        if b then
          let c = (if c = 13 then 10 else c) in
          sq (upd (cons_put (of_int c)))
          (sq (consputc c)
          (bnd (rd (\<lambda>s. c = 10 \<or> c = 4 \<or> in_e s = in_r s + of_nat INPUT_BUF)) (\<lambda>full.
             sq (whenk full (sq (upd (\<lambda>s. s\<lparr>in_w := in_e s\<rparr>)) (wakeup ChInput))) (ret False))))
        else ret False))"

text \<open>\<open>cs\<close> is what \<open>getc\<close> returns until it returns a negative value.\<close>

fun console_chars :: "int list \<Rightarrow> bool \<Rightarrow> ('x kcons_scheme, bool) kmon" where
  "console_chars [] dump = ret dump"
| "console_chars (c # cs) dump = bnd (console_char c) (\<lambda>d. console_chars cs (dump \<or> d))"

definition consoleintr :: "int list \<Rightarrow> ('x kcons_scheme, unit) kmon" where
  "consoleintr cs = bnd (console_chars cs False) (\<lambda>dump. whenk dump procdump)"

subsection \<open>The input ring\<close>

interpretation input_ring: ring INPUT_BUF
  by unfold_locales (simp_all add: INPUT_BUF_def)

text \<open>A concrete state: an empty input ring and a blank screen, with echo on and no serial port.\<close>

definition boot_cons :: kcons where
  "boot_cons = klog.extend boot_log (kcons.fields (replicate INPUT_BUF 0) 0 0 0 (replicate (25 * 80) 0x0720) 0 False [] 0)"

subsection \<open>The screen\<close>

definition screen_ok :: "'x kcons_scheme \<Rightarrow> bool" where
  "screen_ok s \<longleftrightarrow> length (crt s) = 25 * 80 \<and> crt_pos s < 24 * 80"

text \<open>What output may change.\<close>

definition out_step :: "'x kcons_scheme \<Rightarrow> 'x kcons_scheme \<Rightarrow> bool" where
  "out_step s s' \<longleftrightarrow> (\<exists>scr pos out. s' = s\<lparr>crt := scr, crt_pos := pos, uart_out := out\<rparr>)"

lemma out_step_refl [simp]: "out_step s s"
  unfolding out_step_def
  by (rule exI[of _ "crt s"], rule exI[of _ "crt_pos s"], rule exI[of _ "uart_out s"]) simp

lemma out_stepI [simp]: "out_step s (s\<lparr>crt_pos := pos, crt := scr\<rparr>)" "out_step s (s\<lparr>uart_out := out\<rparr>)"
  unfolding out_step_def
   apply (rule exI[of _ scr], rule exI[of _ pos], rule exI[of _ "uart_out s"], simp)
  apply (rule exI[of _ "crt s"], rule exI[of _ "crt_pos s"], rule exI[of _ out], simp)
  done

lemma out_step_trans: "out_step s t \<Longrightarrow> out_step t u \<Longrightarrow> out_step s u"
  by (auto simp: out_step_def) (rule exI, rule exI, rule exI, rule refl)

lemma cga_char_pos:
  assumes "pos < 24 * 80" "cga_char c echo (pos, scr) = (pos', scr')"
  shows "pos' \<le> 24 * 80" "length scr' = length scr"
proof -
  have d: "pos div 80 \<le> 23" using assms(1) by simp
  have m: "pos mod 80 < 80" by simp
  have e: "80 * (pos div 80) + pos mod 80 = pos" by (rule mult_div_mod_eq)
  have "pos + (80 - pos mod 80) \<le> 24 * 80" using d m e by linarith
  then show "pos' \<le> 24 * 80" "length scr' = length scr"
    using assms by (auto simp: cga_char_def split: if_splits)
qed

lemma cga_scroll_pos:
  assumes "pos \<le> 24 * 80" "length scr = 25 * 80" "cga_scroll (pos, scr) = (pos', scr')"
  shows "pos' < 24 * 80" "length scr' = 25 * 80"
proof -
  have "pos < 24 * 80" if "\<not> 24 \<le> pos div 80" using that by simp
  moreover have "24 * 80 \<le> pos" if "24 \<le> pos div 80"
    using that div_times_less_eq_dividend[of pos 80] by (meson le_trans mult_le_mono1)
  ultimately show "pos' < 24 * 80" "length scr' = 25 * 80"
    using assms by (auto simp: cga_scroll_def Let_def split: if_splits)
qed

lemma cgaputc_total:
  assumes "screen_ok s"
  shows "\<exists>s'. cgaputc c s = Inr ((), s') \<and> screen_ok s' \<and> out_step s s'"
proof -
  obtain pos scr where 1: "cga_char c (echodisabled s = 0) (crt_pos s, crt s) = (pos, scr)" by fastforce
  obtain pos' scr' where 2: "cga_scroll (pos, scr) = (pos', scr')" by fastforce
  have "pos \<le> 24 * 80" "length scr = 25 * 80"
    using cga_char_pos[OF _ 1] assms by (simp_all add: screen_ok_def)
  with cga_scroll_pos[OF this 2] 1 2 show ?thesis
    by (simp add: cgaputc_def screen_ok_def out_stepI)
qed

lemma uartputc_total: "\<exists>o'. uartputc c s = Inr ((), s\<lparr>uart_out := o'\<rparr>)"
  by (cases "uart s") (auto simp: uartputc_def intro: exI[of _ "uart_out s"])

lemma out_step_simps:
  assumes "out_step s s'"
  shows "in_buf s' = in_buf s" "in_r s' = in_r s" "in_w s' = in_w s" "in_e s' = in_e s"
    "echodisabled s' = echodisabled s" "ptable s' = ptable s" "curproc s' = curproc s"
  using assms by (auto simp: out_step_def)

lemma consputc_total:
  assumes "screen_ok s"
  shows "\<exists>s'. consputc c s = Inr ((), s') \<and> screen_ok s' \<and> out_step s s'"
proof -
  let ?m = "if c = BACKSPACE then sq (uartputc 8) (sq (uartputc 32) (uartputc 8)) else uartputc c"
  obtain out where 1: "?m s = Inr ((), s\<lparr>uart_out := out\<rparr>)"
  proof (cases "c = BACKSPACE")
    case True
    obtain a where a: "uartputc 8 s = Inr ((), s\<lparr>uart_out := a\<rparr>)" using uartputc_total by blast
    obtain b where b: "uartputc 32 (s\<lparr>uart_out := a\<rparr>) = Inr ((), s\<lparr>uart_out := b\<rparr>)"
      using uartputc_total[of 32 "s\<lparr>uart_out := a\<rparr>"] by auto
    obtain d where d: "uartputc 8 (s\<lparr>uart_out := b\<rparr>) = Inr ((), s\<lparr>uart_out := d\<rparr>)"
      using uartputc_total[of 8 "s\<lparr>uart_out := b\<rparr>"] by auto
    show ?thesis using that[of d] True a b d by simp
  next
    case False
    then show ?thesis using uartputc_total[of c s] that by auto
  qed
  have "screen_ok (s\<lparr>uart_out := out\<rparr>)" using assms by (simp add: screen_ok_def)
  then obtain s' where "cgaputc c (s\<lparr>uart_out := out\<rparr>) = Inr ((), s')" "screen_ok s'" "out_step (s\<lparr>uart_out := out\<rparr>) s'"
    using cgaputc_total by blast
  with 1 show ?thesis unfolding consputc_def
    by (intro exI[of _ s']) (auto intro: out_step_trans[OF out_stepI(2)])
qed

lemma puts_total:
  "screen_ok s \<Longrightarrow> \<exists>s'. for_all cs consputc s = Inr ((), s') \<and> screen_ok s' \<and> out_step s s'"
proof (induction cs arbitrary: s)
  case (Cons c cs)
  obtain t where t: "consputc c s = Inr ((), t)" "screen_ok t" "out_step s t"
    using consputc_total[OF Cons.prems] by blast
  with Cons.IH[OF t(2)] show ?case by (auto intro: out_step_trans)
qed simp

text \<open>
  Output never fails. From a state in which the cursor is in the first 24 lines, \<open>cprintf\<close> of any
  format with enough arguments neither panics nor sleeps, keeps the cursor there, and changes nothing
  but the screen, the cursor and what the serial port has sent.
\<close>

theorem cprintf_total:
  assumes "screen_ok s" "cprintf_chars fmt args = Some cs"
  shows "\<exists>s'. cprintf fmt args s = Inr ((), s') \<and> screen_ok s' \<and> out_step s s'"
  using puts_total[OF assms(1)] assms(2) by (simp add: cprintf_def)

lemma boot_cons_screen: "screen_ok boot_cons"
  by (simp add: screen_ok_def boot_cons_def klog.defs kcons.defs)

theorem cprintf_total_witness:
  "\<exists>s'. cprintf (str ''%d'') [ArgInt (- 1)] boot_cons = Inr ((), s') \<and> screen_ok s'"
  using cprintf_total[OF boot_cons_screen, of "str ''%d''" "[ArgInt (- 1)]"] by (auto simp: str_def)

subsection \<open>Numbers\<close>

declare digits_of.simps [simp del]

lemma digits_of_value:
  "1 < base \<Longrightarrow> foldl (\<lambda>a d. a * base + d) 0 (digits_of base x) = x \<and> (\<forall>d \<in> set (digits_of base x). d < base)"
proof (induction base x rule: digits_of.induct)
  case (1 base x)
  then show ?case by (subst (1 2) digits_of.simps) auto
qed

text \<open>The number a string of \<open>printint\<close> denotes: an optional minus sign, then digits of the base.\<close>

definition char_digit :: "int \<Rightarrow> nat" where
  "char_digit c = (if c < 58 then nat (c - 48) else nat (c - 87))"

definition number_of :: "nat \<Rightarrow> int list \<Rightarrow> int" where
  "number_of base cs = (case cs of
     c # cs' \<Rightarrow> if c = 45 then - int (foldl (\<lambda>a d. a * base + d) 0 (map char_digit cs'))
                else int (foldl (\<lambda>a d. a * base + d) 0 (map char_digit cs))
   | [] \<Rightarrow> 0)"

lemma char_digit_char: "d < 16 \<Longrightarrow> char_digit (digit_char d) = d"
  by (simp add: char_digit_def digit_char_def)

text \<open>
  C33. \<open>printint\<close> prints the number: reading its output back gives the signed value for \<open>%d\<close> (also for the
  smallest integer, whose negation wraps) and the unsigned value for \<open>%x\<close>.
\<close>

theorem printint_reads_back:
  "number_of 10 (printint_chars x 10 True) = sint x \<and> number_of 16 (printint_chars x 16 False) = uint x"
proof -
  have val: "foldl (\<lambda>a d. a * base + d) 0 (map char_digit (map digit_char (digits_of base n))) = n"
      if "1 < base" "base \<le> 16" for base n
  proof -
    have "map (char_digit \<circ> digit_char) (digits_of base n) = digits_of base n"
      using digits_of_value[OF that(1), of n] that(2) by (intro map_idI) (auto simp: char_digit_char)
    then show ?thesis using digits_of_value[OF that(1), of n] by simp
  qed
  have pos: "number_of base (map digit_char (digits_of base n)) = int n" if "1 < base" "base \<le> 16" for base n
  proof -
    obtain d ds where d: "digits_of base n = d # ds" by (cases "digits_of base n") (auto simp: digits_of.simps[of base n] split: if_splits)
    have "digit_char d \<noteq> 45" by (simp add: digit_char_def)
    with val[OF that, of n] d show ?thesis by (simp add: number_of_def)
  qed
  have neg: "int (unat (- x)) = - sint x" if "sint x < 0"
  proof -
    have s: "sint x = uint x - 2 ^ 32" using that sint32_eq[of x] uint_ge_0[of x] by (simp split: if_splits)
    have u: "uint x \<noteq> 0" "uint x < 2 ^ 32" using that uint_lt2p[of x] by (auto simp: sint_uint)
    have "uint (- x) = - uint x mod 2 ^ 32" by (simp add: uint_word_ariths)
    also have "\<dots> = 2 ^ 32 - uint x" using u by (simp add: zmod_zminus1_eq_if)
    finally show ?thesis using s by simp
  qed
  have "number_of 16 (printint_chars x 16 False) = uint x"
    using pos[of 16 "unat x"] by (simp add: printint_chars_def Let_def)
  moreover have "number_of 10 (printint_chars x 10 True) = sint x"
  proof (cases "sint x < 0")
    case True
    then show ?thesis using val[of 10 "unat (- x)"] neg by (simp add: printint_chars_def Let_def number_of_def)
  next
    case False
    then have "sint x = uint x" using sint32_eq[of x] uint_lt2p[of x] by (simp split: if_splits)
    then show ?thesis using pos[of 10 "unat x"] False by (simp add: printint_chars_def Let_def)
    qed
  ultimately show ?thesis by blast
qed
subsection \<open>Line editing\<close>

definition in_queue :: "'x kcons_scheme \<Rightarrow> bytes" where
  "in_queue s = ring_list INPUT_BUF (in_buf s) (in_r s) (in_e s)"

definition in_inv :: "'x kcons_scheme \<Rightarrow> bool" where
  "in_inv s \<longleftrightarrow> length (in_buf s) = INPUT_BUF \<and> unat (in_e s - in_r s) \<le> INPUT_BUF"

lemma length_in_queue: "length (in_queue s) = unat (in_e s - in_r s)"
  by (simp add: in_queue_def)

lemma in_queue_empty: "in_queue s = [] \<longleftrightarrow> in_r s = in_e s"
  by (metis eq_iff_diff_eq_0 length_0_conv length_in_queue unat_0 unat_eq_zero)

interpretation iq: fifo in_inv in_queue INPUT_BUF cons_put cons_get
proof
  fix s :: "'a kcons_scheme" and x assume i: "in_inv s"
  show "length (in_queue s) \<le> INPUT_BUF" using i by (simp add: in_inv_def length_in_queue)
  assume r: "length (in_queue s) < INPUT_BUF"
  then have u: "unat (in_e s + 1 - in_r s) = unat (in_e s - in_r s) + 1"
    by (intro unat_succ_diff) (simp add: length_in_queue INPUT_BUF_def)
  show "in_inv (cons_put x s)" using i r u by (simp add: in_inv_def cons_put_def length_in_queue)
  show "in_queue (cons_put x s) = in_queue s @ [x]"
    using i r input_ring.push[of "in_e s" "in_r s" "in_buf s" x]
    by (simp add: in_queue_def in_inv_def cons_put_def)
next
  fix s :: "'a kcons_scheme" assume i: "in_inv s" and "in_queue s \<noteq> []"
  then have n: "in_r s \<noteq> in_e s" by (simp add: in_queue_empty)
  show "in_inv (snd (cons_get s))" using i unat_diff_succ[OF n] by (auto simp: in_inv_def cons_get_def)
  show "in_queue s = fst (cons_get s) # in_queue (snd (cons_get s))"
    using input_ring.pop[OF n] by (simp add: in_queue_def cons_get_def)
qed

text \<open>
  The queue has two parts: the lines that are complete, which \<open>consoleread\<close> may take, and the line that
  is being edited.
\<close>

definition cons_inv :: "'x kcons_scheme \<Rightarrow> bool" where
  "cons_inv s \<longleftrightarrow> in_inv s \<and> unat (in_w s - in_r s) \<le> unat (in_e s - in_r s)"

definition lines :: "'x kcons_scheme \<Rightarrow> bytes" where
  "lines s = take (unat (in_w s - in_r s)) (in_queue s)"

definition pending :: "'x kcons_scheme \<Rightarrow> bytes" where
  "pending s = drop (unat (in_w s - in_r s)) (in_queue s)"

text \<open>What a character does to the two parts.\<close>

definition edit :: "int \<Rightarrow> bytes \<times> bytes \<Rightarrow> bytes \<times> bytes" where
  "edit c = (\<lambda>(done, cur).
     if c = 16 then (done, cur)
     else if c = 21 then (done, rev (dropWhile (\<lambda>b. b \<noteq> 10) (rev cur)))
     else if c = 8 \<or> c = 127 then (done, butlast cur)
     else if c \<noteq> 0 \<and> length done + length cur < INPUT_BUF then
       let c' = (if c = 13 then 10 else c); cur' = cur @ [of_int c'] in
       if c' = 10 \<or> c' = 4 \<or> length done + length cur' = INPUT_BUF then (done @ cur', []) else (done, cur')
     else (done, cur))"

lemma lines_pending: "lines s @ pending s = in_queue s"
  by (simp add: lines_def pending_def)

lemma length_lines: "cons_inv s \<Longrightarrow> length (lines s) = unat (in_w s - in_r s)"
  by (simp add: lines_def cons_inv_def length_in_queue)

lemma pending_empty: "cons_inv s \<Longrightarrow> pending s = [] \<longleftrightarrow> in_e s = in_w s"
  by (auto simp: pending_def cons_inv_def length_in_queue word_unat_eq_iff[of "in_w s - in_r s", symmetric] le_antisym)

text \<open>Taking back the last character.\<close>

definition cons_back :: "'x kcons_scheme \<Rightarrow> 'x kcons_scheme" where
  "cons_back s = s\<lparr>in_e := in_e s - 1\<rparr>"

lemma cons_back:
  assumes "cons_inv s" "in_e s \<noteq> in_w s"
  shows "cons_inv (cons_back s)" "lines (cons_back s) = lines s" "pending (cons_back s) = butlast (pending s)"
    "last (pending s) = in_buf s ! ring_index INPUT_BUF (in_e s - 1)"
proof -
  have lt: "unat (in_w s - in_r s) < unat (in_e s - in_r s)"
    using assms by (auto simp: cons_inv_def le_less word_unat_eq_iff[symmetric])
  then have ne: "in_r s \<noteq> in_e s" by auto
  have q: "in_queue s = in_queue (cons_back s) @ [in_buf s ! ring_index INPUT_BUF (in_e s - 1)]"
    using input_ring.pop_back[OF ne, of "in_buf s"] by (simp add: in_queue_def cons_back_def)
  have l: "unat (in_e s - in_r s) = Suc (unat (in_e s - 1 - in_r s))"
    using arg_cong[OF q, of length] by (simp add: length_in_queue cons_back_def)
  show "cons_inv (cons_back s)" using assms(1) l lt by (simp add: cons_inv_def in_inv_def cons_back_def)
  have k: "unat (in_w s - in_r s) \<le> length (in_queue (cons_back s))" using lt l by (simp add: length_in_queue cons_back_def)
  show "lines (cons_back s) = lines s" using k by (simp add: lines_def q) (simp add: cons_back_def)
  have p: "pending s = pending (cons_back s) @ [in_buf s ! ring_index INPUT_BUF (in_e s - 1)]"
    using k by (simp add: pending_def q) (simp add: cons_back_def)
  show "pending (cons_back s) = butlast (pending s)"
    "last (pending s) = in_buf s ! ring_index INPUT_BUF (in_e s - 1)" by (simp_all add: p)
qed


lemma out_step_lines:
  assumes "out_step s s'"
  shows "cons_inv s' = cons_inv s" "lines s' = lines s" "pending s' = pending s"
  using out_step_simps[OF assms] by (simp_all add: cons_inv_def in_inv_def lines_def pending_def in_queue_def)

lemma screen_ok_upd [simp]: "screen_ok (cons_back s) = screen_ok s" "screen_ok (cons_put c s) = screen_ok s"
    "screen_ok (s\<lparr>in_w := w\<rparr>) = screen_ok s" "screen_ok (wakeup1 ch s) = screen_ok s"
  by (simp_all add: screen_ok_def cons_back_def cons_put_def wakeup1_def)

lemma back_step:
  assumes "cons_inv s" "screen_ok s" "in_e s \<noteq> in_w s"
  obtains t where "sq (upd (\<lambda>s. s\<lparr>in_e := in_e s - 1\<rparr>)) (consputc BACKSPACE) s = Inr ((), t)" "cons_inv t" "screen_ok t"
    "lines t = lines s" "pending t = butlast (pending s)"
proof -
  obtain t where t: "consputc BACKSPACE (cons_back s) = Inr ((), t)" "screen_ok t" "out_step (cons_back s) t"
    using consputc_total[of "cons_back s" BACKSPACE] assms(2) by auto
  show ?thesis using that[of t] t out_step_lines[OF t(3)] cons_back[OF assms(1,3)] by (simp add: cons_back_def)
qed

lemma kill_line_spec:
  assumes "cons_inv s" "screen_ok s" "length (pending s) \<le> k"
  shows "\<exists>s'. kill_line k s = Inr ((), s') \<and> cons_inv s' \<and> screen_ok s' \<and> lines s' = lines s
    \<and> pending s' = rev (dropWhile (\<lambda>b. b \<noteq> 10) (rev (pending s)))"
  using assms
proof (induction k arbitrary: s)
  case (Suc k)
  show ?case
  proof (cases "in_e s \<noteq> in_w s \<and> in_buf s ! ring_index INPUT_BUF (in_e s - 1) \<noteq> 10")
    case True
    then obtain t where t: "sq (upd (\<lambda>s. s\<lparr>in_e := in_e s - 1\<rparr>)) (consputc BACKSPACE) s = Inr ((), t)" "cons_inv t"
        "screen_ok t" "lines t = lines s" "pending t = butlast (pending s)"
      using back_step[OF Suc.prems(1,2)] by blast
    have ne: "pending s \<noteq> []" "last (pending s) \<noteq> 10"
      using True pending_empty[OF Suc.prems(1)] cons_back(4)[OF Suc.prems(1)] by auto
    then have "rev (dropWhile (\<lambda>b. b \<noteq> 10) (rev (pending s))) = rev (dropWhile (\<lambda>b. b \<noteq> 10) (rev (pending t)))"
      unfolding t(5) by (cases "pending s" rule: rev_cases) auto
    moreover have "length (pending t) \<le> k" using Suc.prems(3) t(5) by simp
    ultimately show ?thesis using Suc.IH[OF t(2,3)] t(1,4) True by (auto simp: sq_Inr)
  next
    case False
    have "rev (dropWhile (\<lambda>b. b \<noteq> 10) (rev (pending s))) = pending s"
    proof (cases "pending s" rule: rev_cases)
      case (snoc ys y)
      then have "in_e s \<noteq> in_w s" using pending_empty[OF Suc.prems(1)] by auto
      with False cons_back(4)[OF Suc.prems(1)] snoc have "y = 10" by auto
      with snoc show ?thesis by simp
    qed simp
    with False Suc.prems show ?thesis by auto
  qed
qed simp

lemma put_step:
  assumes "cons_inv s" "length (in_queue s) < INPUT_BUF"
  shows "cons_inv (cons_put c s)" "lines (cons_put c s) = lines s" "pending (cons_put c s) = pending s @ [c]"
proof -
  have i: "in_inv s" using assms(1) by (simp add: cons_inv_def)
  have q: "in_queue (cons_put c s) = in_queue s @ [c]" by (rule iq.put_contents[OF i assms(2)])
  have e: "in_w (cons_put c s) = in_w s" "in_r (cons_put c s) = in_r s" by (simp_all add: cons_put_def)
  have l: "unat (in_e (cons_put c s) - in_r s) = Suc (unat (in_e s - in_r s))"
    using arg_cong[OF q, of length] by (simp add: length_in_queue e)
  show "cons_inv (cons_put c s)" using iq.put_inv[OF i assms(2)] assms(1) l by (simp add: cons_inv_def e)
  have "unat (in_w s - in_r s) \<le> length (in_queue s)" using assms(1) by (simp add: cons_inv_def length_in_queue)
  then show "lines (cons_put c s) = lines s" "pending (cons_put c s) = pending s @ [c]"
    by (simp_all add: lines_def pending_def e q)
qed

lemma commit_step:
  assumes "cons_inv s"
  shows "cons_inv (s\<lparr>in_w := in_e s\<rparr>)" "lines (s\<lparr>in_w := in_e s\<rparr>) = in_queue s" "pending (s\<lparr>in_w := in_e s\<rparr>) = []"
proof -
  have "in_queue (s\<lparr>in_w := in_e s\<rparr>) = in_queue s" by (simp add: in_queue_def)
  then show "lines (s\<lparr>in_w := in_e s\<rparr>) = in_queue s" "pending (s\<lparr>in_w := in_e s\<rparr>) = []"
    by (simp_all add: lines_def pending_def length_in_queue)
  show "cons_inv (s\<lparr>in_w := in_e s\<rparr>)" using assms by (simp add: cons_inv_def in_inv_def)
qed

lemma wakeup1_lines [simp]: "cons_inv (wakeup1 c s) = cons_inv s" "lines (wakeup1 c s) = lines s"
    "pending (wakeup1 c s) = pending s"
  by (simp_all add: cons_inv_def in_inv_def lines_def pending_def in_queue_def wakeup1_def)

lemma in_full_iff:
  assumes "in_inv s"
  shows "in_e s = in_r s + of_nat INPUT_BUF \<longleftrightarrow> length (in_queue s) = INPUT_BUF"
    "in_e s - in_r s < of_nat INPUT_BUF \<longleftrightarrow> length (in_queue s) < INPUT_BUF"
proof -
  have "in_e s = in_r s + of_nat INPUT_BUF \<longleftrightarrow> in_e s - in_r s = of_nat INPUT_BUF" by (auto simp: algebra_simps)
  then show "in_e s = in_r s + of_nat INPUT_BUF \<longleftrightarrow> length (in_queue s) = INPUT_BUF"
    by (simp add: word_unat_eq_iff INPUT_BUF_def length_in_queue)
  show "in_e s - in_r s < of_nat INPUT_BUF \<longleftrightarrow> length (in_queue s) < INPUT_BUF"
    by (simp add: word_less_nat_alt INPUT_BUF_def length_in_queue)
qed


text \<open>An ordinary character: it is put, echoed, and completes the line if it ends one or fills the ring.\<close>

lemma char_step:
  assumes "cons_inv s" "screen_ok s" "length (in_queue s) < INPUT_BUF"
  defines "m \<equiv> \<lambda>c. sq (upd (cons_put (of_int c))) (sq (consputc c)
     (bnd (rd (\<lambda>s. c = 10 \<or> c = 4 \<or> in_e s = in_r s + of_nat INPUT_BUF)) (\<lambda>full.
       sq (whenk full (sq (upd (\<lambda>s. s\<lparr>in_w := in_e s\<rparr>)) (wakeup ChInput))) (ret False))))"
  shows "\<exists>s'. m c s = Inr (False, s') \<and> cons_inv s' \<and> screen_ok s' \<and> (lines s', pending s') =
    (let cur' = pending s @ [of_int c] in
     if c = 10 \<or> c = 4 \<or> length (lines s) + length cur' = INPUT_BUF then (lines s @ cur', []) else (lines s, cur'))"
proof -
  let ?s = "cons_put (of_int c) s"
  note p = put_step[OF assms(1,3), of "of_int c"]
  have "screen_ok ?s" using assms(2) by simp
  then obtain t where t: "consputc c ?s = Inr ((), t)" "screen_ok t" "out_step ?s t" using consputc_total by blast
  have a: "cons_inv t" "lines t = lines s" "pending t = pending s @ [of_int c]"
    using p out_step_lines[OF t(3)] by simp_all
  have q: "in_queue t = lines s @ pending s @ [of_int c]" using lines_pending[of t] a by simp
  have full: "in_e t = in_r t + of_nat INPUT_BUF \<longleftrightarrow> length (lines s) + length (pending s @ [of_int c :: u8]) = INPUT_BUF"
    using in_full_iff(1)[of t] a(1) by (simp add: cons_inv_def q)
  show ?thesis
  proof (cases "c = 10 \<or> c = 4 \<or> in_e t = in_r t + of_nat INPUT_BUF")
    case True
    then have "m c s = Inr (False, wakeup1 ChInput (t\<lparr>in_w := in_e t\<rparr>))" using t(1) by (auto simp: m_def wakeup_def)
    then show ?thesis using True t(2) commit_step[OF a(1)] by (simp add: full Let_def q)
  next
    case False
    then have "m c s = Inr (False, t)" using t(1) by (auto simp: m_def)
    then show ?thesis using False t(2) a by (simp add: full Let_def)
  qed
qed

text \<open>
  C31. Line editing. One character of \<open>consoleintr\<close> acts on the input ring as \<open>edit\<close> does on the pair of the
  complete lines and the line being edited: backspace and control-U take back only characters of the
  line being edited, a character that finds the ring full is dropped, carriage return becomes newline,
  and a newline, control-D or the last free place completes the line. It never fails, and wrapped
  counters make no difference.
\<close>

theorem console_char_edits:
  assumes "cons_inv s" "screen_ok s"
  shows "\<exists>s'. console_char c s = Inr (c = 16, s') \<and> cons_inv s' \<and> screen_ok s'
    \<and> (lines s', pending s') = edit c (lines s, pending s)"
proof -
  have inv: "in_inv s" using assms(1) by (simp add: cons_inv_def)
  have len: "length (in_queue s) = length (lines s) + length (pending s)" using lines_pending[of s] by (metis length_append)
  consider "c = 16" | "c = 21" | "c = 8 \<or> c = 127" | (char) "c \<noteq> 16" "c \<noteq> 21" "c \<noteq> 8" "c \<noteq> 127" by blast
  then show ?thesis
  proof cases
    case 1
    then show ?thesis using assms by (simp add: console_char_def edit_def)
  next
    case 2
    have "length (pending s) \<le> unat (in_e s - in_w s)"
    proof -
      have "unat (in_e s - in_w s) = unat ((in_e s - in_r s) - (in_w s - in_r s))" by simp
      also have "\<dots> = unat (in_e s - in_r s) - unat (in_w s - in_r s)"
        using assms(1) by (intro unat_sub) (simp add: cons_inv_def word_le_nat_alt)
      finally show ?thesis by (simp add: pending_def length_in_queue)
    qed
    from kill_line_spec[OF assms this] 2 show ?thesis by (auto simp: console_char_def edit_def)
  next
    case 3
    show ?thesis
    proof (cases "in_e s = in_w s")
      case True
      then show ?thesis using 3 assms pending_empty[OF assms(1)] by (auto simp: console_char_def edit_def)
    next
      case False
      from back_step[OF assms False] obtain t where "sq (upd (\<lambda>s. s\<lparr>in_e := in_e s - 1\<rparr>)) (consputc BACKSPACE) s = Inr ((), t)"
        "cons_inv t" "screen_ok t" "lines t = lines s" "pending t = butlast (pending s)" .
      then show ?thesis using 3 False by (auto simp: console_char_def edit_def)
    qed
  next
    case char
    show ?thesis
    proof (cases "c \<noteq> 0 \<and> length (in_queue s) < INPUT_BUF")
      case True
      then show ?thesis using char char_step[OF assms, of "if c = 13 then 10 else c"] in_full_iff(2)[OF inv]
        by (auto simp: console_char_def edit_def Let_def len)
    next
      case False
      then show ?thesis using char assms in_full_iff(2)[OF inv] by (auto simp: console_char_def edit_def len)
    qed
  qed
qed

lemma boot_cons_lines: "cons_inv boot_cons" "lines boot_cons = []" "pending boot_cons = []"
  by (simp_all add: cons_inv_def in_inv_def lines_def pending_def in_queue_def boot_cons_def klog.defs kcons.defs)

theorem console_char_edits_witness:
  "\<exists>s1 s2. console_char 97 boot_cons = Inr (False, s1) \<and> console_char 13 s1 = Inr (False, s2) \<and> lines s2 = [97, 10]
     \<and> pending s2 = []"
proof -
  obtain s1 where s1: "console_char 97 boot_cons = Inr (False, s1)" "cons_inv s1" "screen_ok s1"
      "lines s1 = []" "pending s1 = [97]"
    using console_char_edits[OF boot_cons_lines(1) boot_cons_screen, of 97]
    by (auto simp: edit_def boot_cons_lines INPUT_BUF_def)
  from console_char_edits[OF s1(2,3), of 13] s1 show ?thesis by (auto simp: edit_def INPUT_BUF_def)
qed

end
