(* ===== verification/Kbd.thy ===== *)
theory Kbd
  imports Prelude
begin

text \<open>
  The keyboard driver, \<^verbatim>\<open>kernel/kbd.c\<close> with the tables of \<^verbatim>\<open>kernel/kbd.h\<close>. \<open>kbdgetc\<close> takes the static
  variable \<open>shift\<close> and what the two ports hold, the status and the scan code, and gives the new \<open>shift\<close>
  and the character, -1 when there is none.
\<close>

definition SHIFT :: u32 where "SHIFT = 1"
definition CTL :: u32 where "CTL = 2"
definition ALT :: u32 where "ALT = 4"
definition CAPSLOCK :: u32 where "CAPSLOCK = 8"
definition NUMLOCK :: u32 where "NUMLOCK = 16"
definition SCROLLLOCK :: u32 where "SCROLLLOCK = 32"
definition E0ESC :: u32 where "E0ESC = 64"

definition shiftcode :: "nat \<Rightarrow> u32" where
  "shiftcode d = (if d = 0x1D then CTL else if d = 0x2A then SHIFT else if d = 0x36 then SHIFT
     else if d = 0x38 then ALT else if d = 0x9D then CTL else if d = 0xB8 then ALT else 0)"

definition togglecode :: "nat \<Rightarrow> u32" where
  "togglecode d = (if d = 0x3A then CAPSLOCK else if d = 0x45 then NUMLOCK
     else if d = 0x46 then SCROLLLOCK else 0)"

definition chs :: "string \<Rightarrow> int list" where
  "chs s = map (of_nat \<circ> of_char) s"

text \<open>The entries with a designator that the maps share: the keypad and the cursor keys.\<close>

definition key_special :: "nat \<Rightarrow> int" where
  "key_special d = (if d = 0xC8 then 0xE2 else if d = 0xD0 then 0xE3 else if d = 0xC9 then 0xE6
     else if d = 0xD1 then 0xE7 else if d = 0xCB then 0xE4 else if d = 0xCD then 0xE5
     else if d = 0x97 then 0xE0 else if d = 0xCF then 0xE1 else if d = 0xD2 then 0xE8
     else if d = 0xD3 then 0xE9 else 0)"

definition normal_rows :: "int list" where
  "normal_rows = [0, 0x1B] @ chs ''1234567890-='' @ [8, 9] @ chs ''qwertyuiop[]'' @ [10, 0] @ chs ''asdfghjkl;'' @ [39] @ chs ''`''
     @ [0, 92] @ chs ''zxcvbnm,./'' @ [0] @ chs ''*'' @ [0] @ chs '' '' @ replicate 13 0
     @ chs ''789-456+1230.'' @ replicate 4 0"

definition shift_rows :: "int list" where
  "shift_rows = [0, 0x1B] @ chs ''!@#$%^&*()_+'' @ [8, 9] @ chs ''QWERTYUIOP{}'' @ [10, 0] @ chs ''ASDFGHJKL:'' @ [34] @ chs ''~''
     @ [0] @ chs ''|ZXCVBNM<>?'' @ [0] @ chs ''*'' @ [0] @ chs '' '' @ replicate 13 0
     @ chs ''789-456+1230.'' @ replicate 4 0"

text \<open>\<open>C(x)\<close> is \<open>x - '@'\<close>.\<close>

definition ctl_rows :: "int list" where
  "ctl_rows = replicate 16 0 @ map (\<lambda>c. c - 64) (chs ''QWERTYUIOP'') @ [0, 0, 13, 0]
     @ map (\<lambda>c. c - 64) (chs ''ASDFGHJKL'') @ [0, 0, 0, 0, 92 - 64] @ map (\<lambda>c. c - 64) (chs ''ZXCVBNM'')
     @ [0, 0, 47 - 64, 0, 0]"

definition normalmap :: "nat \<Rightarrow> int" where
  "normalmap d = (if d < 88 then normal_rows ! d else if d = 0x9C then 10 else if d = 0xB5 then 47
     else key_special d)"

definition shiftmap :: "nat \<Rightarrow> int" where
  "shiftmap d = (if d < 88 then shift_rows ! d else if d = 0x9C then 10 else if d = 0xB5 then 47
     else key_special d)"

text \<open>The table holds \<open>uchar\<close>s: \<open>C('/')\<close>, which is negative, is stored modulo 256.\<close>

definition ctlmap :: "nat \<Rightarrow> int" where
  "ctlmap d = (if d < 56 then (ctl_rows ! d) mod 256 else if d = 0x9C then 13 else if d = 0xB5 then (47 - 64) mod 256
     else key_special d)"

definition charcode :: "u32 \<Rightarrow> nat \<Rightarrow> int" where
  "charcode i d = (if i = 0 then normalmap d else if i = 1 then shiftmap d else ctlmap d)"

definition kbdgetc :: "u32 \<Rightarrow> u8 \<Rightarrow> u8 \<Rightarrow> u32 \<times> int" where
  "kbdgetc shift st data0 =
    (if st AND 1 = 0 then (shift, -1)
     else if data0 = 0xE0 then (shift OR E0ESC, 0)
     else if data0 AND 0x80 \<noteq> 0 then
       let d = (if shift AND E0ESC \<noteq> 0 then data0 else data0 AND 0x7F) in
       (shift AND NOT (shiftcode (unat d) OR E0ESC), 0)
     else
       let d = (if shift AND E0ESC \<noteq> 0 then data0 OR 0x80 else data0);
           sh = (if shift AND E0ESC \<noteq> 0 then shift AND NOT E0ESC else shift);
           sh = (sh OR shiftcode (unat d)) XOR togglecode (unat d);
           c = charcode (sh AND (CTL OR SHIFT)) (unat d)
       in (sh, if sh AND CAPSLOCK \<noteq> 0
               then if 97 \<le> c \<and> c \<le> 122 then c - 32 else if 65 \<le> c \<and> c \<le> 90 then c + 32 else c
               else c))"

text \<open>The values \<open>consoleintr\<close> gets from \<open>kbdgetc\<close> while the controller has the given scan codes.\<close>

fun kbd_run :: "u32 \<Rightarrow> u8 list \<Rightarrow> u32 \<times> int list" where
  "kbd_run shift [] = (shift, [])"
| "kbd_run shift (d # ds) = (let (sh, c) = kbdgetc shift 1 d; (sh', cs) = kbd_run sh ds in (sh', c # cs))"

lemma row_lengths: "length normal_rows = 88" "length shift_rows = 88" "length ctl_rows = 56"
  by (simp_all add: normal_rows_def shift_rows_def ctl_rows_def chs_def)

subsection \<open>Letters and modifiers\<close>

lemma letter_keys:
  "list_all (\<lambda>(d, n, s). 97 \<le> n \<and> n \<le> 122 \<longrightarrow> s = n - 32 \<and> shiftcode d = 0 \<and> togglecode d = 0)
     (zip [0..<88] (zip normal_rows shift_rows))"
  by code_simp

lemma rows_range: "list_all (\<lambda>c. 0 \<le> c \<and> c \<le> 255) normal_rows" "list_all (\<lambda>c. 0 \<le> c \<and> c \<le> 255) shift_rows"
  by code_simp+

lemma nth_row:
  assumes "list_all P xs" "i < length xs"
  shows "P (xs ! i)"
  using assms by (simp add: list_all_length)

lemma key_special_range: "0 \<le> key_special d \<and> key_special d \<le> 255"
  by (simp add: key_special_def)

lemma charcode_range: "0 \<le> charcode i d \<and> charcode i d \<le> 255"
proof -
  have "0 \<le> normalmap d \<and> normalmap d \<le> 255" "0 \<le> shiftmap d \<and> shiftmap d \<le> 255"
    using nth_row[OF rows_range(1), of d] nth_row[OF rows_range(2), of d] key_special_range[of d]
    by (auto simp: normalmap_def shiftmap_def row_lengths)
  moreover have "0 \<le> ctlmap d \<and> ctlmap d \<le> 255"
    using key_special_range[of d] pos_mod_sign[of 256 "ctl_rows ! d"] pos_mod_bound[of 256 "ctl_rows ! d"]
    by (auto simp: ctlmap_def)
  ultimately show ?thesis by (simp add: charcode_def)
qed

lemma key_code_bound:
  fixes d :: u8
  assumes "d AND 0x80 = 0"
  shows "unat d < 128"
proof -
  have "(0xFF :: u8) = -1" by simp
  then have "d AND 0xFF = d" by (simp only: and.right_neutral)
  moreover have "d AND 0xFF = (d AND 0x80) OR (d AND 0x7F)" by (simp flip: bit.conj_disj_distrib)
  ultimately have "d = d AND 0x7F" using assms by simp
  then have "d \<le> 0x7F" using word_and_le1[of d "0x7F"] by simp
  then show ?thesis by (simp add: word_le_nat_alt)
qed

text \<open>
  Every value of \<open>kbdgetc\<close> is -1, exactly when the controller has no data, or a character code from 0
  to 255.
\<close>

theorem kbdgetc_range:
  "(snd (kbdgetc sh st d) = -1 \<longleftrightarrow> st AND 1 = 0) \<and> snd (kbdgetc sh st d) \<in> {-1..255}"
proof -
  let ?r = "\<lambda>c :: int. if 97 \<le> c \<and> c \<le> 122 then c - 32 else if 65 \<le> c \<and> c \<le> 90 then c + 32 else c"
  have r: "0 \<le> ?r c \<and> ?r c \<le> 255" if "0 \<le> c \<and> c \<le> 255" for c using that by auto
  have "0 \<le> snd (kbdgetc sh st d) \<and> snd (kbdgetc sh st d) \<le> 255" if "st AND 1 \<noteq> 0"
    using that charcode_range r[OF charcode_range] by (simp add: kbdgetc_def Let_def del: if_split split: if_split_asm)
  moreover have "snd (kbdgetc sh st d) = -1" if "st AND 1 = 0" using that by (simp add: kbdgetc_def)
  ultimately show ?thesis by fastforce
qed

text \<open>
  A letter key, without control, gives the upper-case letter exactly when one of shift and caps lock is
  on but not both, and leaves the modifiers as they are.
\<close>

theorem kbd_letter_case:
  assumes "d AND 0x80 = 0" "97 \<le> normalmap (unat d)" "normalmap (unat d) \<le> 122"
    "sh AND E0ESC = 0" "sh AND CTL = 0"
  shows "kbdgetc sh 1 d = (sh, if (sh AND SHIFT \<noteq> 0) \<noteq> (sh AND CAPSLOCK \<noteq> 0) then normalmap (unat d) - 32
     else normalmap (unat d))"
proof -
  have lt: "unat d < 88"
    using assms(2) key_code_bound[OF assms(1)] by (auto simp: normalmap_def key_special_def split: if_splits)
  have k: "shift_rows ! unat d = normal_rows ! unat d - 32" "shiftcode (unat d) = 0" "togglecode (unat d) = 0"
    using nth_row[OF letter_keys, of "unat d"] lt assms(2,3) by (simp_all add: row_lengths normalmap_def)
  have e0: "d \<noteq> 0xE0" using assms(1) by auto
  have c: "\<not> bit sh 1"
  proof
    assume "bit sh 1"
    then have "bit (sh AND CTL) 1" by (simp add: CTL_def bit_simps)
    with assms(5) show False by simp
  qed
  have m: "sh AND (CTL OR SHIFT) = sh AND SHIFT" using assms(5) by (simp add: bit.conj_disj_distrib)
  have s: "sh AND SHIFT = (if bit sh 0 then 1 else 0)"
    by (auto simp: SHIFT_def and_one_eq odd_iff_mod_2_eq_one bit_0)
  show ?thesis
    using assms e0 lt k m s by (simp add: kbdgetc_def Let_def charcode_def normalmap_def shiftmap_def)
qed

lemma normalmap_a: "normalmap 30 = 97"
  by code_simp

theorem kbd_letter_case_witness: "kbdgetc CAPSLOCK 1 0x1E = (CAPSLOCK, 65)"
  using kbd_letter_case[of "0x1E" CAPSLOCK] by (simp add: normalmap_a E0ESC_def CTL_def SHIFT_def CAPSLOCK_def)

end
