(* ===== verification/Inode.thy ===== *)
theory Inode
  imports Console Trans
begin

text \<open>
  Blocks and inodes, the first half of \<^verbatim>\<open>kernel/fs.c\<close>: the free-block bitmap, the on-disk inodes with
  their owner, group and mode, and the in-memory inode cache with its reference counts and locks. A
  pointer to an inode is its index in \<open>icache\<close>. A dinode takes 128 bytes: four shorts, the size, thirteen
  block addresses, mode, uid and gid, and padding.
\<close>

definition NINODE :: nat where "NINODE = 50"
definition NDIRECT :: nat where "NDIRECT = 12"
definition NINDIRECT :: nat where "NINDIRECT = 128"
definition IPB :: nat where "IPB = 4"
definition BPB :: nat where "BPB = 4096"
definition DINODE :: nat where "DINODE = 128"
definition T_DIR :: u16 where "T_DIR = 1"
definition T_FILE :: u16 where "T_FILE = 2"
definition T_DEV :: u16 where "T_DEV = 3"
definition ROOTINO :: nat where "ROOTINO = 1"

record inode =
  i_dev :: nat
  i_inum :: nat
  i_ref :: int
  i_lock :: sleeplock
  i_valid :: bool
  i_type :: u16
  i_major :: u16
  i_minor :: u16
  i_nlink :: u16
  i_size :: u32
  i_addrs :: "u32 list"
  i_mode :: u32
  i_uid :: u32
  i_gid :: u32

datatype device = ConsoleDev

record kfs = kcons +
  sb :: superblock
  icache :: "inode list"
  devsw :: "nat \<Rightarrow> device option"

definition inode_at :: "nat \<Rightarrow> 'x kfs_scheme \<Rightarrow> inode" where
  "inode_at ip s = icache s ! ip"

definition upd_inode :: "nat \<Rightarrow> (inode \<Rightarrow> inode) \<Rightarrow> 'x kfs_scheme \<Rightarrow> 'x kfs_scheme" where
  "upd_inode ip f s = s\<lparr>icache := (icache s)[ip := f (icache s ! ip)]\<rparr>"

definition ino_lock :: "nat \<Rightarrow> 'x kfs_scheme \<Rightarrow> sleeplock" where
  "ino_lock ip s = i_lock (inode_at ip s)"

definition upd_ino_lock :: "nat \<Rightarrow> (sleeplock \<Rightarrow> sleeplock) \<Rightarrow> 'x kfs_scheme \<Rightarrow> 'x kfs_scheme" where
  "upd_ino_lock ip f = upd_inode ip (\<lambda>i. i\<lparr>i_lock := f (i_lock i)\<rparr>)"

definition IBLOCK :: "nat \<Rightarrow> superblock \<Rightarrow> nat" where
  "IBLOCK i super = i div IPB + sb_inodestart super"

definition BBLOCK :: "nat \<Rightarrow> superblock \<Rightarrow> nat" where
  "BBLOCK b super = b div BPB + sb_bmapstart super"

subsection \<open>Blocks\<close>

definition bzero :: "nat \<Rightarrow> nat \<Rightarrow> ('x klog_scheme, unit) kmon" where
  "bzero dev bno = bnd (bread dev bno) (\<lambda>bp.
     sq (bset bp (replicate BSIZE 0)) (sq (log_write bp) (brelse bp)))"

text \<open>Bit \<open>bi\<close> of a bitmap block.\<close>

definition bm_bit :: "bytes \<Rightarrow> nat \<Rightarrow> bool" where
  "bm_bit d bi = ((d ! (bi div 8)) AND push_bit (bi mod 8) 1 \<noteq> 0)"

definition bm_set :: "bytes \<Rightarrow> nat \<Rightarrow> bytes" where
  "bm_set d bi = d[bi div 8 := (d ! (bi div 8)) OR push_bit (bi mod 8) 1]"

definition bm_clear :: "bytes \<Rightarrow> nat \<Rightarrow> bytes" where
  "bm_clear d bi = d[bi div 8 := (d ! (bi div 8)) AND NOT (push_bit (bi mod 8) 1)]"

definition balloc_in :: "nat \<Rightarrow> superblock \<Rightarrow> nat \<Rightarrow> ('x klog_scheme, nat option) kmon" where
  "balloc_in dev super b = bnd (bread dev (BBLOCK b super)) (\<lambda>bp. bnd (bdata bp) (\<lambda>d.
     case find (\<lambda>bi. \<not> bm_bit d bi) [0..<min BPB (sb_size super - b)] of
       Some bi \<Rightarrow> sq (bset bp (bm_set d bi)) (sq (log_write bp) (sq (brelse bp)
                  (sq (bzero dev (b + bi)) (ret (Some (b + bi))))))
     | None \<Rightarrow> sq (brelse bp) (ret None)))"

definition balloc :: "nat \<Rightarrow> ('x kfs_scheme, nat) kmon" where
  "balloc dev = bnd (rd sb) (\<lambda>sb.
     bnd (for_ret (map ((*) BPB) [0..<(sb_size sb + BPB - 1) div BPB]) (balloc_in dev sb)) (\<lambda>r.
       case r of Some b \<Rightarrow> ret b | None \<Rightarrow> panic ''balloc: out of blocks''))"

definition bfree :: "nat \<Rightarrow> nat \<Rightarrow> ('x kfs_scheme, unit) kmon" where
  "bfree dev b = bnd (rd sb) (\<lambda>sb. bnd (bread dev (BBLOCK b sb)) (\<lambda>bp. bnd (bdata bp) (\<lambda>d.
     if \<not> bm_bit d (b mod BPB) then panic ''freeing free block''
     else sq (bset bp (bm_clear d (b mod BPB))) (sq (log_write bp) (brelse bp)))))"

subsection \<open>On-disk inodes\<close>

definition dip_off :: "nat \<Rightarrow> nat" where
  "dip_off inum = inum mod IPB * DINODE"

definition put_addrs :: "bytes \<Rightarrow> nat \<Rightarrow> u32 list \<Rightarrow> bytes" where
  "put_addrs d off as = fold (\<lambda>i d. put32 d (off + 4 * i) (as ! i)) [0..<NDIRECT + 1] d"

definition get_addrs :: "bytes \<Rightarrow> nat \<Rightarrow> u32 list" where
  "get_addrs d off = map (\<lambda>i. get32 d (off + 4 * i)) [0..<NDIRECT + 1]"

text \<open>The assignments to \<open>dip\<close> in \<open>iupdate\<close>, and those from it in \<open>ilock\<close>.\<close>

definition put_dinode :: "inode \<Rightarrow> nat \<Rightarrow> bytes \<Rightarrow> bytes" where
  "put_dinode ip o1 d =
    (let d = put16 d o1 (i_type ip);
         d = put16 d (o1 + 2) (i_major ip);
         d = put16 d (o1 + 4) (i_minor ip);
         d = put16 d (o1 + 6) (i_nlink ip);
         d = put32 d (o1 + 8) (i_size ip);
         d = put32 d (o1 + 64) (i_mode ip);
         d = put32 d (o1 + 68) (i_uid ip);
         d = put32 d (o1 + 72) (i_gid ip)
     in put_addrs d (o1 + 12) (i_addrs ip))"

definition get_dinode :: "bytes \<Rightarrow> nat \<Rightarrow> inode \<Rightarrow> inode" where
  "get_dinode d o1 ip = ip\<lparr>i_type := get16 d o1, i_major := get16 d (o1 + 2), i_minor := get16 d (o1 + 4),
     i_nlink := get16 d (o1 + 6), i_size := get32 d (o1 + 8), i_mode := get32 d (o1 + 64),
     i_uid := get32 d (o1 + 68), i_gid := get32 d (o1 + 72), i_addrs := get_addrs d (o1 + 12)\<rparr>"

text \<open>\<open>memset(dip, 0, sizeof(*dip))\<close> and the three assignments of \<open>ialloc\<close>.\<close>

definition new_dinode :: "u16 \<Rightarrow> u32 \<Rightarrow> u32 \<Rightarrow> nat \<Rightarrow> bytes \<Rightarrow> bytes" where
  "new_dinode type uid mode o1 d =
     put32 (put32 (put16 (put_bytes d o1 (replicate DINODE 0)) o1 type) (o1 + 64) mode) (o1 + 68) uid"

definition iget :: "nat \<Rightarrow> nat \<Rightarrow> ('x kfs_scheme, nat) kmon" where
  "iget dev inum = bnd (rd icache) (\<lambda>ic.
     case find (\<lambda>i. i_ref (ic ! i) > 0 \<and> i_dev (ic ! i) = dev \<and> i_inum (ic ! i) = inum) [0..<NINODE] of
       Some ip \<Rightarrow> sq (upd (upd_inode ip (\<lambda>i. i\<lparr>i_ref := i_ref i + 1\<rparr>))) (ret ip)
     | None \<Rightarrow>
        (case find (\<lambda>i. i_ref (ic ! i) = 0) [0..<NINODE] of
           None \<Rightarrow> panic ''iget: no inodes''
         | Some ip \<Rightarrow> sq (upd (upd_inode ip (\<lambda>i. i\<lparr>i_dev := dev, i_inum := inum, i_ref := 1, i_valid := False\<rparr>)))
                       (ret ip)))"

definition iinit :: "nat \<Rightarrow> ('x kfs_scheme, unit) kmon" where
  "iinit dev = sq (upd (\<lambda>s. s\<lparr>icache := map (\<lambda>i. i\<lparr>i_lock := initsleeplock\<rparr>) (icache s)\<rparr>))
     (bnd (readsb dev) (\<lambda>b. sq (upd (\<lambda>s. s\<lparr>sb := b\<rparr>))
       (cprintf (str ''sb: size %d nblocks %d ninodes %d nlog %d logstart %d inodestart %d bmap start %d'' @ [10])
          [ArgInt (of_nat (sb_size b)), ArgInt (of_nat (sb_nblocks b)), ArgInt (of_nat (sb_ninodes b)),
           ArgInt (of_nat (sb_nlog b)), ArgInt (of_nat (sb_logstart b)), ArgInt (of_nat (sb_inodestart b)),
           ArgInt (of_nat (sb_bmapstart b))])))"

definition ialloc_at :: "nat \<Rightarrow> superblock \<Rightarrow> u16 \<Rightarrow> u32 \<Rightarrow> u32 \<Rightarrow> nat \<Rightarrow> ('x kfs_scheme, nat option) kmon" where
  "ialloc_at dev super type uid mode inum = bnd (bread dev (IBLOCK inum super)) (\<lambda>bp. bnd (bdata bp) (\<lambda>d.
     if get16 d (dip_off inum) = 0
     then sq (bset bp (new_dinode type uid mode (dip_off inum) d)) (sq (log_write bp) (sq (brelse bp)
            (bnd (iget dev inum) (\<lambda>ip. ret (Some ip)))))
     else sq (brelse bp) (ret None)))"

definition ialloc :: "nat \<Rightarrow> u16 \<Rightarrow> u32 \<Rightarrow> u32 \<Rightarrow> ('x kfs_scheme, nat) kmon" where
  "ialloc dev type uid mode = bnd (rd sb) (\<lambda>sb.
     bnd (for_ret [1..<sb_ninodes sb] (ialloc_at dev sb type uid mode)) (\<lambda>r.
       case r of Some ip \<Rightarrow> ret ip | None \<Rightarrow> panic ''ialloc: no inodes''))"

definition iupdate :: "nat \<Rightarrow> ('x kfs_scheme, unit) kmon" where
  "iupdate ip = bnd (rd sb) (\<lambda>sb. bnd (rd (inode_at ip)) (\<lambda>i.
     bnd (bread (i_dev i) (IBLOCK (i_inum i) sb)) (\<lambda>bp. bnd (bdata bp) (\<lambda>d.
       sq (bset bp (put_dinode i (dip_off (i_inum i)) d)) (sq (log_write bp) (brelse bp))))))"

subsection \<open>The inode cache\<close>

definition idup :: "nat \<Rightarrow> ('x kfs_scheme, nat) kmon" where
  "idup ip = sq (upd (upd_inode ip (\<lambda>i. i\<lparr>i_ref := i_ref i + 1\<rparr>))) (ret ip)"

text \<open>An inode pointer is an index of the cache, so the tests for a null pointer of \<open>ilock\<close> and \<open>iunlock\<close> have no counterpart.\<close>

definition ilock :: "nat \<Rightarrow> ('x kfs_scheme, unit) kmon" where
  "ilock ip = bnd (rd (inode_at ip)) (\<lambda>i.
     if i_ref i < 1 then panic ''ilock''
     else sq (acquiresleep (ChInodeLock ip) (ino_lock ip) (upd_ino_lock ip))
       (bnd (rd (inode_at ip)) (\<lambda>i.
          if i_valid i then ret ()
          else bnd (rd sb) (\<lambda>sb. bnd (bread (i_dev i) (IBLOCK (i_inum i) sb)) (\<lambda>bp. bnd (bdata bp) (\<lambda>d.
            sq (upd (upd_inode ip (get_dinode d (dip_off (i_inum i)))))
            (sq (brelse bp)
            (sq (upd (upd_inode ip (\<lambda>i. i\<lparr>i_valid := True\<rparr>)))
            (bnd (rd (inode_at ip)) (\<lambda>i. if i_type i = 0 then panic ''ilock: no type'' else ret ()))))))))))"

definition iunlock :: "nat \<Rightarrow> ('x kfs_scheme, unit) kmon" where
  "iunlock ip = bnd (holdingsleep (ino_lock ip)) (\<lambda>h. bnd (rd (inode_at ip)) (\<lambda>i.
     if \<not> h \<or> i_ref i < 1 then panic ''iunlock''
     else releasesleep (ChInodeLock ip) (upd_ino_lock ip)))"

text \<open>The loops of \<open>itrunc\<close> over the direct and over the indirect addresses.\<close>

definition trunc_direct :: "nat \<Rightarrow> ('x kfs_scheme, unit) kmon" where
  "trunc_direct ip = for_all [0..<NDIRECT] (\<lambda>k. bnd (rd (inode_at ip)) (\<lambda>i.
     whenk (i_addrs i ! k \<noteq> 0)
       (sq (bfree (i_dev i) (unat (i_addrs i ! k)))
           (upd (upd_inode ip (\<lambda>i. i\<lparr>i_addrs := (i_addrs i)[k := 0]\<rparr>))))))"

definition trunc_indirect :: "nat \<Rightarrow> ('x kfs_scheme, unit) kmon" where
  "trunc_indirect ip = bnd (rd (inode_at ip)) (\<lambda>i. let a = i_addrs i ! NDIRECT in whenk (a \<noteq> 0)
     (bnd (bread (i_dev i) (unat a)) (\<lambda>bp.
       sq (for_all [0..<NINDIRECT] (\<lambda>j. bnd (bdata bp) (\<lambda>d.
             whenk (get32 d (4 * j) \<noteq> 0) (bfree (i_dev i) (word_at d (4 * j))))))
       (sq (brelse bp)
       (sq (bfree (i_dev i) (unat a))
           (upd (upd_inode ip (\<lambda>i. i\<lparr>i_addrs := (i_addrs i)[NDIRECT := 0]\<rparr>))))))))"

definition itrunc :: "nat \<Rightarrow> ('x kfs_scheme, unit) kmon" where
  "itrunc ip = sq (trunc_direct ip) (sq (trunc_indirect ip)
     (sq (upd (upd_inode ip (\<lambda>i. i\<lparr>i_size := 0\<rparr>))) (iupdate ip)))"

definition iput :: "nat \<Rightarrow> ('x kfs_scheme, unit) kmon" where
  "iput ip = sq (acquiresleep (ChInodeLock ip) (ino_lock ip) (upd_ino_lock ip))
     (sq (bnd (rd (inode_at ip)) (\<lambda>i. whenk (i_valid i \<and> i_nlink i = 0 \<and> i_ref i = 1)
            (sq (itrunc ip) (sq (upd (upd_inode ip (\<lambda>i. i\<lparr>i_type := 0\<rparr>)))
              (sq (iupdate ip) (upd (upd_inode ip (\<lambda>i. i\<lparr>i_valid := False\<rparr>))))))))
     (sq (releasesleep (ChInodeLock ip) (upd_ino_lock ip))
         (upd (upd_inode ip (\<lambda>i. i\<lparr>i_ref := i_ref i - 1\<rparr>)))))"

definition iunlockput :: "nat \<Rightarrow> ('x kfs_scheme, unit) kmon" where
  "iunlockput ip = sq (iunlock ip) (iput ip)"

definition bmap :: "nat \<Rightarrow> nat \<Rightarrow> ('x kfs_scheme, nat) kmon" where
  "bmap ip bn =
    (if bn < NDIRECT then bnd (rd (inode_at ip)) (\<lambda>i.
       if i_addrs i ! bn = 0
       then bnd (balloc (i_dev i)) (\<lambda>a.
         sq (upd (upd_inode ip (\<lambda>i. i\<lparr>i_addrs := (i_addrs i)[bn := of_nat a]\<rparr>))) (ret a))
       else ret (unat (i_addrs i ! bn)))
     else let bn = bn - NDIRECT in
       if bn < NINDIRECT then
         bnd (bnd (rd (inode_at ip)) (\<lambda>i.
           if i_addrs i ! NDIRECT = 0
           then bnd (balloc (i_dev i)) (\<lambda>a.
             sq (upd (upd_inode ip (\<lambda>i. i\<lparr>i_addrs := (i_addrs i)[NDIRECT := of_nat a]\<rparr>))) (ret a))
           else ret (unat (i_addrs i ! NDIRECT)))) (\<lambda>addr.
         bnd (rd (\<lambda>s. i_dev (inode_at ip s))) (\<lambda>dev.
         bnd (bread dev addr) (\<lambda>bp. bnd (bdata bp) (\<lambda>d.
           if get32 d (4 * bn) = 0
           then bnd (balloc dev) (\<lambda>a. bnd (bdata bp) (\<lambda>d.
                  sq (bset bp (put32 d (4 * bn) (of_nat a))) (sq (log_write bp) (sq (brelse bp) (ret a)))))
           else sq (brelse bp) (ret (word_at d (4 * bn)))))))
       else panic ''bmap: out of range'')"

record stat =
  st_dev :: nat
  st_ino :: nat
  st_type :: u16
  st_nlink :: u16
  st_size :: u32
  st_mode :: u16
  st_uid :: u32
  st_gid :: u32

definition stati :: "inode \<Rightarrow> stat" where
  "stati i = \<lparr>st_dev = i_dev i, st_ino = i_inum i, st_type = i_type i, st_nlink = i_nlink i, st_size = i_size i,
     st_mode = ucast (i_mode i), st_uid = i_uid i, st_gid = i_gid i\<rparr>"

declare One_nat_def [simp del]

subsection \<open>A concrete state\<close>

definition zero_inode :: inode where
  "zero_inode = \<lparr>i_dev = 0, i_inum = 0, i_ref = 0, i_lock = initsleeplock, i_valid = False, i_type = 0, i_major = 0,
     i_minor = 0, i_nlink = 0, i_size = 0, i_addrs = replicate (NDIRECT + 1) 0, i_mode = 0, i_uid = 0, i_gid = 0\<rparr>"

subsection \<open>The layout of a dinode\<close>

declare add_2_eq_Suc' [simp del]

lemma put_addrs_fold:
  fixes as :: "u32 list"
  assumes "off + 4 * (NDIRECT + 1) \<le> length d" "m \<le> NDIRECT + 1"
  defines "p \<equiv> fold (\<lambda>i d. put32 d (off + 4 * i) (as ! i)) [0..<m] d"
  shows "length p = length d \<and> (\<forall>i < m. get32 p (off + 4 * i) = as ! i)
    \<and> (\<forall>k. k + 4 \<le> length d \<longrightarrow> k + 4 \<le> off \<or> off + 4 * m \<le> k \<longrightarrow> get32 p k = get32 d k)
    \<and> (\<forall>k. k + 2 \<le> length d \<longrightarrow> k + 2 \<le> off \<or> off + 4 * m \<le> k \<longrightarrow> get16 p k = get16 d k)"
  using assms(2) unfolding p_def
proof (induction m)
  case (Suc m)
  then show ?case using assms(1) by (auto simp: NDIRECT_def less_Suc_eq le_access)
qed simp

lemmas put_addrs_spec = put_addrs_fold[where m = "NDIRECT + 1", OF _ order_refl, folded put_addrs_def]

lemma get_addrs_eqI:
  assumes "\<And>i. i < NDIRECT + 1 \<Longrightarrow> get32 d (off + 4 * i) = as ! i" "length as = NDIRECT + 1"
  shows "get_addrs d off = as"
proof (rule nth_equalityI)
  show "length (get_addrs d off) = length as" using assms(2) by (simp add: get_addrs_def)
  fix i assume "i < length (get_addrs d off)"
  then have "i < NDIRECT + 1" by (simp add: get_addrs_def)
  then show "get_addrs d off ! i = as ! i" using assms(1) unfolding get_addrs_def by (subst nth_map_upt) simp_all
qed

text \<open>Two arrays that agree but in the \<open>n\<close> bytes from \<open>a\<close> on.\<close>

definition same_but :: "nat \<Rightarrow> nat \<Rightarrow> bytes \<Rightarrow> bytes \<Rightarrow> bool" where
  "same_but a n d e \<longleftrightarrow> length e = length d \<and> (\<forall>i < length d. i < a \<or> a + n \<le> i \<longrightarrow> e ! i = d ! i)"

lemma same_but_refl [simp]: "same_but a n d d"
  by (simp add: same_but_def)

lemma same_but_put_bytes:
  assumes "same_but a n d e" "a \<le> k" "k + length xs \<le> a + n" "a + n \<le> length d"
  shows "same_but a n d (put_bytes e k xs)"
  using assms nth_put_bytes[of k xs e] by (auto simp: same_but_def)

lemma same_but_put:
  assumes "same_but a n d e" "a \<le> k" "a + n \<le> length d"
  shows "k + 2 \<le> a + n \<Longrightarrow> same_but a n d (put16 e k v)" "k + 4 \<le> a + n \<Longrightarrow> same_but a n d (put32 e k w)"
  using assms by (auto simp: put16_def put32_def intro!: same_but_put_bytes)

lemma same_but_put_addrs:
  assumes "same_but a n d e" "a \<le> k" "a + n \<le> length d" "k + 52 \<le> a + n"
  shows "same_but a n d (put_addrs e k as)"
proof -
  have "same_but a n d (fold (\<lambda>i d. put32 d (k + 4 * i) (as ! i)) [0..<m] e)" if "m \<le> 13" for m
    using that by (induction m) (use assms in \<open>auto intro!: same_but_put\<close>)
  then show ?thesis by (simp add: put_addrs_def NDIRECT_def)
qed

lemma same_but_get:
  assumes "same_but a n d e"
  shows "k + 2 \<le> length d \<Longrightarrow> k + 2 \<le> a \<or> a + n \<le> k \<Longrightarrow> get16 e k = get16 d k"
    "k + 4 \<le> length d \<Longrightarrow> k + 4 \<le> a \<or> a + n \<le> k \<Longrightarrow> get32 e k = get32 d k"
  using assms by (auto simp: same_but_def get16_def get32_def)

text \<open>The fields but the addresses, as the code assigns them.\<close>

definition put_fields :: "inode \<Rightarrow> nat \<Rightarrow> bytes \<Rightarrow> bytes" where
  "put_fields ip o1 d = put32 (put32 (put32 (put32 (put16 (put16 (put16 (put16 d o1 (i_type ip)) (o1 + 2) (i_major ip))
    (o1 + 4) (i_minor ip)) (o1 + 6) (i_nlink ip)) (o1 + 8) (i_size ip)) (o1 + 64) (i_mode ip)) (o1 + 68) (i_uid ip))
    (o1 + 72) (i_gid ip)"

lemma put_dinode_alt: "put_dinode ip o1 d = put_addrs (put_fields ip o1 d) (o1 + 12) (i_addrs ip)"
  by (simp add: put_dinode_def put_fields_def Let_def)

lemma put_fields_get:
  fixes ip :: inode
  assumes "o1 + DINODE \<le> length d"
  defines "e \<equiv> put_fields ip o1 d"
  shows "length e = length d"
    "get16 e o1 = i_type ip" "get16 e (o1 + 2) = i_major ip" "get16 e (o1 + 4) = i_minor ip" "get16 e (o1 + 6) = i_nlink ip"
    "get32 e (o1 + 8) = i_size ip" "get32 e (o1 + 64) = i_mode ip" "get32 e (o1 + 68) = i_uid ip" "get32 e (o1 + 72) = i_gid ip"
proof -
  define d1 where "d1 = put16 d o1 (i_type ip)"
  define d2 where "d2 = put16 d1 (o1 + 2) (i_major ip)"
  define d3 where "d3 = put16 d2 (o1 + 4) (i_minor ip)"
  define d4 where "d4 = put16 d3 (o1 + 6) (i_nlink ip)"
  define d5 where "d5 = put32 d4 (o1 + 8) (i_size ip)"
  define d6 where "d6 = put32 d5 (o1 + 64) (i_mode ip)"
  define d7 where "d7 = put32 d6 (o1 + 68) (i_uid ip)"
  have e: "e = put32 d7 (o1 + 72) (i_gid ip)"
    by (simp add: e_def put_fields_def d1_def d2_def d3_def d4_def d5_def d6_def d7_def)
  have l: "o1 + 128 \<le> length d" using assms(1) by (simp add: DINODE_def)
  have l1: "length d1 = length d" using l by (simp add: d1_def)
  have l2: "length d2 = length d" using l l1 by (simp add: d2_def)
  have l3: "length d3 = length d" using l l2 by (simp add: d3_def)
  have l4: "length d4 = length d" using l l3 by (simp add: d4_def)
  have l5: "length d5 = length d" using l l4 by (simp add: d5_def)
  have l6: "length d6 = length d" using l l5 by (simp add: d6_def)
  have l7: "length d7 = length d" using l l6 by (simp add: d7_def)
  show "length e = length d" using l l7 by (simp add: e)
  have s7: "same_but (o1 + 72) 4 d7 e" and s6: "same_but (o1 + 68) 8 d6 e" and s5: "same_but (o1 + 64) 12 d5 e"
    unfolding e d7_def d6_def by (intro same_but_put same_but_refl; use l l5 l6 l7 in simp)+
  have s4: "same_but (o1 + 8) 68 d4 e"
    unfolding e d7_def d6_def d5_def by (intro same_but_put same_but_refl; use l l4 in simp)
  have t3: "same_but (o1 + 6) 2 d3 d4" and t2: "same_but (o1 + 4) 4 d2 d4" and t1: "same_but (o1 + 2) 6 d1 d4"
    unfolding d4_def d3_def d2_def by (intro same_but_put same_but_refl; use l l1 l2 l3 in simp)+
  show "get32 e (o1 + 72) = i_gid ip" unfolding e by (rule get32_put32) (use l l7 in simp)
  have "get32 d7 (o1 + 68) = i_uid ip" unfolding d7_def by (rule get32_put32) (use l l6 in simp)
  then show "get32 e (o1 + 68) = i_uid ip" using same_but_get(2)[OF s7, of "o1 + 68"] l l7 by simp
  have "get32 d6 (o1 + 64) = i_mode ip" unfolding d6_def by (rule get32_put32) (use l l5 in simp)
  then show "get32 e (o1 + 64) = i_mode ip" using same_but_get(2)[OF s6, of "o1 + 64"] l l6 by simp
  have "get32 d5 (o1 + 8) = i_size ip" unfolding d5_def by (rule get32_put32) (use l l4 in simp)
  then show "get32 e (o1 + 8) = i_size ip" using same_but_get(2)[OF s5, of "o1 + 8"] l l5 by simp
  have h: "get16 e k = get16 d4 k" if "k + 2 \<le> o1 + 8" for k using same_but_get(1)[OF s4, of k] that l l4 by simp
  have "get16 d4 (o1 + 6) = i_nlink ip" unfolding d4_def by (rule get16_put16) (use l l3 in simp)
  then show "get16 e (o1 + 6) = i_nlink ip" using h[of "o1 + 6"] by simp
  have "get16 d3 (o1 + 4) = i_minor ip" unfolding d3_def by (rule get16_put16) (use l l2 in simp)
  then show "get16 e (o1 + 4) = i_minor ip" using h[of "o1 + 4"] same_but_get(1)[OF t3, of "o1 + 4"] l l3 by simp
  have "get16 d2 (o1 + 2) = i_major ip" unfolding d2_def by (rule get16_put16) (use l l1 in simp)
  then show "get16 e (o1 + 2) = i_major ip" using h[of "o1 + 2"] same_but_get(1)[OF t2, of "o1 + 2"] l l2 by simp
  have "get16 d1 o1 = i_type ip" unfolding d1_def by (rule get16_put16) (use l in simp)
  then show "get16 e o1 = i_type ip" using h[of o1] same_but_get(1)[OF t1, of o1] l l1 by simp
qed

lemma put_dinode_same_but:
  assumes "o1 + DINODE \<le> length d"
  shows "same_but o1 DINODE d (put_dinode ip o1 d)"
  unfolding put_dinode_def Let_def using assms
  by (intro same_but_put_addrs same_but_put same_but_refl) (simp_all add: DINODE_def)

lemma length_put_dinode [simp]: "o1 + DINODE \<le> length d \<Longrightarrow> length (put_dinode ip o1 d) = length d"
  using put_dinode_same_but[of o1 d ip] by (simp add: same_but_def)

lemma get_put_dinode:
  assumes "o1 + DINODE \<le> length d" "length (i_addrs ip) = NDIRECT + 1"
  shows "get_dinode (put_dinode ip o1 d) o1 ip = ip"
proof -
  note f = put_fields_get[OF assms(1), of ip]
  have "o1 + 12 + 4 * (NDIRECT + 1) \<le> length (put_fields ip o1 d)" using assms(1) f(1) by (simp add: DINODE_def NDIRECT_def)
  note a = put_addrs_spec[OF this, of "i_addrs ip"]
  have ad: "get_addrs (put_dinode ip o1 d) (o1 + 12) = i_addrs ip"
    unfolding put_dinode_alt using a assms(2) by (intro get_addrs_eqI) simp_all
  have "same_but (o1 + 12) 52 (put_fields ip o1 d) (put_dinode ip o1 d)"
    unfolding put_dinode_alt using assms(1) f(1) by (intro same_but_put_addrs) (simp_all add: DINODE_def)
  note s = same_but_get[OF this]
  have "get32 (put_dinode ip o1 d) k = get32 (put_fields ip o1 d) k"
      if "k + 4 \<le> o1 + 12 \<or> o1 + 64 \<le> k" "k + 4 \<le> o1 + 128" for k
    using that assms(1) f(1) by (intro s(2)) (auto simp: DINODE_def)
  moreover have "get16 (put_dinode ip o1 d) k = get16 (put_fields ip o1 d) k" if "k + 2 \<le> o1 + 12" for k
    using that assms(1) f(1) by (intro s(1)) (auto simp: DINODE_def)
  ultimately show ?thesis using f ad by (simp add: get_dinode_def)
qed

lemma get_put_dinode_other:
  assumes "o1 + DINODE \<le> length d" "o2 + DINODE \<le> length d" "o1 + DINODE \<le> o2 \<or> o2 + DINODE \<le> o1"
  shows "get_dinode (put_dinode ip o1 d) o2 j = get_dinode d o2 j"
proof -
  note s = same_but_get[OF put_dinode_same_but[OF assms(1), of ip]]
  have w: "get32 (put_dinode ip o1 d) k = get32 d k" if "o2 \<le> k" "k + 4 \<le> o2 + 128" for k
    using assms that by (intro s(2)) (auto simp: DINODE_def)
  have h: "get16 (put_dinode ip o1 d) k = get16 d k" if "o2 \<le> k" "k + 2 \<le> o2 + 128" for k
    using assms that by (intro s(1)) (auto simp: DINODE_def)
  have "get_addrs (put_dinode ip o1 d) (o2 + 12) = get_addrs d (o2 + 12)"
    unfolding get_addrs_def by (intro map_cong refl w) (auto simp: NDIRECT_def)
  then show ?thesis by (simp add: get_dinode_def w h)
qed

lemma dip_off_slots:
  assumes "a mod IPB \<noteq> b mod IPB"
  shows "dip_off a + DINODE \<le> dip_off b \<or> dip_off b + DINODE \<le> dip_off a"
  using assms unfolding dip_off_def DINODE_def by linarith

lemma dip_off_bound: "dip_off a + DINODE \<le> BSIZE"
proof -
  have "a mod IPB < 4" by (simp add: IPB_def)
  then show ?thesis by (simp add: dip_off_def DINODE_def BSIZE_def)
qed

text \<open>
  C12. On-disk inodes. Writing inode \<open>ip\<close> into its slot of an inode block, as \<open>iupdate\<close> does, and loading the
  slot into any cache entry \<open>j\<close>, as \<open>ilock\<close> does, gives every field of \<open>ip\<close> that is kept on disk, owner, group
  and mode included, and leaves the entry's own device, number, references, lock and flag; the other
  inodes of the block keep their fields.
\<close>

theorem dinode_round_trip:
  assumes "length d = BSIZE" "length (i_addrs ip) = NDIRECT + 1"
  shows "get_dinode (put_dinode ip (dip_off a) d) (dip_off a) j =
      \<lparr>i_dev = i_dev j, i_inum = i_inum j, i_ref = i_ref j, i_lock = i_lock j, i_valid = i_valid j,
       i_type = i_type ip, i_major = i_major ip, i_minor = i_minor ip, i_nlink = i_nlink ip, i_size = i_size ip,
       i_addrs = i_addrs ip, i_mode = i_mode ip, i_uid = i_uid ip, i_gid = i_gid ip\<rparr> \<and>
    (a mod IPB \<noteq> b mod IPB \<longrightarrow> get_dinode (put_dinode ip (dip_off a) d) (dip_off b) j = get_dinode d (dip_off b) j)"
proof -
  let ?d = "put_dinode ip (dip_off a) d"
  have g: "get_dinode ?d (dip_off a) ip = ip"
    using get_put_dinode[of "dip_off a" d ip] dip_off_bound[of a] assms by simp
  have "get_dinode ?d (dip_off a) j = (get_dinode ?d (dip_off a) ip)
    \<lparr>i_dev := i_dev j, i_inum := i_inum j, i_ref := i_ref j, i_lock := i_lock j, i_valid := i_valid j\<rparr>"
    by (simp add: get_dinode_def)
  then have "get_dinode ?d (dip_off a) j =
      \<lparr>i_dev = i_dev j, i_inum = i_inum j, i_ref = i_ref j, i_lock = i_lock j, i_valid = i_valid j,
       i_type = i_type ip, i_major = i_major ip, i_minor = i_minor ip, i_nlink = i_nlink ip, i_size = i_size ip,
       i_addrs = i_addrs ip, i_mode = i_mode ip, i_uid = i_uid ip, i_gid = i_gid ip\<rparr>"
    unfolding g by simp
  then show ?thesis
    using get_put_dinode_other[of "dip_off a" d "dip_off b" ip j] dip_off_slots[of a b] dip_off_bound[of a]
      dip_off_bound[of b] assms by simp
qed

theorem dinode_round_trip_witness:
  "get_dinode (put_dinode (zero_inode\<lparr>i_mode := 0x1a4, i_uid := 7, i_gid := 8\<rparr>) (dip_off 5) (replicate BSIZE 0)) (dip_off 5)
      (zero_inode\<lparr>i_inum := 5, i_ref := 1, i_mode := 3, i_gid := 9\<rparr>)
     = zero_inode\<lparr>i_inum := 5, i_ref := 1, i_mode := 0x1a4, i_uid := 7, i_gid := 8\<rparr>
   \<and> get_dinode (put_dinode zero_inode (dip_off 5) (replicate BSIZE 0)) (dip_off 6) zero_inode
     = get_dinode (replicate BSIZE 0) (dip_off 6) zero_inode"
  using dinode_round_trip[of "replicate BSIZE 0" "zero_inode\<lparr>i_mode := 0x1a4, i_uid := 7, i_gid := 8\<rparr>" 5
      "zero_inode\<lparr>i_inum := 5, i_ref := 1, i_mode := 3, i_gid := 9\<rparr>"]
    dinode_round_trip[of "replicate BSIZE 0" zero_inode 5 zero_inode 6] by (simp add: zero_inode_def IPB_def)

definition demo_super :: superblock where
  "demo_super = \<lparr>sb_size = 100, sb_nblocks = 54, sb_ninodes = 40, sb_nlog = 30, sb_logstart = 2, sb_inodestart = 32,
     sb_bmapstart = 45\<rparr>"

definition root_inode :: inode where
  "root_inode = zero_inode\<lparr>i_type := T_DIR, i_nlink := 1, i_mode := 0x1ed\<rparr>"

text \<open>A file system whose root directory, inode 1, is empty, and whose first 56 blocks are in use.\<close>

definition fs_disk :: disk where
  "fs_disk = demo_disk(32 := put_dinode root_inode (dip_off 1) (replicate BSIZE 0),
     45 := replicate 7 0xff @ replicate 505 0)"

definition boot_fs :: kfs where
  "boot_fs = (kcons.extend boot_cons (kfs.fields demo_super (replicate NINODE zero_inode) (\<lambda>_. None)))\<lparr>memdisk := fs_disk\<rparr>"

subsection \<open>The bitmap\<close>

lemma bm_bit_iff: "bm_bit d i \<longleftrightarrow> bit (d ! (i div 8)) (i mod 8)"
  by (simp add: bm_bit_def bit_iff_and_push_bit_not_eq_0)

lemma bm_set_bit:
  assumes "i < 8 * length d"
  shows "bm_bit (bm_set d i) j \<longleftrightarrow> j = i \<or> bm_bit d j"
proof -
  have l: "i div 8 < length d" using assms by (simp add: less_mult_imp_div_less mult.commute)
  have e: "j = i \<longleftrightarrow> j div 8 = i div 8 \<and> j mod 8 = i mod 8" by (metis div_mult_mod_eq)
  show ?thesis using l by (auto simp: bm_bit_iff bm_set_def nth_list_update bit_simps e)
qed

lemma bm_clear_bit:
  assumes "i < 8 * length d"
  shows "bm_bit (bm_clear d i) j \<longleftrightarrow> j \<noteq> i \<and> bm_bit d j"
proof -
  have l: "i div 8 < length d" using assms by (simp add: less_mult_imp_div_less mult.commute)
  have e: "j = i \<longleftrightarrow> j div 8 = i div 8 \<and> j mod 8 = i mod 8" by (metis div_mult_mod_eq)
  have "j mod 8 < 8" by simp
  then show ?thesis using l by (auto simp: bm_bit_iff bm_clear_def nth_list_update bit_simps e)
qed

lemma length_bm [simp]: "length (bm_set d i) = length d" "length (bm_clear d i) = length d"
  by (simp_all add: bm_set_def bm_clear_def)

lemma log_step_fs:
  fixes s s' :: "'x kfs_scheme"
  assumes "log_step s s'"
  shows "sb s' = sb s" "icache s' = icache s" "devsw s' = devsw s"
  using assms unfolding log_step_def by (cases s; cases s'; simp)+

text \<open>Whether a block is marked in use, and the layout that the allocator relies on.\<close>

definition block_used :: "'x kfs_scheme \<Rightarrow> nat \<Rightarrow> bool" where
  "block_used s b \<longleftrightarrow> bm_bit (view s (BBLOCK b (sb s))) (b mod BPB)"

definition bitmap_ok :: "'x kfs_scheme \<Rightarrow> bool" where
  "bitmap_ok s \<longleftrightarrow> (\<forall>b < sb_size (sb s). usable s (BBLOCK b (sb s)))
     \<and> (\<forall>b < sb_size (sb s). \<not> block_used s b \<longrightarrow> usable s b \<and> (\<forall>c < sb_size (sb s). BBLOCK c (sb s) \<noteq> b))"

lemma BPB_bits: "length d = BSIZE \<Longrightarrow> b mod BPB < 8 * length d"
  by (simp add: BPB_def BSIZE_def)

lemma bzero_modify: "bzero 1 k = modify k (\<lambda>_. replicate BSIZE 0)"
  by (rule ext) (simp add: bzero_def modify_def bdata_def bnd_def split: sum.split)

lemma balloc_in_none:
  assumes "tx (Suc m) s" "usable s (BBLOCK b super)"
    "\<And>i. i < min BPB (sb_size super - b) \<Longrightarrow> bm_bit (view s (BBLOCK b super)) i"
  shows "\<exists>s'. balloc_in 1 super b s = Inr (None, s') \<and> tx (Suc m) s' \<and> tx_step s s' \<and> view s' = view s"
proof -
  have f: "find (\<lambda>bi. \<not> bm_bit (view s (BBLOCK b super)) bi) [0..<min BPB (sb_size super - b)] = None"
    using assms(3) by (auto simp: find_None_iff)
  have u: "BBLOCK b super < disksize s" "BBLOCK b super \<notin> held s" using assms(2) by (simp_all add: usable_def)
  obtain s' where s': "look (BBLOCK b super) s = Inr (view s (BBLOCK b super), s')" "tx (Suc m) s'" "tx_step s s'" "view s' = view s"
    using look_spec[OF assms(1) u] by blast
  obtain i t where t: "bread 1 (BBLOCK b super) s = Inr (i, t)" "b_data (bufs t ! i) = view s (BBLOCK b super)"
      "brelse i t = Inr ((), s')"
    using s'(1) by (auto simp: look_def bdata_def bnd_Inr sq_Inr)
  have "balloc_in 1 super b s = Inr (None, s')" using t f by (simp add: balloc_in_def bdata_def)
  with s' show ?thesis by blast
qed

lemma balloc_in_some:
  assumes "tx (Suc (Suc m)) s" "usable s (BBLOCK b super)"
    "find (\<lambda>bi. \<not> bm_bit (view s (BBLOCK b super)) bi) [0..<min BPB (sb_size super - b)] = Some i"
    "usable s (b + i)" "BBLOCK b super \<noteq> b + i"
  shows "\<exists>s'. balloc_in 1 super b s = Inr (Some (b + i), s') \<and> tx m s' \<and> tx_step s s' \<and>
    view s' = (view s)(BBLOCK b super := bm_set (view s (BBLOCK b super)) i, b + i := replicate BSIZE 0)"
proof -
  let ?k = "BBLOCK b super" and ?f = "\<lambda>d. bm_set d i"
  have len: "length (?f (view s ?k)) = BSIZE" using assms(1) view_len[of s ?k] by (simp add: tx_def)
  obtain t where t: "modify ?k ?f s = Inr ((), t)" "tx (Suc m) t" "tx_step s t" "view t = (view s)(?k := ?f (view s ?k))"
    using modify_spec[where f = ?f, OF assms(1,2) len] by blast
  have u: "usable t (b + i)" using assms(4) usable_step[OF t(3)] by simp
  obtain s' where s': "modify (b + i) (\<lambda>_. replicate BSIZE 0) t = Inr ((), s')" "tx m s'" "tx_step t s'"
      "view s' = (view t)(b + i := replicate BSIZE 0)"
    using modify_spec[where f = "\<lambda>_. replicate BSIZE 0", OF t(2) u] by auto
  obtain j r where j: "bread 1 ?k s = Inr (j, r)" "sq (bset j (?f (b_data (bufs r ! j)))) (sq (log_write j) (brelse j)) r = Inr ((), t)"
    using t(1) by (auto simp: modify_def bdata_def bnd_Inr)
  have "b_data (bufs r ! j) = view s ?k" by (rule tx_read_data[OF assms(1,2) j(1)])
  with j assms(3) s'(1) have "balloc_in 1 super b s = Inr (Some (b + i), s')"
    by (auto simp: balloc_in_def bdata_def sq_Inr bzero_modify)
  then show ?thesis using s' t tx_step_trans[OF t(3) s'(3)] by auto
qed


lemma bitmap_block:
  assumes "c mod BPB = 0" "i < BPB"
  shows "BBLOCK (c + i) super = BBLOCK c super" "(c + i) mod BPB = i"
proof -
  obtain q where q: "c = q * BPB" using assms(1) by (metis mod_eq_0_iff_dvd dvd_def mult.commute)
  show "(c + i) mod BPB = i" using assms(2) by (simp add: q)
  show "BBLOCK (c + i) super = BBLOCK c super" using assms(2) by (simp add: BBLOCK_def q)
qed

lemma fs_step:
  assumes "tx_step s s'" "view s' = view s"
  shows "sb s' = sb s" "bitmap_ok s' = bitmap_ok s" "block_used s' = block_used s"
proof -
  show sb: "sb s' = sb s" using assms(1) log_step_fs(1)[of s s'] by (simp add: tx_step_def)
  show u: "block_used s' = block_used s" by (rule ext) (simp add: block_used_def sb assms(2))
  show "bitmap_ok s' = bitmap_ok s" by (simp add: bitmap_ok_def sb u usable_step[OF assms(1)])
qed

definition alloc_view :: "superblock \<Rightarrow> nat \<Rightarrow> (nat \<Rightarrow> bytes) \<Rightarrow> nat \<Rightarrow> bytes" where
  "alloc_view super b v = v(BBLOCK b super := bm_set (v (BBLOCK b super)) (b mod BPB), b := replicate BSIZE 0)"

lemma balloc_loop:
  assumes "tx (Suc (Suc m)) s" "bitmap_ok s" "\<And>c. c \<in> set bs \<Longrightarrow> c mod BPB = 0 \<and> c < sb_size (sb s)"
    "c \<in> set bs" "i < BPB" "c + i < sb_size (sb s)" "\<not> block_used s (c + i)"
  shows "\<exists>b s'. for_ret bs (balloc_in 1 (sb s)) s = Inr (Some b, s') \<and> b < sb_size (sb s) \<and> \<not> block_used s b
    \<and> tx m s' \<and> tx_step s s' \<and> view s' = alloc_view (sb s) b (view s)"
  using assms
proof (induction bs arbitrary: s)
  case (Cons x bs)
  let ?n = "min BPB (sb_size (sb s) - x)" and ?P = "\<lambda>bi. \<not> bm_bit (view s (BBLOCK x (sb s))) bi"
  have x: "x mod BPB = 0" "x < sb_size (sb s)" using Cons.prems(3)[of x] by simp_all
  have ux: "usable s (BBLOCK x (sb s))" using Cons.prems(2) x(2) by (simp add: bitmap_ok_def)
  show ?case
  proof (cases "find ?P [0..<?n]")
    case None
    then have "bm_bit (view s (BBLOCK x (sb s))) j" if "j < ?n" for j using that by (auto simp: find_None_iff)
    then obtain t where t: "balloc_in 1 (sb s) x s = Inr (None, t)" "tx (Suc (Suc m)) t" "tx_step s t" "view t = view s"
      using balloc_in_none[OF Cons.prems(1) ux] by blast
    note f = fs_step[OF t(3,4)]
    have "c \<noteq> x"
    proof
      assume "c = x"
      then have "block_used s (c + i)" using None Cons.prems(5,6) bitmap_block(1)[OF x(1) Cons.prems(5), of "sb s"]
          bitmap_block(2)[OF x(1) Cons.prems(5)]
        by (auto simp: block_used_def find_None_iff)
      with Cons.prems(7) show False by simp
    qed
    with Cons.prems(4) have c: "c \<in> set bs" by simp
    from Cons.IH[OF t(2) _ _ c Cons.prems(5)] Cons.prems(2,3,6,7) f
    obtain b s' where "for_ret bs (balloc_in 1 (sb t)) t = Inr (Some b, s')" "b < sb_size (sb t)" "\<not> block_used t b"
        "tx m s'" "tx_step t s'" "view s' = alloc_view (sb t) b (view t)" by auto
    then show ?thesis using t f tx_step_trans[OF t(3)] by auto
  next
    case (Some j)
    then have j: "j < ?n" "?P j" by (auto simp: find_Some_iff)
    note b = bitmap_block(1)[OF x(1), of j "sb s"] bitmap_block(2)[OF x(1), of j]
    have free: "\<not> block_used s (x + j)" using j b by (simp add: block_used_def)
    have lt: "x + j < sb_size (sb s)" using j x(2) by (auto simp: less_diff_conv)
    have u: "usable s (x + j)" "BBLOCK x (sb s) \<noteq> x + j" using Cons.prems(2) free lt x(2) by (auto simp: bitmap_ok_def)
    have "alloc_view (sb s) (x + j) (view s) =
        (view s)(BBLOCK x (sb s) := bm_set (view s (BBLOCK x (sb s))) j, x + j := replicate BSIZE 0)"
      using b j by (simp add: alloc_view_def)
    with balloc_in_some[OF Cons.prems(1) ux Some u] free lt show ?thesis by (auto simp del: fun_upd_apply)
  qed
qed simp

text \<open>
  C13. Block allocation. If some block is free, \<open>balloc\<close> neither panics nor sleeps: it returns a block that
  the bitmap has free, marks exactly that block as used, fills it with zeros, and changes the contents
  of no other block but the bitmap block; nothing reaches the disk before the transaction commits.
\<close>

theorem balloc_allocates:
  assumes "tx 2 s" "bitmap_ok s" "f < sb_size (sb s)" "\<not> block_used s f"
  shows "\<exists>b s'. balloc 1 s = Inr (b, s') \<and> b < sb_size (sb s) \<and> \<not> block_used s b \<and> view s' b = replicate BSIZE 0
    \<and> (\<forall>c < sb_size (sb s). block_used s' c \<longleftrightarrow> c = b \<or> block_used s c)
    \<and> (\<forall>k. k \<noteq> b \<longrightarrow> k \<noteq> BBLOCK b (sb s) \<longrightarrow> view s' k = view s k)
    \<and> tx 0 s' \<and> memdisk s' = memdisk s \<and> held s' = held s \<and> icache s' = icache s"
proof -
  let ?bs = "map ((*) BPB) [0..<(sb_size (sb s) + BPB - 1) div BPB]"
  have p: "0 < BPB" by (simp add: BPB_def)
  have bs: "c mod BPB = 0 \<and> c < sb_size (sb s)" if "c \<in> set ?bs" for c
  proof -
    have "c \<in> (*) BPB ` {0..<(sb_size (sb s) + BPB - 1) div BPB}" using that by simp
    then obtain q where q: "c = BPB * q" "q \<in> {0..<(sb_size (sb s) + BPB - 1) div BPB}" by blast
    then have "Suc q * BPB \<le> sb_size (sb s) + BPB - 1" using p
      by (metis Suc_leI atLeastLessThan_iff div_times_less_eq_dividend le_trans mult_le_mono1)
    then show ?thesis using q(1) p by (simp add: mult.commute)
  qed
  have "f div BPB < (sb_size (sb s) + BPB - 1) div BPB"
  proof -
    have "Suc (f div BPB) * BPB \<le> sb_size (sb s) + BPB - 1"
      using assms(3) p div_times_less_eq_dividend[of f BPB] unfolding mult_Suc by linarith
    then have "Suc (f div BPB) \<le> (sb_size (sb s) + BPB - 1) div BPB" using p by (simp add: less_eq_div_iff_mult_less_eq)
    then show ?thesis by simp
  qed
  then have c: "BPB * (f div BPB) \<in> set ?bs" by auto
  have f: "BPB * (f div BPB) + f mod BPB = f" "f mod BPB < BPB" using p by simp_all
  have t2: "tx (Suc (Suc 0)) s" using assms(1) by (simp add: numeral_2_eq_2)
  obtain b s' where r: "for_ret ?bs (balloc_in 1 (sb s)) s = Inr (Some b, s')" "b < sb_size (sb s)" "\<not> block_used s b"
      "tx 0 s'" "tx_step s s'" "view s' = alloc_view (sb s) b (view s)"
    using balloc_loop[OF t2 assms(2) bs c f(2)] assms(3,4) f(1) by auto
  have b: "balloc 1 s = Inr (b, s')" using r(1) by (simp add: balloc_def)
  have sb: "sb s' = sb s" "icache s' = icache s" using r(5) log_step_fs[of s s'] by (auto simp: tx_step_def)
  have nb: "BBLOCK c (sb s) \<noteq> b" if "c < sb_size (sb s)" for c using assms(2) r(2,3) that by (auto simp: bitmap_ok_def)
  have len: "length (view s (BBLOCK b (sb s))) = BSIZE" using assms(1) view_len[of s] by (simp add: tx_def)
  have "block_used s' c \<longleftrightarrow> c = b \<or> block_used s c" if "c < sb_size (sb s)" for c
  proof -
    have e: "c = b \<longleftrightarrow> BBLOCK c (sb s) = BBLOCK b (sb s) \<and> c mod BPB = b mod BPB"
      by (auto simp: BBLOCK_def) (metis div_mult_mod_eq)
    show ?thesis using nb[OF that] e bm_set_bit[OF BPB_bits[OF len, of b]]
      by (auto simp: block_used_def sb r(6) alloc_view_def)
  qed
  with b r sb show ?thesis by (auto simp: alloc_view_def tx_step_def)
qed


text \<open>
  C35. Freeing a block. \<open>bfree\<close> of a block in use clears its bit and no other, and changes no other block;
  \<open>bfree\<close> of a free block panics.
\<close>

theorem bfree_frees:
  assumes "tx 1 s" "usable s (BBLOCK b (sb s))"
  shows "if block_used s b
    then \<exists>s'. bfree 1 b s = Inr ((), s') \<and> (\<forall>c. block_used s' c \<longleftrightarrow> c \<noteq> b \<and> block_used s c)
      \<and> (\<forall>k. k \<noteq> BBLOCK b (sb s) \<longrightarrow> view s' k = view s k) \<and> tx 0 s' \<and> memdisk s' = memdisk s \<and> icache s' = icache s
    else \<exists>s'. bfree 1 b s = Inl (Panic ''freeing free block'', s')"
proof -
  let ?k = "BBLOCK b (sb s)" and ?f = "\<lambda>d. bm_clear d (b mod BPB)"
  have t1: "tx (Suc 0) s" using assms(1) by (simp add: One_nat_def)
  have len: "length (view s ?k) = BSIZE" using assms(1) view_len[of s] by (simp add: tx_def)
  obtain t where t: "modify ?k ?f s = Inr ((), t)" "tx 0 t" "tx_step s t" "view t = (view s)(?k := ?f (view s ?k))"
    using modify_spec[where f = ?f, OF t1 assms(2)] len by auto
  obtain j r where j: "bread 1 ?k s = Inr (j, r)" "sq (bset j (?f (b_data (bufs r ! j)))) (sq (log_write j) (brelse j)) r = Inr ((), t)"
    using t(1) by (auto simp: modify_def bdata_def bnd_Inr)
  have d: "b_data (bufs r ! j) = view s ?k" by (rule tx_read_data[OF t1 assms(2) j(1)])
  have sb: "sb t = sb s" "icache t = icache s" using t(3) log_step_fs[of s t] by (auto simp: tx_step_def)
  have used: "block_used t c \<longleftrightarrow> c \<noteq> b \<and> block_used s c" for c
  proof -
    have e: "c = b \<longleftrightarrow> BBLOCK c (sb s) = ?k \<and> c mod BPB = b mod BPB"
      by (auto simp: BBLOCK_def) (metis div_mult_mod_eq)
    show ?thesis using e bm_clear_bit[OF BPB_bits[OF len, of b]] by (auto simp: block_used_def sb t(4))
  qed
  have "\<exists>s'. bfree 1 b s = Inr ((), s') \<and> (\<forall>c. block_used s' c \<longleftrightarrow> c \<noteq> b \<and> block_used s c)
      \<and> (\<forall>k. k \<noteq> ?k \<longrightarrow> view s' k = view s k) \<and> tx 0 s' \<and> memdisk s' = memdisk s \<and> icache s' = icache s" if "block_used s b"
    using that j d t used sb by (auto simp: bfree_def bdata_def block_used_def tx_step_def)
  moreover have "\<exists>s'. bfree 1 b s = Inl (Panic ''freeing free block'', s')" if "\<not> block_used s b"
    using that j d by (auto simp: bfree_def bdata_def block_used_def)
  ultimately show ?thesis by simp
qed


lemma fs_disk_len: "length (fs_disk k) = BSIZE"
  using dip_off_bound[of 1] by (simp add: fs_disk_def demo_disk_len BSIZE_def)

lemma boot_fs_fresh: "fresh_on fs_disk boot_fs"
  by (simp add: fresh_on_def boot_fs_def boot_cons_def boot_log_def boot_bio_def klog.defs kcons.defs kfs.defs)

lemma fs_disk_log: "head_n (fs_disk 2) = 0"
  by (simp add: fs_disk_def demo_disk_def head_n_def BSIZE_def)

lemmas boot_fs_tx = fresh_tx[OF boot_fs_fresh fs_disk_len fs_disk_log]

lemma boot_fs_sb: "sb boot_fs = demo_super" "icache boot_fs = replicate NINODE zero_inode"
  by (simp_all add: boot_fs_def kfs.defs kcons.defs)

lemma boot_fs_used: "block_used boot_fs b \<longleftrightarrow> b < 56" if "b < 100"
proof -
  have "b div 8 < 13" "BBLOCK b demo_super = 45" "b mod BPB = b" using that by (simp_all add: BBLOCK_def BPB_def demo_super_def)
  moreover have "(0xff :: u8) = - 1" by (simp add: One_nat_def)
  then have "bit (0xff :: u8) (b mod 8)" by (simp only: bit_minus_1_iff) simp
  ultimately show ?thesis using that
    by (auto simp: block_used_def boot_fs_sb boot_fs_tx(2) fs_disk_def bm_bit_iff nth_append)
qed

lemma boot_fs_bitmap: "bitmap_ok boot_fs"
  by (auto simp: bitmap_ok_def boot_fs_used boot_fs_sb boot_fs_tx(4) demo_super_def BBLOCK_def BPB_def)

theorem balloc_allocates_witness:
  "\<exists>b s'. balloc 1 boot_fs = Inr (b, s') \<and> \<not> block_used boot_fs b \<and> block_used s' b"
proof -
  have "tx 2 boot_fs" by (rule tx_weaken[OF boot_fs_tx(1)]) simp
  moreover have "60 < sb_size (sb boot_fs)" "\<not> block_used boot_fs 60" by (simp_all add: boot_fs_sb demo_super_def boot_fs_used)
  ultimately show ?thesis using balloc_allocates[OF _ boot_fs_bitmap, of 60] by blast
qed

theorem bfree_frees_witness:
  "(\<exists>s'. bfree 1 50 boot_fs = Inr ((), s') \<and> \<not> block_used s' 50)
   \<and> (\<exists>s'. bfree 1 60 boot_fs = Inl (Panic ''freeing free block'', s'))"
proof -
  have "tx 1 boot_fs" by (rule tx_weaken[OF boot_fs_tx(1)]) simp
  moreover have "usable boot_fs (BBLOCK 50 (sb boot_fs))" "usable boot_fs (BBLOCK 60 (sb boot_fs))"
    by (simp_all add: boot_fs_tx(4) boot_fs_sb demo_super_def BBLOCK_def BPB_def)
  ultimately show ?thesis using bfree_frees[of boot_fs 50] bfree_frees[of boot_fs 60] by (auto simp: boot_fs_used)
qed

subsection \<open>Loading and storing inodes\<close>

lemma upd_inode_simps [simp]:
  "ptable (upd_inode ip f s) = ptable s" "curproc (upd_inode ip f s) = curproc s" "myproc (upd_inode ip f s) = myproc s"
  "bufs (upd_inode ip f s) = bufs s" "lru (upd_inode ip f s) = lru s" "memdisk (upd_inode ip f s) = memdisk s"
  "disksize (upd_inode ip f s) = disksize s" "dhist (upd_inode ip f s) = dhist s" "log (upd_inode ip f s) = log s"
  "sb (upd_inode ip f s) = sb s" "devsw (upd_inode ip f s) = devsw s" "length (icache (upd_inode ip f s)) = length (icache s)"
  by (simp_all add: upd_inode_def myproc_def)

lemma upd_inode_tx [simp]:
  "dirty (upd_inode ip f s) = dirty s" "view (upd_inode ip f s) = view s" "held (upd_inode ip f s) = held s"
  "tx m (upd_inode ip f s) = tx m s" "holds (upd_inode ip f s) = holds s" "settled (upd_inode ip f s) = settled s"
  "usable (upd_inode ip f s) = usable s"
proof -
  show d: "dirty (upd_inode ip f s) = dirty s" by (simp add: fun_eq_iff dirty_def)
  have "cached (upd_inode ip f s) = cached s" by (simp add: fun_eq_iff cached_def)
  then show "view (upd_inode ip f s) = view s" by (simp add: fun_eq_iff view_def cong: option.case_cong)
  show h: "held (upd_inode ip f s) = held s" by (simp add: held_def)
  show "tx m (upd_inode ip f s) = tx m s" by (simp add: tx_def log_inv_def bio_inv_def log_geom_def d h)
  show "holds (upd_inode ip f s) = holds s" "settled (upd_inode ip f s) = settled s" "usable (upd_inode ip f s) = usable s"
    by (simp_all add: fun_eq_iff holds_def settled_def usable_def buf_lock_def h)
qed

lemma inode_at_upd [simp]:
  "ip < length (icache s) \<Longrightarrow> inode_at jp (upd_inode ip f s) = (if jp = ip then f (inode_at ip s) else inode_at jp s)"
  by (simp add: inode_at_def upd_inode_def)

lemma tx_step_inode: "tx_step s s' \<Longrightarrow> inode_at ip s' = inode_at ip s"
  using log_step_fs(2)[of s s'] by (simp add: tx_step_def inode_at_def)

text \<open>The inode table of the disk, as the transaction sees it.\<close>

definition disk_inode :: "'x kfs_scheme \<Rightarrow> nat \<Rightarrow> inode \<Rightarrow> inode" where
  "disk_inode s n = get_dinode (view s (IBLOCK n (sb s))) (dip_off n)"

definition with_fields :: "inode \<Rightarrow> inode \<Rightarrow> inode" where
  "with_fields i j = j\<lparr>i_type := i_type i, i_major := i_major i, i_minor := i_minor i, i_nlink := i_nlink i,
     i_size := i_size i, i_mode := i_mode i, i_uid := i_uid i, i_gid := i_gid i, i_addrs := i_addrs i\<rparr>"

lemma get_dinode_fields: "get_dinode d o1 j = with_fields (get_dinode d o1 i) j"
  by (simp add: get_dinode_def with_fields_def)

lemma IBLOCK_slot: "n = k \<longleftrightarrow> IBLOCK n super = IBLOCK k super \<and> n mod IPB = k mod IPB"
  by (auto simp: IBLOCK_def) (metis div_mult_mod_eq)

lemma iupdate_modify:
  "i_dev (inode_at ip s) = 1 \<Longrightarrow>
   iupdate ip s = modify (IBLOCK (i_inum (inode_at ip s)) (sb s)) (put_dinode (inode_at ip s) (dip_off (i_inum (inode_at ip s)))) s"
  by (simp add: iupdate_def modify_def)

text \<open>
  C26. \<open>iupdate\<close> writes the inode through: afterwards the on-disk inode table has every field of the cached
  inode, its owner, group and mode included, at its number, and is as before at every other number; the
  cache is not changed.
\<close>

theorem iupdate_writes_through:
  fixes s :: "'x kfs_scheme"
  assumes "tx (Suc m) s" "usable s (IBLOCK (i_inum (inode_at ip s)) (sb s))" "i_dev (inode_at ip s) = 1"
    "length (i_addrs (inode_at ip s)) = NDIRECT + 1"
  shows "\<exists>s'. iupdate ip s = Inr ((), s') \<and> tx m s' \<and> icache s' = icache s
    \<and> (\<forall>n j. disk_inode s' n j = (if n = i_inum (inode_at ip s) then with_fields (inode_at ip s) j else disk_inode s n j))"
proof -
  let ?i = "inode_at ip s" and ?k = "IBLOCK (i_inum (inode_at ip s)) (sb s)"
  let ?f = "put_dinode ?i (dip_off (i_inum ?i))"
  have len: "length (view s k) = BSIZE" for k using assms(1) view_len[of s] by (simp add: tx_def)
  have "length (?f (view s ?k)) = BSIZE" using dip_off_bound[of "i_inum ?i"] by (simp add: len)
  then obtain s' where r: "modify ?k ?f s = Inr ((), s')" "tx m s'" "tx_step s s'" "view s' = (view s)(?k := ?f (view s ?k))"
    using modify_spec[where f = ?f, OF assms(1,2)] by blast
  have sb: "sb s' = sb s" "icache s' = icache s" using r(3) log_step_fs[of s s'] by (auto simp: tx_step_def)
  have b: "dip_off n + DINODE \<le> length (view s ?k)" for n using dip_off_bound[of n] by (simp add: len)
  have "disk_inode s' n j = (if n = i_inum ?i then with_fields ?i j else disk_inode s n j)" for n j
  proof (cases "n = i_inum ?i")
    case True
    then show ?thesis using get_put_dinode[OF b assms(4)] get_dinode_fields[of _ _ j ?i]
      by (simp add: disk_inode_def sb r(4))
  next
    case False
    show ?thesis
    proof (cases "IBLOCK n (sb s) = ?k")
      case True
      with False have "dip_off (i_inum ?i) + DINODE \<le> dip_off n \<or> dip_off n + DINODE \<le> dip_off (i_inum ?i)"
        using IBLOCK_slot[of n "i_inum ?i" "sb s"] dip_off_slots[of n "i_inum ?i"] by blast
      from get_put_dinode_other[OF b b this] show ?thesis using True False by (simp add: disk_inode_def sb r(4))
    qed (use False in \<open>simp add: disk_inode_def sb r(4)\<close>)
  qed
  then show ?thesis using r(1,2) sb iupdate_modify[OF assms(3)] by auto
qed

lemma ilock_cases:
  fixes s :: "'x kfs_scheme"
  assumes "tx (Suc m) s" "ip < length (icache s)" "1 \<le> i_ref (inode_at ip s)"
  defines "i \<equiv> inode_at ip s" and "mine \<equiv> \<lparr>lk_locked = True, lk_pid = p_pid (myproc s)\<rparr>"
  shows "lk_locked (i_lock i) \<Longrightarrow> \<exists>s'. ilock ip s = Inl (Asleep (ChInodeLock ip), s')"
    "\<not> lk_locked (i_lock i) \<Longrightarrow> i_valid i \<Longrightarrow> ilock ip s = Inr ((), upd_inode ip (\<lambda>i. i\<lparr>i_lock := mine\<rparr>) s)"
    "\<not> lk_locked (i_lock i) \<Longrightarrow> \<not> i_valid i \<Longrightarrow> i_dev i = 1 \<Longrightarrow> usable s (IBLOCK (i_inum i) (sb s))
      \<Longrightarrow> i_type (disk_inode s (i_inum i) i) \<noteq> 0
      \<Longrightarrow> \<exists>s'. ilock ip s = Inr ((), s') \<and> tx (Suc m) s' \<and> view s' = view s \<and> memdisk s' = memdisk s \<and> held s' = held s
        \<and> icache s' = (icache s)[ip := (disk_inode s (i_inum i) i)\<lparr>i_lock := mine, i_valid := True\<rparr>]"
proof -
  have ref: "\<not> i_ref (inode_at ip s) < 1" using assms(3) by simp
  show "\<exists>s'. ilock ip s = Inl (Asleep (ChInodeLock ip), s')" if "lk_locked (i_lock i)"
    using that ref by (simp add: ilock_def acquiresleep_def ino_lock_def i_def bnd_fail sq_fail)
  have lk: "acquiresleep (ChInodeLock ip) (ino_lock ip) (upd_ino_lock ip) s = Inr ((), upd_inode ip (\<lambda>i. i\<lparr>i_lock := mine\<rparr>) s)"
    if "\<not> lk_locked (i_lock i)"
    using that by (simp add: acquiresleep_def ino_lock_def i_def upd_ino_lock_def mine_def)
  show "ilock ip s = Inr ((), upd_inode ip (\<lambda>i. i\<lparr>i_lock := mine\<rparr>) s)" if "\<not> lk_locked (i_lock i)" "i_valid i"
    using that ref lk assms(2) by (simp add: ilock_def i_def)
  assume a: "\<not> lk_locked (i_lock i)" "\<not> i_valid i" "i_dev i = 1" "usable s (IBLOCK (i_inum i) (sb s))"
    "i_type (disk_inode s (i_inum i) i) \<noteq> 0"
  let ?k = "IBLOCK (i_inum i) (sb s)" and ?s = "upd_inode ip (\<lambda>i. i\<lparr>i_lock := mine\<rparr>) s"
  have u: "?k < disksize ?s" "?k \<notin> held ?s" using a(4) by (simp_all add: usable_def)
  obtain b t where t: "bread 1 ?k ?s = Inr (b, t)" "tx m t" "quiet ?s t" "holds t b ?k" "settled t b"
      "b_data (bufs t ! b) = view ?s ?k" "held t = insert ?k (held ?s)"
    using tx_read[OF _ u, of m] assms(1) by auto
  note q = quiet_log[OF t(3)]
  have ct: "icache t = icache ?s" "sb t = sb s" using log_step_fs[OF q(7)] by simp_all
  let ?t = "upd_inode ip (get_dinode (view s ?k) (dip_off (i_inum i))) t"
  obtain v where v: "brelse b ?t = Inr ((), v)" "tx m v" "quiet ?t v" "held v = held ?t - {?k}"
    using tx_release[of m ?t b ?k] t(2,4,5) by auto
  note q' = quiet_log[OF v(3)]
  have cv: "icache v = icache ?t" using log_step_fs[OF q'(7)] by simp
  let ?v = "upd_inode ip (\<lambda>i. i\<lparr>i_valid := True\<rparr>) v"
  have ic: "icache ?v = (icache s)[ip := (disk_inode s (i_inum i) i)\<lparr>i_lock := mine, i_valid := True\<rparr>]"
  proof -
    have "(get_dinode (view s ?k) (dip_off (i_inum i)) (i\<lparr>i_lock := mine\<rparr>))\<lparr>i_valid := True\<rparr>
        = (disk_inode s (i_inum i) i)\<lparr>i_lock := mine, i_valid := True\<rparr>"
      by (rule inode.equality) (simp_all add: disk_inode_def get_dinode_def)
    then show ?thesis using assms(2) cv ct by (simp add: upd_inode_def i_def inode_at_def)
  qed
  have at: "inode_at ip t = i\<lparr>i_lock := mine\<rparr>" "ip < length (icache v)" "ip < length (icache t)"
    using ct(1) cv assms(2) by (simp_all add: inode_at_def upd_inode_def i_def)
  have ty: "i_type (inode_at ip ?v) \<noteq> 0" using ic a(5) assms(2) by (simp add: inode_at_def)
  have "ilock ip s = Inr ((), ?v)"
    using a(1-3) ref lk t(1,6) v(1) at ty assms(2) by (simp add: ilock_def i_def[symmetric] bdata_def)
  moreover have "held v = held s" using v(4) t(7) u(2) by auto
  moreover have "tx (Suc m) v" using assms(1) v(2) \<open>held v = held s\<close> q(1) q'(1) by (simp add: tx_def)
  ultimately show "\<exists>s'. ilock ip s = Inr ((), s') \<and> tx (Suc m) s' \<and> view s' = view s \<and> memdisk s' = memdisk s \<and> held s' = held s
        \<and> icache s' = (icache s)[ip := (disk_inode s (i_inum i) i)\<lparr>i_lock := mine, i_valid := True\<rparr>]"
    using ic q q' by (intro exI[of _ ?v]) simp
qed

text \<open>
  C30. \<open>ilock\<close>. An unlocked, referenced entry whose inode is not yet loaded gets the fields of the on-disk
  inode and is locked by the caller; a loaded one is only locked; if another process holds the lock the
  caller sleeps on it. No block changes.
\<close>

theorem ilock_loads:
  fixes s :: "'x kfs_scheme" and ip :: nat
  defines "i \<equiv> inode_at ip s" and "mine \<equiv> \<lparr>lk_locked = True, lk_pid = p_pid (myproc s)\<rparr>"
  assumes "tx (Suc m) s" "ip < length (icache s)" "1 \<le> i_ref i"
    and "i_valid i \<or> i_dev i = 1 \<and> usable s (IBLOCK (i_inum i) (sb s)) \<and> i_type (disk_inode s (i_inum i) i) \<noteq> 0"
  shows "if lk_locked (i_lock i) then \<exists>s'. ilock ip s = Inl (Asleep (ChInodeLock ip), s')
    else if i_valid i then ilock ip s = Inr ((), upd_inode ip (\<lambda>i. i\<lparr>i_lock := mine\<rparr>) s)
    else \<exists>s'. ilock ip s = Inr ((), s') \<and> tx (Suc m) s' \<and> view s' = view s \<and> memdisk s' = memdisk s \<and> held s' = held s
        \<and> icache s' = (icache s)[ip := (disk_inode s (i_inum i) i)\<lparr>i_lock := mine, i_valid := True\<rparr>]"
proof -
  have t: "tx (Suc m) s" "ip < length (icache s)" "1 \<le> i_ref (inode_at ip s)" using assms by simp_all
  note c = ilock_cases[OF t, folded i_def mine_def]
  show ?thesis
  proof (cases "lk_locked (i_lock i)")
    case True
    with c(1) show ?thesis by simp
  next
    case False
    show ?thesis
    proof (cases "i_valid i")
      case True
      with c(2) False show ?thesis by simp
    next
      case nv: False
      with c(3)[OF False] assms(6) False show ?thesis by simp
    qed
  qed
qed

subsection \<open>The inode cache\<close>

lemma find_upt_Some: "find P [0..<n] = Some i \<Longrightarrow> i < n \<and> P i"
  by (auto simp: find_Some_iff)

lemma find_upt_None: "find P [0..<n] = None \<longleftrightarrow> (\<forall>i < n. \<not> P i)"
  by (auto simp: find_None_iff)

text \<open>An inode is in the cache at most once.\<close>

definition live :: "inode \<Rightarrow> nat \<Rightarrow> nat \<Rightarrow> bool" where
  "live i dev inum \<longleftrightarrow> 0 < i_ref i \<and> i_dev i = dev \<and> i_inum i = inum"

definition icache_ok :: "'x kfs_scheme \<Rightarrow> bool" where
  "icache_ok s \<longleftrightarrow> length (icache s) = NINODE \<and> (\<forall>i < NINODE. 0 \<le> i_ref (inode_at i s))
     \<and> (\<forall>i < NINODE. \<forall>j < NINODE. \<forall>d n. live (inode_at i s) d n \<longrightarrow> live (inode_at j s) d n \<longrightarrow> i = j)"

text \<open>
  C11. The inode cache. \<open>iget\<close> keeps at most one entry per inode: if the inode is cached it returns that
  entry with one more reference; otherwise it takes an unreferenced entry, which it marks as not yet
  loaded. It panics exactly when the inode is not cached and every entry is in use.
\<close>

theorem iget_unique:
  assumes "icache_ok s"
  shows "case iget dev inum s of
      Inr (ip, s') \<Rightarrow> ip < NINODE \<and> icache_ok s' \<and> live (inode_at ip s') dev inum
        \<and> (\<forall>j < NINODE. j \<noteq> ip \<longrightarrow> inode_at j s' = inode_at j s)
        \<and> (if live (inode_at ip s) dev inum then inode_at ip s' = (inode_at ip s)\<lparr>i_ref := i_ref (inode_at ip s) + 1\<rparr>
           else i_ref (inode_at ip s) = 0 \<and> i_ref (inode_at ip s') = 1 \<and> \<not> i_valid (inode_at ip s'))
    | Inl (e, s') \<Rightarrow> e = Panic ''iget: no inodes'' \<and> s' = s \<and> (\<forall>j < NINODE. \<not> live (inode_at j s) dev inum \<and> 0 < i_ref (inode_at j s))"
proof -
  have len: "length (icache s) = NINODE" and nn: "\<And>i. i < NINODE \<Longrightarrow> 0 \<le> i_ref (inode_at i s)"
    using assms by (simp_all add: icache_ok_def)
  have uq: "i = j" if "i < NINODE" "j < NINODE" "live (inode_at i s) d n" "live (inode_at j s) d n" for i j d n
  proof -
    have "\<forall>i < NINODE. \<forall>j < NINODE. \<forall>d n. live (inode_at i s) d n \<longrightarrow> live (inode_at j s) d n \<longrightarrow> i = j"
      using assms by (simp add: icache_ok_def)
    then show ?thesis using that by blast
  qed
  have at: "icache s ! j = inode_at j s" for j by (simp add: inode_at_def)
  have lv: "(\<lambda>i. 0 < i_ref (inode_at i s) \<and> i_dev (inode_at i s) = dev \<and> i_inum (inode_at i s) = inum)
      = (\<lambda>i. live (inode_at i s) dev inum)" by (simp add: live_def)
  show ?thesis
  proof (cases "find (\<lambda>i. live (inode_at i s) dev inum) [0..<NINODE]")
    case (Some ip)
    then have ip: "ip < NINODE" "live (inode_at ip s) dev inum" using find_upt_Some by fast+
    let ?s = "upd_inode ip (\<lambda>i. i\<lparr>i_ref := i_ref i + 1\<rparr>) s"
    have a: "inode_at j ?s = (if j = ip then (inode_at ip s)\<lparr>i_ref := i_ref (inode_at ip s) + 1\<rparr> else inode_at j s)" for j
      using ip(1) len by simp
    have l: "live (inode_at j ?s) d n = live (inode_at j s) d n" for j d n using ip(2) by (auto simp: a live_def)
    have "icache_ok ?s" unfolding icache_ok_def l
    proof (intro conjI allI impI)
      show "0 \<le> i_ref (inode_at i ?s)" if "i < NINODE" for i using nn[OF that] by (auto simp: a)
      show "length (icache ?s) = NINODE" using len by simp
      show "i = j" if "i < NINODE" "j < NINODE" "live (inode_at i s) d n" "live (inode_at j s) d n" for i j d n
        using uq that by blast
    qed
    moreover have "iget dev inum s = Inr (ip, ?s)" using Some by (simp add: iget_def at lv)
    moreover have "live (inode_at ip ?s) dev inum" using ip(2) by (simp add: l)
    ultimately show ?thesis using ip by (simp add: a)
  next
    case None
    then have no: "\<not> live (inode_at j s) dev inum" if "j < NINODE" for j using that unfolding find_upt_None by blast
    show ?thesis
    proof (cases "find (\<lambda>i. i_ref (inode_at i s) = 0) [0..<NINODE]")
      case (Some ip)
      then have ip: "ip < NINODE" "i_ref (inode_at ip s) = 0" using find_upt_Some by fast+
      let ?g = "\<lambda>i. i\<lparr>i_dev := dev, i_inum := inum, i_ref := 1, i_valid := False\<rparr>"
      let ?s = "upd_inode ip ?g s"
      have a: "inode_at j ?s = (if j = ip then ?g (inode_at ip s) else inode_at j s)" for j using ip(1) len by simp
      have l: "live (inode_at j ?s) d n \<longleftrightarrow> (if j = ip then d = dev \<and> n = inum else live (inode_at j s) d n)" for j d n
        by (auto simp: a live_def)
      have "icache_ok ?s" unfolding icache_ok_def l
      proof (intro conjI allI impI)
        show "0 \<le> i_ref (inode_at i ?s)" if "i < NINODE" for i using nn[OF that] by (simp add: a)
        show "i = j" if "i < NINODE" "j < NINODE" "if i = ip then d = dev \<and> n = inum else live (inode_at i s) d n"
            "if j = ip then d = dev \<and> n = inum else live (inode_at j s) d n" for i j d n
          using that no[of i] no[of j] uq[of i j d n] by (cases "i = ip"; cases "j = ip") auto
      qed (use len in simp)
      moreover have "iget dev inum s = Inr (ip, ?s)" using None Some by (simp add: iget_def at lv)
      moreover have "live (inode_at ip ?s) dev inum" by (simp add: l)
      ultimately show ?thesis using ip no[OF ip(1)] by (simp add: a)
    next
      case N2: None
      have "0 < i_ref (inode_at j s)" if "j < NINODE" for j
      proof -
        have "i_ref (inode_at j s) \<noteq> 0" using N2 that unfolding find_upt_None by blast
        then show ?thesis using nn[OF that] by simp
      qed
      with None N2 no show ?thesis by (simp add: iget_def at lv)
    qed
  qed
qed

subsection \<open>Concrete runs\<close>

text \<open>The state \<open>boot_fs\<close> with a reference to the root inode in the first entry of the cache.\<close>

definition root_fs :: kfs where
  "root_fs = upd_inode 0 (\<lambda>i. i\<lparr>i_dev := 1, i_inum := ROOTINO, i_ref := 1\<rparr>) boot_fs"

lemma boot_fs_entry: "i < NINODE \<Longrightarrow> inode_at i boot_fs = zero_inode"
  by (simp add: inode_at_def boot_fs_sb)

lemma root_fs_entry:
  "inode_at 0 root_fs = zero_inode\<lparr>i_dev := 1, i_inum := ROOTINO, i_ref := 1\<rparr>" "length (icache root_fs) = NINODE"
  "sb root_fs = demo_super" "tx 20 root_fs" "view root_fs = fs_disk" "usable root_fs k \<longleftrightarrow> k < 100 \<and> k \<notin> {2..<32}"
  "myproc root_fs = first_proc"
  using boot_fs_tx by (simp_all add: root_fs_def boot_fs_sb boot_fs_entry NINODE_def)

lemma root_fs_disk: "disk_inode root_fs ROOTINO j = with_fields root_inode j"
proof -
  have v: "view root_fs (IBLOCK ROOTINO (sb root_fs)) = put_dinode root_inode (dip_off 1) (replicate BSIZE 0)"
    by (simp add: root_fs_entry fs_disk_def IBLOCK_def ROOTINO_def IPB_def demo_super_def)
  have "get_dinode (put_dinode root_inode (dip_off 1) (replicate BSIZE 0)) (dip_off 1) root_inode = root_inode"
    using dip_off_bound[of 1] by (intro get_put_dinode) (simp_all add: root_inode_def zero_inode_def)
  then show ?thesis unfolding disk_inode_def v by (simp add: ROOTINO_def get_dinode_fields[of _ _ j root_inode])
qed

theorem ilock_loads_witness:
  "\<exists>s'. ilock 0 root_fs = Inr ((), s') \<and> i_type (inode_at 0 s') = T_DIR \<and> i_mode (inode_at 0 s') = 0x1ed
     \<and> lk_locked (i_lock (inode_at 0 s'))"
proof -
  have "tx (Suc 19) root_fs" using root_fs_entry(4) by simp
  moreover have "0 < length (icache root_fs)" by (simp add: root_fs_entry NINODE_def)
  moreover have "1 \<le> i_ref (inode_at 0 root_fs)" "\<not> lk_locked (i_lock (inode_at 0 root_fs))" "\<not> i_valid (inode_at 0 root_fs)"
    by (simp_all add: root_fs_entry zero_inode_def initsleeplock_def)
  moreover have d: "disk_inode root_fs (i_inum (inode_at 0 root_fs)) j = with_fields root_inode j" for j
    by (simp add: root_fs_entry root_fs_disk)
  moreover have "i_dev (inode_at 0 root_fs) = 1" "usable root_fs (IBLOCK (i_inum (inode_at 0 root_fs)) (sb root_fs))"
    by (simp_all add: root_fs_entry IBLOCK_def ROOTINO_def IPB_def demo_super_def)
  moreover have "i_type (with_fields root_inode j) = T_DIR" "i_mode (with_fields root_inode j) = 0x1ed" "T_DIR \<noteq> 0" for j
    by (simp_all add: with_fields_def root_inode_def T_DIR_def)
  ultimately show ?thesis using ilock_loads[of 19 root_fs 0] by (auto simp: inode_at_def[of 0])
qed

theorem iupdate_writes_through_witness:
  "\<exists>s'. iupdate 0 root_fs = Inr ((), s') \<and> disk_inode s' ROOTINO root_inode = with_fields (inode_at 0 root_fs) root_inode
     \<and> disk_inode s' 7 root_inode = disk_inode root_fs 7 root_inode"
proof -
  have "tx (Suc 19) root_fs" using root_fs_entry(4) by simp
  from iupdate_writes_through[OF this, of 0] show ?thesis
    by (auto simp: root_fs_entry zero_inode_def IBLOCK_def ROOTINO_def IPB_def demo_super_def)
qed

theorem iget_unique_witness:
  "icache_ok boot_fs \<and> (case iget 1 5 boot_fs of Inr (ip, s') \<Rightarrow> live (inode_at ip s') 1 5 | Inl _ \<Rightarrow> False)"
proof -
  have r0: "i_ref zero_inode = 0" by (simp add: zero_inode_def)
  have ok: "icache_ok boot_fs"
    unfolding icache_ok_def live_def by (simp add: boot_fs_sb boot_fs_entry r0)
  have "0 < NINODE" by (simp add: NINODE_def)
  then have "\<not> 0 < i_ref (inode_at 0 boot_fs)" by (simp add: boot_fs_entry r0)
  with iget_unique[OF ok, of 1 5] ok \<open>0 < NINODE\<close> show ?thesis by (auto split: sum.splits prod.splits)
qed

end
