(* ===== verification/Fs.thy ===== *)
theory Fs
  imports Inode
begin

text \<open>
  File contents, directories and path names, the second half of \<^verbatim>\<open>kernel/fs.c\<close>, and the two device
  functions of \<^verbatim>\<open>kernel/console.c\<close>. \<open>readi\<close> returns the bytes it copies to \<open>dst\<close>, \<open>None\<close> standing for -1.
  A loop over \<open>off\<close> in steps of at most a block is a loop over the pieces \<open>chunks off n\<close> it visits. A path
  is its bytes without the terminating NUL.
\<close>

definition NDEV :: int where "NDEV = 10"
definition CONSOLE :: nat where "CONSOLE = 1"
definition DIRSIZ :: nat where "DIRSIZ = 14"
definition DIRENT :: nat where "DIRENT = 16"
definition MAXFILE :: nat where "MAXFILE = NDIRECT + NINDIRECT"

subsection \<open>The console as a device\<close>

fun consoleread_loop :: "nat \<Rightarrow> nat \<Rightarrow> bytes \<Rightarrow> ('x kfs_scheme, bytes option) kmon" where
  "consoleread_loop 0 target acc = ret (Some acc)"
| "consoleread_loop (Suc n) target acc = bnd (rd (\<lambda>s. in_r s = in_w s)) (\<lambda>empty.
     if empty then bnd (rd (\<lambda>s. p_killed (myproc s))) (\<lambda>k. if k then ret None else sleep ChInput)
     else bnd (rd (\<lambda>s. fst (cons_get s))) (\<lambda>c.
       sq (upd (\<lambda>s. snd (cons_get s)))
       (if c = 4
        then sq (whenk (Suc n < target) (upd (\<lambda>s. s\<lparr>in_r := in_r s - 1\<rparr>))) (ret (Some acc))
        else if c = 10 then ret (Some (acc @ [c]))
        else consoleread_loop n target (acc @ [c]))))"

definition consoleread :: "nat \<Rightarrow> nat \<Rightarrow> ('x kfs_scheme, bytes option) kmon" where
  "consoleread ip n = sq (iunlock ip) (bnd (consoleread_loop n n []) (\<lambda>r. sq (ilock ip) (ret r)))"

definition consolewrite :: "nat \<Rightarrow> bytes \<Rightarrow> ('x kfs_scheme, int) kmon" where
  "consolewrite ip src = sq (iunlock ip) (sq (for_all src (\<lambda>b. consputc (uint b)))
     (sq (ilock ip) (ret (int (length src)))))"

definition consoleinit :: "('x kfs_scheme, unit) kmon" where
  "consoleinit = upd (\<lambda>s. s\<lparr>devsw := (devsw s)(CONSOLE := Some ConsoleDev)\<rparr>)"

definition dev_at :: "u16 \<Rightarrow> (nat \<Rightarrow> device option) \<Rightarrow> device option" where
  "dev_at major sw = (if sint major < 0 \<or> sint major \<ge> NDEV then None else sw (unat major))"

subsection \<open>Reading and writing\<close>

fun chunks :: "nat \<Rightarrow> nat \<Rightarrow> (nat \<times> nat) list" where
  "chunks off n = (if n = 0 then [] else
     let m = min n (BSIZE - off mod BSIZE) in (off, m) # (if m = 0 then [] else chunks (off + m) (n - m)))"

declare chunks.simps [simp del]

fun readi_loop :: "nat \<Rightarrow> (nat \<times> nat) list \<Rightarrow> bytes \<Rightarrow> ('x kfs_scheme, bytes) kmon" where
  "readi_loop ip [] acc = ret acc"
| "readi_loop ip ((off, m) # cs) acc = bnd (rd (\<lambda>s. i_dev (inode_at ip s))) (\<lambda>dev.
     bnd (bmap ip (off div BSIZE)) (\<lambda>b. bnd (bread dev b) (\<lambda>bp. bnd (bdata bp) (\<lambda>d.
       sq (brelse bp) (readi_loop ip cs (acc @ get_bytes d (off mod BSIZE) m))))))"

definition readi :: "nat \<Rightarrow> u32 \<Rightarrow> u32 \<Rightarrow> ('x kfs_scheme, bytes option) kmon" where
  "readi ip off n = bnd (rd (inode_at ip)) (\<lambda>i.
     if i_type i = T_DEV then bnd (rd devsw) (\<lambda>sw.
       case dev_at (i_major i) sw of None \<Rightarrow> ret None | Some ConsoleDev \<Rightarrow> consoleread ip (nat (sint n)))
     else if off > i_size i \<or> off + n < off then ret None
     else let n = (if off + n > i_size i then i_size i - off else n) in
       bnd (readi_loop ip (chunks (unat off) (unat n)) []) (\<lambda>d. ret (Some d)))"

fun writei_loop :: "nat \<Rightarrow> (nat \<times> nat) list \<Rightarrow> bytes \<Rightarrow> ('x kfs_scheme, unit) kmon" where
  "writei_loop ip [] src = ret ()"
| "writei_loop ip ((off, m) # cs) src = bnd (rd (\<lambda>s. i_dev (inode_at ip s))) (\<lambda>dev.
     bnd (bmap ip (off div BSIZE)) (\<lambda>b. bnd (bread dev b) (\<lambda>bp. bnd (bdata bp) (\<lambda>d.
       sq (bset bp (put_bytes d (off mod BSIZE) (take m src)))
       (sq (log_write bp) (sq (brelse bp) (writei_loop ip cs (drop m src))))))))"

text \<open>\<open>src\<close> holds the \<open>n\<close> bytes to write.\<close>

definition writei :: "nat \<Rightarrow> bytes \<Rightarrow> u32 \<Rightarrow> ('x kfs_scheme, int) kmon" where
  "writei ip src off = bnd (rd (inode_at ip)) (\<lambda>i. let n = of_nat (length src) in
     if i_type i = T_DEV then bnd (rd devsw) (\<lambda>sw.
       case dev_at (i_major i) sw of None \<Rightarrow> ret (-1) | Some ConsoleDev \<Rightarrow> consolewrite ip src)
     else if off > i_size i \<or> off + n < off then ret (-1)
     else if off + n > of_nat (MAXFILE * BSIZE) then ret (-1)
     else sq (writei_loop ip (chunks (unat off) (length src)) src)
       (bnd (rd (inode_at ip)) (\<lambda>i.
          sq (whenk (n > 0 \<and> off + n > i_size i)
                (sq (upd (upd_inode ip (\<lambda>i. i\<lparr>i_size := off + n\<rparr>))) (iupdate ip)))
             (ret (sint n)))))"

subsection \<open>Directories\<close>

record dirent =
  de_inum :: u16
  de_name :: bytes

definition get_dirent :: "bytes \<Rightarrow> dirent" where
  "get_dirent d = \<lparr>de_inum = get16 d 0, de_name = get_bytes d 2 DIRSIZ\<rparr>"

definition put_dirent :: "dirent \<Rightarrow> bytes" where
  "put_dirent de = [byte_of 0 (de_inum de), byte_of 8 (de_inum de)] @ de_name de"

text \<open>Whether two names of at most \<open>DIRSIZ\<close> bytes are equal, as \<open>strncmp(s, t, DIRSIZ) == 0\<close>.\<close>

definition namecmp :: "bytes \<Rightarrow> bytes \<Rightarrow> int option" where
  "namecmp s t = strncmp s t DIRSIZ"

text \<open>
  \<open>dirlookup\<close> and the search of \<open>dirlink\<close> for a free entry go through the offsets
  \<open>0, 16, ..., < dp->size\<close>. \<open>name\<close> is a buffer of \<open>DIRSIZ\<close> bytes or a NUL-terminated string.
\<close>

definition dir_offs :: "u32 \<Rightarrow> nat list" where
  "dir_offs sz = map ((*) DIRENT) [0..<(unat sz + DIRENT - 1) div DIRENT]"

definition read_dirent :: "nat \<Rightarrow> nat \<Rightarrow> string \<Rightarrow> ('x kfs_scheme, dirent) kmon" where
  "read_dirent dp off msg = bnd (readi dp (of_nat off) (of_nat DIRENT)) (\<lambda>r.
     case r of None \<Rightarrow> panic msg
     | Some d \<Rightarrow> if length d \<noteq> DIRENT then panic msg else ret (get_dirent d))"

definition dirlookup :: "nat \<Rightarrow> bytes \<Rightarrow> ('x kfs_scheme, (nat \<times> nat) option) kmon" where
  "dirlookup dp name = bnd (rd (inode_at dp)) (\<lambda>i.
     if i_type i \<noteq> T_DIR then panic ''dirlookup not DIR''
     else for_ret (dir_offs (i_size i)) (\<lambda>off.
       bnd (read_dirent dp off ''dirlookup read'') (\<lambda>de.
         if de_inum de = 0 then ret None
         else if namecmp name (de_name de) = Some 0
         then bnd (iget (i_dev i) (unat (de_inum de))) (\<lambda>ip. ret (Some (ip, off)))
         else ret None)))"

definition dirlink :: "nat \<Rightarrow> bytes \<Rightarrow> nat \<Rightarrow> ('x kfs_scheme, int) kmon" where
  "dirlink dp name inum = bnd (dirlookup dp name) (\<lambda>r. case r of
     Some (ip, _) \<Rightarrow> sq (iput ip) (ret (-1))
   | None \<Rightarrow> bnd (rd (\<lambda>s. i_size (inode_at dp s))) (\<lambda>sz.
       bnd (for_ret (dir_offs sz) (\<lambda>off. bnd (read_dirent dp off ''dirlink read'') (\<lambda>de.
              ret (if de_inum de = 0 then Some off else None)))) (\<lambda>free.
       let off = (case free of Some off \<Rightarrow> off | None \<Rightarrow> DIRENT * ((unat sz + DIRENT - 1) div DIRENT)) in
       bnd (case strncpy name DIRSIZ of None \<Rightarrow> panic ''dirlink: name'' | Some nm \<Rightarrow> ret nm) (\<lambda>nm.
         bnd (writei dp (put_dirent \<lparr>de_inum = of_nat inum, de_name = nm\<rparr>) (of_nat off)) (\<lambda>w.
           if w \<noteq> int DIRENT then panic ''dirlink'' else ret 0)))))"

subsection \<open>Paths\<close>

abbreviation slash :: u8 where "slash \<equiv> 0x2f"

text \<open>
  The next element and the rest of the path. The code writes the element into the buffer \<open>name\<close> of
  \<open>DIRSIZ\<close> bytes: all of it if it fills the buffer, else with a NUL behind it.
\<close>

definition skipelem :: "bytes \<Rightarrow> bytes \<Rightarrow> (bytes \<times> bytes) option" where
  "skipelem path name =
    (let p = dropWhile ((=) slash) path in
     if p = [] then None
     else let el = takeWhile ((\<noteq>) slash) p; rest = dropWhile ((\<noteq>) slash) p;
              name' = (if length el \<ge> DIRSIZ then take DIRSIZ el else el @ [0] @ drop (length el + 1) name)
          in Some (dropWhile ((=) slash) rest, name'))"

lemma skipelem_shorter: "skipelem path name = Some (rest, name') \<Longrightarrow> length rest < length path"
proof -
  assume a: "skipelem path name = Some (rest, name')"
  define p where "p = dropWhile ((=) slash) path"
  have p: "p \<noteq> []" and r: "rest = dropWhile ((=) slash) (dropWhile ((\<noteq>) slash) p)"
    using a by (auto simp: skipelem_def Let_def p_def split: if_splits)
  obtain x xs where x: "p = x # xs" "x \<noteq> slash"
    using p hd_dropWhile[of "(=) slash" path] by (cases p) (auto simp: p_def)
  have "length rest \<le> length (dropWhile ((\<noteq>) slash) xs)"
    using x r by (simp add: length_dropWhile_le)
  also have "\<dots> < length p" using x by (simp add: length_dropWhile_le less_Suc_eq_le)
  also have "\<dots> \<le> length path" by (simp add: p_def length_dropWhile_le)
  finally show ?thesis .
qed

function namex_loop :: "nat \<Rightarrow> bytes \<Rightarrow> bytes \<Rightarrow> bool \<Rightarrow> ('x kfs_scheme, (nat \<times> bytes) option) kmon" where
  "namex_loop ip path name nameiparent = (case skipelem path name of
     None \<Rightarrow> if nameiparent then sq (iput ip) (ret None) else ret (Some (ip, name))
   | Some (path', name') \<Rightarrow>
       sq (ilock ip) (bnd (rd (inode_at ip)) (\<lambda>i.
         if i_type i \<noteq> T_DIR then sq (iunlockput ip) (ret None)
         else if nameiparent \<and> path' = [] then sq (iunlock ip) (ret (Some (ip, name')))
         else bnd (dirlookup ip name') (\<lambda>next.
           case next of
             None \<Rightarrow> sq (iunlockput ip) (ret None)
           | Some (nx, _) \<Rightarrow> sq (iunlockput ip) (namex_loop nx path' name' nameiparent)))))"
  by pat_completeness auto
termination
  by (relation "measure (\<lambda>(ip, path, name, par). length path)") (auto dest: skipelem_shorter)

declare namex_loop.simps [simp del]

text \<open>The result is the inode and the name buffer.\<close>

definition namex :: "bytes \<Rightarrow> bool \<Rightarrow> bytes \<Rightarrow> ('x kfs_scheme, (nat \<times> bytes) option) kmon" where
  "namex path nameiparent name =
     bnd (case path of
            c # _ \<Rightarrow> if c = slash then iget ROOTDEV ROOTINO
                      else bnd (rd (\<lambda>s. p_cwd (myproc s))) (\<lambda>c. case c of Some ip \<Rightarrow> idup ip | None \<Rightarrow> panic ''cwd'')
          | [] \<Rightarrow> bnd (rd (\<lambda>s. p_cwd (myproc s))) (\<lambda>c. case c of Some ip \<Rightarrow> idup ip | None \<Rightarrow> panic ''cwd''))
       (\<lambda>ip. namex_loop ip path name nameiparent)"

definition namei :: "bytes \<Rightarrow> ('x kfs_scheme, nat option) kmon" where
  "namei path = bnd (namex path False (replicate DIRSIZ 0)) (\<lambda>r. ret (map_option fst r))"

definition nameiparent :: "bytes \<Rightarrow> bytes \<Rightarrow> ('x kfs_scheme, (nat \<times> bytes) option) kmon" where
  "nameiparent path name = namex path True name"

declare One_nat_def [simp del]

subsection \<open>Path names\<close>

text \<open>The reference: the non-empty pieces between slashes.\<close>

fun split_on :: "'a \<Rightarrow> 'a list \<Rightarrow> 'a list list" where
  "split_on c [] = [[]]"
| "split_on c (x # xs) = (if x = c then [] # split_on c xs
     else (x # hd (split_on c xs)) # tl (split_on c xs))"

definition pieces :: "bytes \<Rightarrow> bytes list" where
  "pieces path = filter (\<lambda>w. w \<noteq> []) (split_on slash path)"

text \<open>The names that the loop of \<open>namex\<close> looks up, one after the other.\<close>

function path_names :: "bytes \<Rightarrow> bytes \<Rightarrow> bytes list" where
  "path_names path name = (case skipelem path name of
     None \<Rightarrow> [] | Some (path', name') \<Rightarrow> cstr (take DIRSIZ name') # path_names path' name')"
  by pat_completeness auto
termination
  by (relation "measure (\<lambda>(path, name). length path)") (auto dest: skipelem_shorter)

declare path_names.simps [simp del]

lemma split_on_ne [simp]: "split_on c xs \<noteq> []"
  by (cases xs) auto

lemma split_on_word:
  "split_on c xs = takeWhile (\<lambda>x. x \<noteq> c) xs # (case dropWhile (\<lambda>x. x \<noteq> c) xs of [] \<Rightarrow> [] | _ # ys \<Rightarrow> split_on c ys)"
  by (induction xs) auto

lemma pieces_slash: "pieces (dropWhile ((=) slash) path) = pieces path"
  by (induction path) (auto simp: pieces_def)

lemma pieces_word:
  assumes "p \<noteq> []" "hd p \<noteq> slash"
  shows "pieces p = takeWhile ((\<noteq>) slash) p # pieces (dropWhile ((\<noteq>) slash) p)"
proof -
  have e: "(\<lambda>x. x \<noteq> slash) = (\<noteq>) slash" by auto
  note w = split_on_word[of slash p, unfolded e]
  have ne: "takeWhile ((\<noteq>) slash) p \<noteq> []" using assms by (cases p) auto
  show ?thesis
  proof (cases "dropWhile ((\<noteq>) slash) p")
    case Nil
    then show ?thesis using ne by (simp add: pieces_def w del: dropWhile_eq_Nil_conv)
  next
    case (Cons y ys)
    then have "y = slash" using hd_dropWhile[of "(\<noteq>) slash" p] by auto
    then show ?thesis using ne Cons by (simp add: pieces_def w)
  qed
qed

lemma cstr_no_nul: "0 \<notin> set xs \<Longrightarrow> cstr (xs @ 0 # ys) = xs" "0 \<notin> set xs \<Longrightarrow> cstr xs = xs"
  by (induction xs) (auto simp: cstr_def)

text \<open>
  C29. Path names. The names that \<open>namex\<close> looks up are the non-empty pieces of the path between slashes,
  each cut to \<open>DIRSIZ\<close> bytes: repeated, leading and trailing slashes do not matter.
\<close>

theorem path_names_pieces:
  assumes "0 \<notin> set path" "length name = DIRSIZ"
  shows "path_names path name = map (take DIRSIZ) (pieces path)"
  using assms
proof (induction path name rule: path_names.induct)
  case (1 path name)
  let ?p = "dropWhile ((=) slash) path" and ?el = "takeWhile ((\<noteq>) slash) (dropWhile ((=) slash) path)"
  show ?case
  proof (cases "?p = []")
    case True
    then have "skipelem path name = None" by (simp add: skipelem_def Let_def)
    moreover have "pieces path = []" using pieces_slash[of path] unfolding True by (simp add: pieces_def)
    ultimately show ?thesis by (simp add: path_names.simps[of path name])
  next
    case False
    let ?r = "dropWhile ((=) slash) (dropWhile ((\<noteq>) slash) ?p)"
    let ?n = "if length ?el \<ge> DIRSIZ then take DIRSIZ ?el else ?el @ [0] @ drop (length ?el + 1) name"
    have k: "skipelem path name = Some (?r, ?n)" using False by (simp add: skipelem_def Let_def)
    have z: "0 \<notin> set ?el" "0 \<notin> set ?r" using "1.prems"(1) by (auto dest!: set_takeWhileD set_dropWhileD)
    have "length ?n = DIRSIZ" using "1.prems"(2) by auto
    then have ih: "path_names ?r ?n = map (take DIRSIZ) (pieces ?r)" using "1.IH"[OF k refl z(2)] by simp
    have h: "hd ?p \<noteq> slash" using False hd_dropWhile[of "(=) slash" path] by auto
    have "pieces path = ?el # pieces ?r"
      using pieces_word[OF False h] pieces_slash[of path] pieces_slash[of "dropWhile ((\<noteq>) slash) ?p"] by simp
    moreover have "cstr (take DIRSIZ ?n) = take DIRSIZ ?el"
      using z(1) cstr_no_nul[of ?el] cstr_no_nul(2)[of "take DIRSIZ ?el"] in_set_takeD[of 0 DIRSIZ ?el]
      by (cases "length ?el \<ge> DIRSIZ") (auto simp: take_Cons' take_append)
    ultimately show ?thesis using ih by (simp add: path_names.simps[of path name] k)
  qed
qed

theorem path_names_pieces_witness:
  "path_names (map of_char ''//usr//a/'') (replicate DIRSIZ 0) = [map of_char ''usr'', map of_char ''a'']"
  using path_names_pieces[of "map of_char ''//usr//a/''" "replicate DIRSIZ 0"] by (simp add: pieces_def DIRSIZ_def)

subsection \<open>Directory entries\<close>



subsection \<open>Reading a file\<close>

text \<open>The block that holds piece \<open>bn\<close> of a file, by the addresses of the inode and its indirect block.\<close>

definition file_block :: "(nat \<Rightarrow> bytes) \<Rightarrow> inode \<Rightarrow> nat \<Rightarrow> nat" where
  "file_block v i bn = (if bn < NDIRECT then unat (i_addrs i ! bn)
     else word_at (v (unat (i_addrs i ! NDIRECT))) (4 * (bn - NDIRECT)))"

text \<open>Piece \<open>bn\<close> is there: its address is set and both blocks on the way can be read.\<close>

definition mapped :: "'x kfs_scheme \<Rightarrow> inode \<Rightarrow> nat \<Rightarrow> bool" where
  "mapped s i bn \<longleftrightarrow> bn < MAXFILE \<and> file_block (view s) i bn \<noteq> 0 \<and> usable s (file_block (view s) i bn)
     \<and> (NDIRECT \<le> bn \<longrightarrow> i_addrs i ! NDIRECT \<noteq> 0 \<and> usable s (unat (i_addrs i ! NDIRECT)))"

definition file_bytes :: "'x kfs_scheme \<Rightarrow> inode \<Rightarrow> bytes" where
  "file_bytes s i = take (unat (i_size i))
     (concat (map (\<lambda>bn. view s (file_block (view s) i bn)) [0..<(unat (i_size i) + BSIZE - 1) div BSIZE]))"

lemma mapped_step:
  "tx_step s s' \<Longrightarrow> view s' = view s \<Longrightarrow> mapped s' i bn = mapped s i bn"
  by (simp add: mapped_def usable_step)

lemma bmap_mapped:
  assumes "tx (Suc m) s" "mapped s (inode_at ip s) bn" "i_dev (inode_at ip s) = 1"
  shows "\<exists>s'. bmap ip bn s = Inr (file_block (view s) (inode_at ip s) bn, s') \<and> tx (Suc m) s' \<and> tx_step s s' \<and> view s' = view s"
proof (cases "bn < NDIRECT")
  case True
  then have "i_addrs (inode_at ip s) ! bn \<noteq> 0" using assms(2) by (auto simp: mapped_def file_block_def)
  then show ?thesis using True assms(1) by (auto simp: bmap_def file_block_def)
next
  case False
  let ?a = "unat (i_addrs (inode_at ip s) ! NDIRECT)" and ?k = "4 * (bn - NDIRECT)"
  have a: "i_addrs (inode_at ip s) ! NDIRECT \<noteq> 0" "?a < disksize s" "?a \<notin> held s"
    using False assms(2) by (auto simp: mapped_def usable_def)
  have b: "bn - NDIRECT < NINDIRECT" "get32 (view s ?a) ?k \<noteq> 0"
    using False assms(2) by (auto simp: mapped_def file_block_def MAXFILE_def word_at_def)
  obtain s' where s': "look ?a s = Inr (view s ?a, s')" "tx (Suc m) s'" "tx_step s s'" "view s' = view s"
    using look_spec[OF assms(1) a(2,3)] by blast
  obtain j t where t: "bread 1 ?a s = Inr (j, t)" "b_data (bufs t ! j) = view s ?a" "brelse j t = Inr ((), s')"
    using s'(1) by (auto simp: look_def bdata_def bnd_Inr sq_Inr)
  have "bmap ip bn s = Inr (file_block (view s) (inode_at ip s) bn, s')"
    using False a(1) b t assms(3) by (simp add: bmap_def Let_def bdata_def file_block_def)
  with s' show ?thesis by blast
qed

lemma readi_loop_run:
  assumes "tx (Suc m) s" "i_dev (inode_at ip s) = 1" "\<And>off k. (off, k) \<in> set cs \<Longrightarrow> mapped s (inode_at ip s) (off div BSIZE)"
  shows "\<exists>s'. readi_loop ip cs acc s = Inr (acc @ concat (map (\<lambda>(off, k).
      get_bytes (view s (file_block (view s) (inode_at ip s) (off div BSIZE))) (off mod BSIZE) k) cs), s')
    \<and> tx (Suc m) s' \<and> tx_step s s' \<and> view s' = view s"
  using assms
proof (induction cs arbitrary: s acc)
  case (Cons c cs)
  obtain off k where c: "c = (off, k)" by (cases c)
  let ?b = "file_block (view s) (inode_at ip s) (off div BSIZE)"
  have m: "mapped s (inode_at ip s) (off div BSIZE)" using Cons.prems(3)[of off k] by (simp add: c)
  obtain t where t: "bmap ip (off div BSIZE) s = Inr (?b, t)" "tx (Suc m) t" "tx_step s t" "view t = view s"
    using bmap_mapped[OF Cons.prems(1) m Cons.prems(2)] by blast
  have b: "?b < disksize t" "?b \<notin> held t" using m usable_step[OF t(3)] by (auto simp: mapped_def usable_def)
  obtain u where u: "look ?b t = Inr (view t ?b, u)" "tx (Suc m) u" "tx_step t u" "view u = view t"
    using look_spec[OF t(2) b] by blast
  obtain j r where j: "bread 1 ?b t = Inr (j, r)" "b_data (bufs r ! j) = view s ?b" "brelse j r = Inr ((), u)"
    using u(1) t(4) by (auto simp: look_def bdata_def bnd_Inr sq_Inr)
  have su: "tx_step s u" "view u = view s" using tx_step_trans[OF t(3) u(3)] u(4) t(4) by simp_all
  note iu = tx_step_inode[OF su(1)]
  have "\<exists>s'. readi_loop ip cs (acc @ get_bytes (view s ?b) (off mod BSIZE) k) u = Inr ((acc @ get_bytes (view s ?b) (off mod BSIZE) k)
      @ concat (map (\<lambda>(off, k). get_bytes (view u (file_block (view u) (inode_at ip u) (off div BSIZE))) (off mod BSIZE) k) cs), s')
    \<and> tx (Suc m) s' \<and> tx_step u s' \<and> view s' = view u"
    by (rule Cons.IH) (use u(2) Cons.prems(2,3) su mapped_step[OF su] in \<open>auto simp: iu c\<close>)
  then show ?case using t(1) j Cons.prems(2) su tx_step_trans[OF su(1)] by (auto simp: c bdata_def iu)
qed simp

text \<open>The pieces a loop over \<open>chunks\<close> takes are the bytes from \<open>off\<close> on.\<close>

lemma chunks_ge: "(o1, k) \<in> set (chunks off n) \<Longrightarrow> off \<le> o1 \<and> o1 + k \<le> off + n \<and> 0 < k"
proof (induction off n rule: chunks.induct)
  case (1 off n)
  show ?case
  proof (cases "n = 0")
    case False
    define m where "m = min n (BSIZE - off mod BSIZE)"
    have m: "0 < m" "m \<le> n" using False mod_less_divisor[of BSIZE off] by (simp_all add: m_def BSIZE_def)
    then have "chunks off n = (off, m) # chunks (off + m) (n - m)"
      using False unfolding chunks.simps[of off n] Let_def m_def[symmetric] by simp
    then consider "o1 = off" "k = m" | "(o1, k) \<in> set (chunks (off + m) (n - m))" using 1(2) by auto
    then show ?thesis
    proof cases
      case 2
      then have "off + m \<le> o1 \<and> o1 + k \<le> off + m + (n - m) \<and> 0 < k" using 1(1)[OF False m_def] m(1) by simp
      with m(2) show ?thesis by linarith
    qed (use m in simp)
  qed (use 1 in \<open>simp add: chunks.simps\<close>)
qed

lemma drop_into: "length xs + r = n \<Longrightarrow> drop n (xs @ ys) = drop r ys"
  by auto

lemma concat_piece:
  assumes "\<And>x. x \<in> set bs \<Longrightarrow> length x = BSIZE" "off < BSIZE * length bs" "k \<le> BSIZE - off mod BSIZE"
  shows "get_bytes (bs ! (off div BSIZE)) (off mod BSIZE) k = take k (drop off (concat bs))"
proof -
  let ?q = "off div BSIZE"
  have q: "?q < length bs" using assms(2) by (simp add: less_mult_imp_div_less mult.commute)
  have len: "length (concat (take ?q bs)) = BSIZE * ?q"
  proof -
    have "map length (take ?q bs) = map (\<lambda>_. BSIZE) (take ?q bs)" using assms(1) by (auto dest: in_set_takeD)
    then have "sum_list (map length (take ?q bs)) = sum_list (map (\<lambda>_. BSIZE) (take ?q bs))" by (rule arg_cong)
    then show ?thesis using q by (simp add: length_concat sum_list_triv mult.commute)
  qed
  have x: "length (bs ! ?q) = BSIZE" using assms(1)[OF nth_mem[OF q]] .
  have "bs = take ?q bs @ bs ! ?q # drop (Suc ?q) bs" using q by (rule id_take_nth_drop)
  then have c: "concat bs = concat (take ?q bs) @ (bs ! ?q @ concat (drop (Suc ?q) bs))"
    by (metis concat.simps(2) concat_append)
  have "length (concat (take ?q bs)) + off mod BSIZE = off" unfolding len by simp
  then have "drop off (concat bs) = drop (off mod BSIZE) (bs ! ?q @ concat (drop (Suc ?q) bs))"
    unfolding c by (rule drop_into)
  also have "\<dots> = drop (off mod BSIZE) (bs ! ?q) @ concat (drop (Suc ?q) bs)"
    using x mod_less_divisor[of BSIZE off] by (simp add: BSIZE_def)
  finally have "drop off (concat bs) = drop (off mod BSIZE) (bs ! ?q) @ concat (drop (Suc ?q) bs)" .
  then show ?thesis using assms(3) assms(1)[OF nth_mem[OF q]] by (simp add: get_bytes_def)
qed

lemma chunks_concat:
  assumes "\<And>x. x \<in> set bs \<Longrightarrow> length x = BSIZE" "off + n \<le> BSIZE * length bs"
  shows "concat (map (\<lambda>(o1, k). get_bytes (bs ! (o1 div BSIZE)) (o1 mod BSIZE) k) (chunks off n)) = take n (drop off (concat bs))"
  using assms(2)
proof (induction off n rule: chunks.induct)
  case (1 off n)
  show ?case
  proof (cases "n = 0")
    case False
    define m where "m = min n (BSIZE - off mod BSIZE)"
    have m: "0 < m" "m \<le> n" "m \<le> BSIZE - off mod BSIZE" using False mod_less_divisor[of BSIZE off] by (simp_all add: m_def BSIZE_def)
    then have c: "chunks off n = (off, m) # chunks (off + m) (n - m)"
      using False unfolding chunks.simps[of off n] Let_def m_def[symmetric] by simp
    have "get_bytes (bs ! (off div BSIZE)) (off mod BSIZE) m = take m (drop off (concat bs))"
      using assms(1) 1(2) False m(3) by (intro concat_piece) simp_all
    moreover have "concat (map (\<lambda>(o1, k). get_bytes (bs ! (o1 div BSIZE)) (o1 mod BSIZE) k) (chunks (off + m) (n - m)))
        = take (n - m) (drop (off + m) (concat bs))"
      using 1(1)[OF False m_def] 1(2) m by simp
    ultimately show ?thesis using m(2) take_add[of m "n - m" "drop off (concat bs)"] by (simp add: c add.commute)
  qed (simp add: chunks.simps)
qed

text \<open>
  C8. \<open>readi\<close> of a file whose blocks are all allocated returns the bytes of the file from \<open>off\<close> on, at most
  \<open>n\<close> of them and never past the end, across block boundaries and through the indirect block; no block
  changes.
\<close>

theorem readi_reads:
  fixes s :: "'x kfs_scheme" and ip :: nat
  defines "i \<equiv> inode_at ip s"
  assumes "tx (Suc m) s" "i_dev i = 1" "i_type i \<noteq> T_DEV" "off \<le> i_size i" "unat off + unat n < 2 ^ 32"
    "\<And>bn. bn * BSIZE < unat (i_size i) \<Longrightarrow> mapped s i bn"
  shows "\<exists>s'. readi ip off n s = Inr (Some (take (unat n) (drop (unat off) (file_bytes s i))), s')
    \<and> tx (Suc m) s' \<and> tx_step s s' \<and> view s' = view s"
proof -
  define n' where "n' = (if off + n > i_size i then i_size i - off else n)"
  have le: "unat off \<le> unat (i_size i)" using assms(5) by (simp add: word_le_nat_alt)
  have add: "unat (off + n) = unat off + unat n" using assms(6) by (simp add: unat_word_ariths)
  have n': "unat n' = min (unat n) (unat (i_size i) - unat off)"
    using le add assms(5) by (auto simp: n'_def word_less_nat_alt unat_sub)
  have no: "\<not> (off > i_size i \<or> off + n < off)" using assms(5) add by (auto simp: word_less_nat_alt word_le_nat_alt)
  let ?nb = "(unat (i_size i) + BSIZE - 1) div BSIZE"
  let ?bs = "map (\<lambda>bn. view s (file_block (view s) i bn)) [0..<?nb]"
  have nb: "unat (i_size i) \<le> BSIZE * ?nb" using mult_div_mod_eq[of BSIZE "unat (i_size i) + BSIZE - 1"]
      mod_less_divisor[of BSIZE "unat (i_size i) + BSIZE - 1"] by (simp add: BSIZE_def)
  have len: "length x = BSIZE" if "x \<in> set ?bs" for x using that assms(2) view_len[of s] by (auto simp: tx_def)
  have blk: "o1 div BSIZE < ?nb" "mapped s i (o1 div BSIZE)" if "(o1, k) \<in> set (chunks (unat off) (unat n'))" for o1 k
  proof -
    have lt: "o1 < unat (i_size i)" using chunks_ge[OF that] n' le by auto
    then show "o1 div BSIZE < ?nb" using nb by (simp add: less_mult_imp_div_less mult.commute)
    have "o1 div BSIZE * BSIZE \<le> o1" by simp
    then show "mapped s i (o1 div BSIZE)" using lt assms(7) by (meson le_less_trans)
  qed
  obtain s' where s': "readi_loop ip (chunks (unat off) (unat n')) [] s = Inr ([] @ concat (map (\<lambda>(off, k).
      get_bytes (view s (file_block (view s) i (off div BSIZE))) (off mod BSIZE) k) (chunks (unat off) (unat n'))), s')"
      "tx (Suc m) s'" "tx_step s s'" "view s' = view s"
    using readi_loop_run[OF assms(2), of ip "chunks (unat off) (unat n')" "[]"] assms(3) blk(2) unfolding i_def by blast
  have "concat (map (\<lambda>(off, k). get_bytes (view s (file_block (view s) i (off div BSIZE))) (off mod BSIZE) k)
        (chunks (unat off) (unat n')))
      = concat (map (\<lambda>(o1, k). get_bytes (?bs ! (o1 div BSIZE)) (o1 mod BSIZE) k) (chunks (unat off) (unat n')))"
    by (intro arg_cong[where f = concat] map_cong refl) (auto dest: blk(1))
  also have "\<dots> = take (unat n') (drop (unat off) (concat ?bs))"
    using len nb n' le by (intro chunks_concat) simp_all
  also have "\<dots> = take (unat n) (drop (unat off) (file_bytes s i))"
    by (simp add: file_bytes_def drop_take n' min.commute)
  finally have d: "readi_loop ip (chunks (unat off) (unat n')) [] s = Inr (take (unat n) (drop (unat off) (file_bytes s i)), s')"
    using s'(1) by simp
  have "readi ip off n s = Inr (Some (take (unat n) (drop (unat off) (file_bytes s i))), s')"
    using d no assms(4) unfolding readi_def n'_def[unfolded i_def] i_def by (simp add: Let_def)
  with s' show ?thesis by blast
qed

text \<open>A file of 600 bytes in the blocks 60 and 61.\<close>

definition file_fs :: kfs where
  "file_fs = upd_inode 0 (\<lambda>_. zero_inode\<lparr>i_dev := 1, i_inum := 2, i_ref := 1, i_valid := True, i_type := T_FILE, i_nlink := 1,
     i_size := 600, i_addrs := 60 # 61 # replicate 11 0\<rparr>) boot_fs"

theorem readi_reads_witness: "\<exists>s'. readi 0 510 4 file_fs = Inr (Some [0, 0, 0, 0], s')"
proof -
  let ?i = "inode_at 0 file_fs"
  have i: "?i = zero_inode\<lparr>i_dev := 1, i_inum := 2, i_ref := 1, i_valid := True, i_type := T_FILE, i_nlink := 1,
     i_size := 600, i_addrs := 60 # 61 # replicate 11 0\<rparr>"
    by (simp add: file_fs_def boot_fs_sb NINODE_def)
  have f: "view file_fs = fs_disk" "tx 20 file_fs" "usable file_fs k \<longleftrightarrow> k < 100 \<and> k \<notin> {2..<32}" for k
    using boot_fs_tx by (simp_all add: file_fs_def)
  have two: "bn = 0 \<or> bn = 1" if "bn * BSIZE < 600" for bn using that by (simp add: BSIZE_def) linarith
  have m: "mapped file_fs ?i bn" if "bn * BSIZE < unat (i_size ?i)" for bn
  proof -
    have "bn = 0 \<or> bn = 1" using that two[of bn] by (simp add: i One_nat_def)
    then show ?thesis by (auto simp: mapped_def i file_block_def NDIRECT_def MAXFILE_def NINDIRECT_def f nth_Cons' One_nat_def)
  qed
  have b: "file_block fs_disk ?i 0 = 60" "file_block fs_disk ?i 1 = 61" by (simp_all add: file_block_def i NDIRECT_def nth_Cons' One_nat_def)
  have z: "fs_disk 60 = replicate BSIZE 0" "fs_disk 61 = replicate BSIZE 0" by (simp_all add: fs_disk_def demo_disk_def)
  have nb: "[0..<(600 + BSIZE - 1) div BSIZE] = [0, 1]" by (simp add: BSIZE_def One_nat_def upt_rec)
  have sz: "unat (i_size ?i) = 600" by (simp add: i One_nat_def)
  have "file_bytes file_fs ?i = replicate 600 0" unfolding file_bytes_def sz nb
    by (simp add: f b z BSIZE_def flip: replicate_add)
  moreover have "tx (Suc 19) file_fs" using f(2) by simp
  moreover have "i_dev ?i = 1" "i_type ?i \<noteq> T_DEV" "510 \<le> i_size ?i" "unat (510 :: u32) + unat (4 :: u32) < 2 ^ 32"
    by (simp_all add: i T_FILE_def T_DEV_def One_nat_def)
  moreover have "take (unat (4 :: u32)) (drop (unat (510 :: u32)) (replicate 600 (0 :: u8))) = [0, 0, 0, 0]"
    by (simp add: One_nat_def) (simp add: numeral_eq_Suc)
  ultimately show ?thesis using readi_reads[of 19 file_fs 0 510 4, OF _ _ _ _ _ m] by auto
qed

subsection \<open>Reading a line from the console\<close>

lemma cons_get_line:
  assumes "cons_inv s" "lines s = c # rest"
  shows "in_r s \<noteq> in_w s" "fst (cons_get s) = c" "cons_inv (snd (cons_get s))" "lines (snd (cons_get s)) = rest"
    "pending (snd (cons_get s)) = pending s"
proof -
  have i: "in_inv s" "unat (in_w s - in_r s) \<le> unat (in_e s - in_r s)" using assms(1) by (simp_all add: cons_inv_def)
  have l: "length (lines s) = unat (in_w s - in_r s)" by (rule length_lines[OF assms(1)])
  show ne: "in_r s \<noteq> in_w s" using l assms(2) by auto
  have ne': "in_queue s \<noteq> []" using lines_pending[of s] assms(2) by auto
  then have re: "in_r s \<noteq> in_e s" by (simp add: in_queue_empty)
  let ?t = "snd (cons_get s)"
  have q: "in_queue s = fst (cons_get s) # in_queue ?t" by (rule iq.get_contents[OF i(1) ne'])
  have t: "in_w ?t = in_w s" "in_r ?t = in_r s + 1" "in_e ?t = in_e s" by (simp_all add: cons_get_def)
  have w: "unat (in_w s - in_r s) = Suc (unat (in_w s - (in_r s + 1)))" using unat_diff_succ[OF ne] by simp
  have e: "unat (in_e s - in_r s) = Suc (unat (in_e s - (in_r s + 1)))" using unat_diff_succ[OF re] by simp
  show "cons_inv ?t" using iq.get_inv[OF i(1) ne'] i(2) w e by (simp add: cons_inv_def t)
  show "fst (cons_get s) = c" "lines ?t = rest" using assms(2) q w by (simp_all add: lines_def t)
  show "pending ?t = pending s" using q w by (simp add: pending_def t)
qed

text \<open>
  C32. Reading a line. When the complete input begins with a line, \<open>consoleread\<close> of enough bytes takes exactly
  that line with its newline, without sleeping, and leaves the rest of the input, complete or being
  edited, for the next call.
\<close>

theorem consoleread_line:
  assumes "cons_inv s" "lines s = l @ 10 # rest" "10 \<notin> set l" "4 \<notin> set l" "length l < n"
  shows "\<exists>s'. consoleread_loop n target acc s = Inr (Some (acc @ l @ [10]), s') \<and> cons_inv s' \<and> lines s' = rest
    \<and> pending s' = pending s"
  using assms
proof (induction l arbitrary: s n acc)
  case Nil
  then obtain k where n: "n = Suc k" by (cases n) auto
  have "lines s = 10 # rest" using Nil.prems(2) by simp
  note g = cons_get_line[OF Nil.prems(1) this]
  show ?case using g by (simp add: n)
next
  case (Cons c l)
  then obtain k where n: "n = Suc k" by (cases n) auto
  have "lines s = c # (l @ 10 # rest)" using Cons.prems(2) by simp
  note g = cons_get_line[OF Cons.prems(1) this]
  have "c \<noteq> 4" "c \<noteq> 10" using Cons.prems(3,4) by auto
  moreover have "\<exists>s'. consoleread_loop k target (acc @ [c]) (snd (cons_get s)) = Inr (Some ((acc @ [c]) @ l @ [10]), s')
      \<and> cons_inv s' \<and> lines s' = rest \<and> pending s' = pending (snd (cons_get s))"
    using Cons.prems(3-5) g(3,4) by (intro Cons.IH) (simp_all add: n)
  ultimately show ?case using g by (simp add: n)
qed

theorem consoleread_line_witness:
  "\<exists>s'. consoleread_loop 80 80 [] (boot_fs\<lparr>in_buf := [97, 10] @ replicate 126 0, in_w := 2, in_e := 2\<rparr>) = Inr (Some [97, 10], s')"
proof -
  let ?s = "boot_fs\<lparr>in_buf := [97, 10] @ replicate 126 0, in_w := 2, in_e := 2\<rparr>"
  have r: "in_r ?s = 0" by (simp add: boot_fs_def boot_cons_def klog.defs kcons.defs kfs.defs)
  have two: "[0..<2] = [0, Suc 0]" by (simp add: upt_rec)
  have "cons_inv ?s" using r by (simp add: cons_inv_def in_inv_def INPUT_BUF_def One_nat_def)
  moreover have "lines ?s = [97] @ 10 # []"
    using r by (simp add: lines_def in_queue_def ring_list_def INPUT_BUF_def One_nat_def two)
  ultimately show ?thesis using consoleread_line[of ?s "[97]" "[]" 80 80 "[]"] by auto
qed

end
