(* ===== verification/File.thy ===== *)
theory File
  imports Fs
begin

text \<open>
  The file table of \<^verbatim>\<open>kernel/file.c\<close> and the pipes of \<^verbatim>\<open>kernel/pipe.c\<close>. A \<open>struct file\<close> pointer is an
  index in \<open>ftable\<close>. A pipe lives in a page of its own; \<open>pipes\<close> gives the structure that each page
  address holds. The bytes an operation copies from or to \<open>addr\<close> are its argument or its result.
\<close>

definition NFILE :: nat where "NFILE = 100"
definition PIPESIZE :: nat where "PIPESIZE = 512"

record pipe =
  pi_data :: bytes
  pi_nread :: u32
  pi_nwrite :: u32
  pi_readopen :: bool
  pi_writeopen :: bool

datatype fdtype = FD_NONE | FD_PIPE | FD_INODE

record file_struct =
  f_type :: fdtype
  f_ref :: int
  f_readable :: bool
  f_writable :: bool
  f_pipe :: u32
  f_ip :: nat
  f_off :: u32

record kfile = kfs +
  ftable :: "file_struct list"
  pipes :: "u32 \<Rightarrow> pipe"

definition upd_file :: "nat \<Rightarrow> (file_struct \<Rightarrow> file_struct) \<Rightarrow> 'x kfile_scheme \<Rightarrow> 'x kfile_scheme" where
  "upd_file f g s = s\<lparr>ftable := (ftable s)[f := g (ftable s ! f)]\<rparr>"

definition upd_pipe :: "u32 \<Rightarrow> (pipe \<Rightarrow> pipe) \<Rightarrow> 'x kfile_scheme \<Rightarrow> 'x kfile_scheme" where
  "upd_pipe p g s = s\<lparr>pipes := (pipes s)(p := g (pipes s p))\<rparr>"

subsection \<open>Pipes\<close>

definition pipeclose :: "u32 \<Rightarrow> bool \<Rightarrow> ('x kfile_scheme, unit) kmon" where
  "pipeclose p writable =
     sq (if writable
         then sq (upd (upd_pipe p (\<lambda>pi. pi\<lparr>pi_writeopen := False\<rparr>))) (wakeup (ChPipeRead (unat p)))
         else sq (upd (upd_pipe p (\<lambda>pi. pi\<lparr>pi_readopen := False\<rparr>))) (wakeup (ChPipeWrite (unat p))))
     (bnd (rd (\<lambda>s. pipes s p)) (\<lambda>pi. whenk (\<not> pi_readopen pi \<and> \<not> pi_writeopen pi) (kfree p)))"

text \<open>The two assignments of \<open>pipewrite\<close> and of \<open>piperead\<close> to the ring.\<close>

definition pipe_put :: "u8 \<Rightarrow> pipe \<Rightarrow> pipe" where
  "pipe_put c pi = pi\<lparr>pi_data := (pi_data pi)[ring_index PIPESIZE (pi_nwrite pi) := c], pi_nwrite := pi_nwrite pi + 1\<rparr>"

definition pipe_get :: "pipe \<Rightarrow> u8 \<times> pipe" where
  "pipe_get pi = (pi_data pi ! ring_index PIPESIZE (pi_nread pi), pi\<lparr>pi_nread := pi_nread pi + 1\<rparr>)"

fun pipewrite_loop :: "u32 \<Rightarrow> bytes \<Rightarrow> ('x kfile_scheme, bool) kmon" where
  "pipewrite_loop p [] = ret True"
| "pipewrite_loop p (c # cs) = bnd (rd (\<lambda>s. pipes s p)) (\<lambda>pi.
     if pi_nwrite pi = pi_nread pi + of_nat PIPESIZE
     then bnd (rd (\<lambda>s. p_killed (myproc s))) (\<lambda>k.
       if \<not> pi_readopen pi \<or> k then ret False
       else sq (wakeup (ChPipeRead (unat p))) (sleep (ChPipeWrite (unat p))))
     else sq (upd (upd_pipe p (pipe_put c))) (pipewrite_loop p cs))"

definition pipewrite :: "u32 \<Rightarrow> bytes \<Rightarrow> ('x kfile_scheme, int) kmon" where
  "pipewrite p src = bnd (pipewrite_loop p src) (\<lambda>ok.
     if ok then sq (wakeup (ChPipeRead (unat p))) (ret (int (length src))) else ret (-1))"

fun piperead_loop :: "u32 \<Rightarrow> nat \<Rightarrow> ('x kfile_scheme, bytes) kmon" where
  "piperead_loop p 0 = ret []"
| "piperead_loop p (Suc n) = bnd (rd (\<lambda>s. pipes s p)) (\<lambda>pi.
     if pi_nread pi = pi_nwrite pi then ret []
     else sq (upd (upd_pipe p (snd \<circ> pipe_get)))
       (bnd (piperead_loop p n) (\<lambda>cs. ret (fst (pipe_get pi) # cs))))"

definition piperead :: "u32 \<Rightarrow> int \<Rightarrow> ('x kfile_scheme, bytes option) kmon" where
  "piperead p n = bnd (rd (\<lambda>s. pipes s p)) (\<lambda>pi.
     if pi_nread pi = pi_nwrite pi \<and> pi_writeopen pi
     then bnd (rd (\<lambda>s. p_killed (myproc s))) (\<lambda>k. if k then ret None else sleep (ChPipeRead (unat p)))
     else bnd (piperead_loop p (nat n)) (\<lambda>cs. sq (wakeup (ChPipeWrite (unat p))) (ret (Some cs))))"

subsection \<open>The file table\<close>

definition filealloc :: "('x kfile_scheme, nat option) kmon" where
  "filealloc = bnd (rd ftable) (\<lambda>ft. case find (\<lambda>f. f_ref (ft ! f) = 0) [0..<NFILE] of
     Some f \<Rightarrow> sq (upd (upd_file f (\<lambda>x. x\<lparr>f_ref := 1\<rparr>))) (ret (Some f))
   | None \<Rightarrow> ret None)"

definition filedup :: "nat \<Rightarrow> ('x kfile_scheme, nat) kmon" where
  "filedup f = bnd (rd (\<lambda>s. ftable s ! f)) (\<lambda>x.
     if f_ref x < 1 then panic ''filedup''
     else sq (upd (upd_file f (\<lambda>x. x\<lparr>f_ref := f_ref x + 1\<rparr>))) (ret f))"

definition fileclose :: "nat \<Rightarrow> ('x kfile_scheme, unit) kmon" where
  "fileclose f = bnd (rd (\<lambda>s. ftable s ! f)) (\<lambda>x.
     if f_ref x < 1 then panic ''fileclose''
     else sq (upd (upd_file f (\<lambda>x. x\<lparr>f_ref := f_ref x - 1\<rparr>)))
       (bnd (rd (\<lambda>s. ftable s ! f)) (\<lambda>ff.
          if f_ref ff > 0 then ret ()
          else sq (upd (upd_file f (\<lambda>x. x\<lparr>f_ref := 0, f_type := FD_NONE\<rparr>)))
            (case f_type ff of
               FD_PIPE \<Rightarrow> pipeclose (f_pipe ff) (f_writable ff)
             | FD_INODE \<Rightarrow> sq begin_op (sq (iput (f_ip ff)) end_op)
             | FD_NONE \<Rightarrow> ret ()))))"

definition filestat :: "nat \<Rightarrow> ('x kfile_scheme, stat option) kmon" where
  "filestat f = bnd (rd (\<lambda>s. ftable s ! f)) (\<lambda>x.
     if f_type x = FD_INODE
     then sq (ilock (f_ip x)) (bnd (rd (inode_at (f_ip x))) (\<lambda>i. sq (iunlock (f_ip x)) (ret (Some (stati i)))))
     else ret None)"

definition fileread :: "nat \<Rightarrow> int \<Rightarrow> ('x kfile_scheme, bytes option) kmon" where
  "fileread f n = bnd (rd (\<lambda>s. ftable s ! f)) (\<lambda>x.
     if \<not> f_readable x then ret None
     else case f_type x of
       FD_PIPE \<Rightarrow> piperead (f_pipe x) n
     | FD_INODE \<Rightarrow> sq (ilock (f_ip x)) (bnd (readi (f_ip x) (f_off x) (of_int n)) (\<lambda>r.
         sq (case r of
               Some d \<Rightarrow> whenk (d \<noteq> []) (upd (upd_file f (\<lambda>x. x\<lparr>f_off := f_off x + of_nat (length d)\<rparr>)))
             | None \<Rightarrow> ret ())
         (sq (iunlock (f_ip x)) (ret r))))
     | FD_NONE \<Rightarrow> panic ''fileread'')"

definition MAXWRITE :: nat where "MAXWRITE = ((10 - 1 - 1 - 2) div 2) * 512"

text \<open>The loop over pieces of at most \<open>MAXWRITE\<close> bytes. The result tells whether all was written.\<close>

function filewrite_loop :: "nat \<Rightarrow> bytes \<Rightarrow> ('x kfile_scheme, bool) kmon" where
  "filewrite_loop f src =
    (if src = [] then ret True
     else let piece = take MAXWRITE src in
       sq begin_op (bnd (rd (\<lambda>s. ftable s ! f)) (\<lambda>x.
       sq (ilock (f_ip x)) (bnd (writei (f_ip x) piece (f_off x)) (\<lambda>r.
       sq (whenk (r > 0) (upd (upd_file f (\<lambda>x. x\<lparr>f_off := f_off x + of_int r\<rparr>))))
       (sq (iunlock (f_ip x)) (sq end_op
         (if r < 0 then ret False
          else if r \<noteq> int (length piece) then panic ''short filewrite''
          else filewrite_loop f (drop MAXWRITE src)))))))))"
  by pat_completeness auto
termination
  by (relation "measure (\<lambda>(f, src). length src)") (auto simp: MAXWRITE_def)

declare filewrite_loop.simps [simp del]

definition filewrite :: "nat \<Rightarrow> bytes \<Rightarrow> ('x kfile_scheme, int) kmon" where
  "filewrite f src = bnd (rd (\<lambda>s. ftable s ! f)) (\<lambda>x.
     if \<not> f_writable x then ret (-1)
     else case f_type x of
       FD_PIPE \<Rightarrow> pipewrite (f_pipe x) src
     | FD_INODE \<Rightarrow> bnd (filewrite_loop f src) (\<lambda>ok. ret (if ok then int (length src) else -1))
     | FD_NONE \<Rightarrow> panic ''filewrite'')"

definition pipealloc :: "('x kfile_scheme, (nat \<times> nat) option) kmon" where
  "pipealloc = bnd filealloc (\<lambda>f0. case f0 of
     None \<Rightarrow> ret None
   | Some f0 \<Rightarrow> bnd filealloc (\<lambda>f1. case f1 of
       None \<Rightarrow> sq (fileclose f0) (ret None)
     | Some f1 \<Rightarrow> bnd kalloc (\<lambda>p.
         if p = 0 then sq (fileclose f0) (sq (fileclose f1) (ret None))
         else sq (upd (upd_pipe p (\<lambda>pi. pi\<lparr>pi_readopen := True, pi_writeopen := True, pi_nwrite := 0, pi_nread := 0\<rparr>)))
           (sq (upd (upd_file f0 (\<lambda>x. x\<lparr>f_type := FD_PIPE, f_readable := True, f_writable := False, f_pipe := p\<rparr>)))
           (sq (upd (upd_file f1 (\<lambda>x. x\<lparr>f_type := FD_PIPE, f_readable := False, f_writable := True, f_pipe := p\<rparr>)))
               (ret (Some (f0, f1))))))))"

subsection \<open>The ring of a pipe\<close>

interpretation pipe_ring: ring PIPESIZE
  by unfold_locales (simp_all add: PIPESIZE_def)

definition zero_file :: file_struct where
  "zero_file = \<lparr>f_type = FD_NONE, f_ref = 0, f_readable = False, f_writable = False, f_pipe = 0, f_ip = 0, f_off = 0\<rparr>"

text \<open>Every pipe of this state is empty, with both counters two steps before they wrap.\<close>

definition boot_file :: kfile where
  "boot_file = kfs.extend boot_fs (kfile.fields (replicate NFILE zero_file)
     (\<lambda>_. \<lparr>pi_data = replicate PIPESIZE 0, pi_nread = -2, pi_nwrite = -2, pi_readopen = True, pi_writeopen = True\<rparr>))"

definition pipe_queue :: "pipe \<Rightarrow> bytes" where
  "pipe_queue pi = ring_list PIPESIZE (pi_data pi) (pi_nread pi) (pi_nwrite pi)"

definition pipe_inv :: "pipe \<Rightarrow> bool" where
  "pipe_inv pi \<longleftrightarrow> length (pi_data pi) = PIPESIZE \<and> unat (pi_nwrite pi - pi_nread pi) \<le> PIPESIZE"

lemma length_pipe_queue: "length (pipe_queue pi) = unat (pi_nwrite pi - pi_nread pi)"
  by (simp add: pipe_queue_def)

lemma pipe_queue_empty: "pipe_queue pi = [] \<longleftrightarrow> pi_nread pi = pi_nwrite pi"
  by (metis eq_iff_diff_eq_0 length_0_conv length_pipe_queue unat_0 unat_eq_zero)

interpretation pq: fifo pipe_inv pipe_queue PIPESIZE pipe_put pipe_get
proof
  fix pi x assume i: "pipe_inv pi"
  show "length (pipe_queue pi) \<le> PIPESIZE" using i by (simp add: pipe_inv_def length_pipe_queue)
  assume r: "length (pipe_queue pi) < PIPESIZE"
  then have u: "unat (pi_nwrite pi + 1 - pi_nread pi) = unat (pi_nwrite pi - pi_nread pi) + 1"
    by (intro unat_succ_diff) (simp add: length_pipe_queue PIPESIZE_def)
  show "pipe_inv (pipe_put x pi)" using i r u by (simp add: pipe_inv_def pipe_put_def length_pipe_queue)
  show "pipe_queue (pipe_put x pi) = pipe_queue pi @ [x]"
    using i r pipe_ring.push[of "pi_nwrite pi" "pi_nread pi" "pi_data pi" x]
    by (simp add: pipe_queue_def pipe_inv_def pipe_put_def)
next
  fix pi assume i: "pipe_inv pi" and "pipe_queue pi \<noteq> []"
  then have n: "pi_nread pi \<noteq> pi_nwrite pi" by (simp add: pipe_queue_empty)
  show "pipe_inv (snd (pipe_get pi))" using i unat_diff_succ[OF n] by (auto simp: pipe_inv_def pipe_get_def)
  show "pipe_queue pi = fst (pipe_get pi) # pipe_queue (snd (pipe_get pi))"
    using pipe_ring.pop[OF n] by (simp add: pipe_queue_def pipe_get_def)
qed

lemma pipe_full_iff:
  assumes "pipe_inv pi"
  shows "pi_nwrite pi = pi_nread pi + of_nat PIPESIZE \<longleftrightarrow> length (pipe_queue pi) = PIPESIZE"
proof -
  have "pi_nwrite pi = pi_nread pi + of_nat PIPESIZE \<longleftrightarrow> pi_nwrite pi - pi_nread pi = of_nat PIPESIZE"
    by (auto simp: algebra_simps)
  also have "\<dots> \<longleftrightarrow> unat (pi_nwrite pi - pi_nread pi) = PIPESIZE"
    by (simp add: word_unat_eq_iff PIPESIZE_def unat_of_nat)
  finally show ?thesis by (simp add: length_pipe_queue)
qed

lemma pipes_upd_pipe [simp]: "pipes (upd_pipe p g s) q = (if q = p then g (pipes s p) else pipes s q)"
  by (simp add: upd_pipe_def)

lemma upd_pipe_twice [simp]: "upd_pipe p f (upd_pipe p g s) = upd_pipe p (f \<circ> g) s"
  by (simp add: upd_pipe_def)

lemma upd_pipe_id [simp]: "upd_pipe p id s = s" "upd_pipe p (\<lambda>x. x) s = s"
  by (simp_all add: upd_pipe_def)

lemma pipewrite_loop_room:
  assumes "pipe_inv (pipes s p)" "length (pipe_queue (pipes s p)) + length src \<le> PIPESIZE"
  shows "pipewrite_loop p src s = Inr (True, upd_pipe p (fold pipe_put src) s)"
  using assms
proof (induction src arbitrary: s)
  case (Cons c cs)
  then have r: "length (pipe_queue (pipes s p)) < PIPESIZE" by simp
  let ?s = "upd_pipe p (pipe_put c) s"
  have "pipe_inv (pipes ?s p)" "length (pipe_queue (pipes ?s p)) + length cs \<le> PIPESIZE"
    using Cons.prems pq.put_inv[OF _ r] pq.put_contents[OF _ r] by simp_all
  then show ?case using Cons.IH[of ?s] r pipe_full_iff[OF Cons.prems(1)] by (simp add: o_def)
qed simp

lemma piperead_loop_run:
  assumes "pipe_inv (pipes s p)"
  shows "piperead_loop p n s =
    (let k = min n (length (pipe_queue (pipes s p))) in
     Inr (fst (take_out pipe_get k (pipes s p)), upd_pipe p (\<lambda>pi. snd (take_out pipe_get k pi)) s))"
  using assms
proof (induction n arbitrary: s)
  case (Suc n)
  show ?case
  proof (cases "pipe_queue (pipes s p) = []")
    case True
    moreover from this have "pi_nread (pipes s p) = pi_nwrite (pipes s p)" by (simp only: pipe_queue_empty)
    ultimately show ?thesis by (simp add: Let_def)
  next
    case False
    let ?s = "upd_pipe p (snd \<circ> pipe_get) s"
    have i: "pipe_inv (pipes ?s p)" using pq.get_inv[OF Suc.prems False] by simp
    have l: "length (pipe_queue (pipes s p)) = Suc (length (pipe_queue (pipes ?s p)))"
      using arg_cong[OF pq.get_contents[OF Suc.prems False], of length] by simp
    have "pi_nread (pipes s p) \<noteq> pi_nwrite (pipes s p)" using False by (simp add: pipe_queue_empty)
    then show ?thesis using Suc.IH[OF i] by (simp add: l split_beta Let_def o_def)
  qed
qed simp

lemma pipe_put_keeps: "pi_readopen (fold pipe_put xs pi) = pi_readopen pi" "pi_writeopen (fold pipe_put xs pi) = pi_writeopen pi"
  by (induction xs arbitrary: pi) (simp_all add: pipe_put_def)

lemma pipewrite_loop_append:
  "pipewrite_loop p xs s = Inr (True, t) \<Longrightarrow> pipewrite_loop p (xs @ ys) s = pipewrite_loop p ys t"
proof (induction xs arbitrary: s)
  case (Cons x xs)
  then show ?case by (auto simp: Let_def bnd_def sq_def split: if_splits sum.splits)
qed simp

lemma pipes_wakeup1 [simp]: "pipes (wakeup1 c s) = pipes s"
  by (simp add: wakeup1_def)

text \<open>
  C14. \<open>pipewrite\<close> of bytes for which the pipe has room returns their number and appends them to what the
  pipe holds, whatever the values of the two 32-bit counters, which may wrap on the way; other pipes
  are not touched.
\<close>

theorem pipe_write_appends:
  assumes "pipe_inv (pipes s p)" "length (pipe_queue (pipes s p)) + length src \<le> PIPESIZE"
  shows "\<exists>s'. pipewrite p src s = Inr (int (length src), s') \<and> pipe_inv (pipes s' p)
    \<and> pipe_queue (pipes s' p) = pipe_queue (pipes s p) @ src \<and> (\<forall>q. q \<noteq> p \<longrightarrow> pipes s' q = pipes s q)"
  using pq.put_all[OF assms] pipewrite_loop_room[OF assms] by (simp add: pipewrite_def wakeup_def)

lemma boot_file_pipe: "pipe_inv (pipes boot_file p)" "pipe_queue (pipes boot_file p) = []"
    "pi_readopen (pipes boot_file p)" "pi_writeopen (pipes boot_file p)" "\<not> p_killed (myproc boot_file)"
  by (simp_all add: boot_file_def boot_fs_def boot_cons_def boot_log_def boot_bio_def kcons.defs kfs.defs kfile.defs
      klog.defs pipe_inv_def pipe_queue_def myproc_def first_proc_def zero_proc_def)

theorem pipe_write_appends_witness:
  "\<exists>s'. pipewrite 0x80300000 [1, 2, 3] boot_file = Inr (3, s') \<and> pipe_queue (pipes s' 0x80300000) = [1, 2, 3]"
  using pipe_write_appends[of boot_file "0x80300000" "[1, 2, 3]"] by (auto simp: boot_file_pipe PIPESIZE_def)

text \<open>
  C15. \<open>piperead\<close> of \<open>n\<close> bytes from a pipe that is not empty, or whose writers are gone, returns the oldest
  bytes, at most \<open>n\<close>, and leaves the others in the pipe; other pipes are not touched.
\<close>

theorem pipe_read_takes:
  assumes "pipe_inv (pipes s p)" "pipe_queue (pipes s p) \<noteq> [] \<or> \<not> pi_writeopen (pipes s p)"
  shows "\<exists>s'. piperead p n s = Inr (Some (take (nat n) (pipe_queue (pipes s p))), s') \<and> pipe_inv (pipes s' p)
    \<and> pipe_queue (pipes s' p) = drop (nat n) (pipe_queue (pipes s p)) \<and> (\<forall>q. q \<noteq> p \<longrightarrow> pipes s' q = pipes s q)"
proof -
  let ?q = "pipe_queue (pipes s p)"
  let ?k = "min (nat n) (length ?q)"
  have t: "take ?k ?q = take (nat n) ?q" "drop ?k ?q = drop (nat n) ?q" by (simp_all add: min_def)
  have "\<not> (pi_nread (pipes s p) = pi_nwrite (pipes s p) \<and> pi_writeopen (pipes s p))"
    using assms(2) by (simp add: pipe_queue_empty)
  then show ?thesis
    using pq.take_out_contents[OF assms(1), of ?k] piperead_loop_run[OF assms(1), of "nat n"]
    by (simp add: piperead_def wakeup_def t Let_def)
qed

theorem pipe_read_takes_witness:
  "\<exists>(s :: kfile) s'. pipe_queue (pipes s 0x80300000) = [1, 2, 3] \<and> piperead 0x80300000 2 s = Inr (Some [1, 2], s')
     \<and> pipe_queue (pipes s' 0x80300000) = [3]"
proof -
  have "pipe_inv (pipes (upd_pipe 0x80300000 (fold pipe_put [1, 2, 3]) boot_file) 0x80300000)
      \<and> pipe_queue (pipes (upd_pipe 0x80300000 (fold pipe_put [1, 2, 3]) boot_file) 0x80300000) = [1, 2, 3]"
    using pq.put_all[of "pipes boot_file 0x80300000" "[1, 2, 3]"] by (simp add: boot_file_pipe PIPESIZE_def)
  then obtain s :: kfile where "pipe_inv (pipes s 0x80300000)" "pipe_queue (pipes s 0x80300000) = [1, 2, 3]" by blast
  with pipe_read_takes[of s "0x80300000" 2] show ?thesis by auto
qed

text \<open>
  When the bytes do not fit, \<open>pipewrite\<close> fills the pipe with those that do. Then it returns -1 if the
  readers are gone or the process was killed; otherwise it wakes the readers and sleeps on the pipe.
\<close>

theorem pipe_write_full:
  assumes "pipe_inv (pipes s p)" "PIPESIZE < length (pipe_queue (pipes s p)) + length src"
  defines "t \<equiv> upd_pipe p (fold pipe_put (take (PIPESIZE - length (pipe_queue (pipes s p))) src)) s"
  shows "length (pipe_queue (pipes t p)) = PIPESIZE \<and>
    pipewrite p src s = (if \<not> pi_readopen (pipes s p) \<or> p_killed (myproc s) then Inr (-1, t)
       else Inl (Asleep (ChPipeWrite (unat p)), upd_myproc (sleep_enter (ChPipeWrite (unat p)))
              (wakeup1 (ChPipeRead (unat p)) t)))"
proof -
  let ?k = "PIPESIZE - length (pipe_queue (pipes s p))"
  have le: "length (pipe_queue (pipes s p)) \<le> PIPESIZE" using assms(1) by (rule pq.bounded)
  have room: "length (pipe_queue (pipes s p)) + length (take ?k src) \<le> PIPESIZE" using le assms(2) by simp
  have q: "pipe_inv (pipes t p)" "pipe_queue (pipes t p) = pipe_queue (pipes s p) @ take ?k src"
    using pq.put_all[OF assms(1) room] by (simp_all add: t_def)
  then have full: "length (pipe_queue (pipes t p)) = PIPESIZE" using le assms(2) by simp
  obtain c cs where d: "drop ?k src = c # cs" using assms(2) le by (cases "drop ?k src") auto
  have "pipewrite_loop p (take ?k src @ drop ?k src) s = pipewrite_loop p (c # cs) t"
    unfolding d t_def by (rule pipewrite_loop_append[OF pipewrite_loop_room[OF assms(1) room]])
  then have l: "pipewrite_loop p src s = pipewrite_loop p (c # cs) t" by simp
  have "myproc t = myproc s" "pi_readopen (pipes t p) = pi_readopen (pipes s p)"
    by (simp_all add: t_def upd_pipe_def myproc_def pipe_put_keeps)
  with full pipe_full_iff[OF q(1)] show ?thesis
    unfolding pipewrite_def bnd_def l by (simp add: wakeup_def bnd_fail)
qed


theorem pipe_write_full_witness:
  "\<exists>s'. pipewrite 0x80300000 (replicate 600 7) boot_file = Inl (Asleep (ChPipeWrite 0x80300000), s')"
proof -
  have "PIPESIZE < length (pipe_queue (pipes boot_file 0x80300000)) + length (replicate 600 (7 :: u8))"
    by (simp add: boot_file_pipe PIPESIZE_def)
  from pipe_write_full[OF boot_file_pipe(1) this] boot_file_pipe(3,5) show ?thesis by (simp add: One_nat_def)
qed

end
