(* ===== verification/Vm.thy ===== *)
theory Vm
  imports File
begin

text \<open>
  Page tables, \<^verbatim>\<open>kernel/vm.c\<close>. A page directory and its page tables are words in the physical pages that
  \<open>kalloc\<close> hands out, so they are read and written in \<open>mem\<close>, as the code does. A null pointer is 0.
  \<open>cr3\<close> is the hardware register, \<open>kdata\<close> the linker's symbol \<open>data\<close>. The segment descriptors and the
  task state of \<open>switchuvm\<close> and \<open>seginit\<close> are not part of the state.
\<close>

definition PTE_P :: u32 where "PTE_P = 1"
definition PTE_W :: u32 where "PTE_W = 2"
definition PTE_U :: u32 where "PTE_U = 4"
definition EXTMEM :: u32 where "EXTMEM = 0x100000"
definition DEVSPACE :: u32 where "DEVSPACE = 0xFE000000"
definition KERNLINK :: u32 where "KERNLINK = KERNBASE + EXTMEM"
definition NPDENTRIES :: nat where "NPDENTRIES = 1024"

definition PDX :: "u32 \<Rightarrow> u32" where "PDX va = drop_bit 22 va AND 0x3FF"
definition PTX :: "u32 \<Rightarrow> u32" where "PTX va = drop_bit 12 va AND 0x3FF"
definition PGADDR :: "u32 \<Rightarrow> u32 \<Rightarrow> u32 \<Rightarrow> u32" where
  "PGADDR d t x = push_bit 22 d OR push_bit 12 t OR x"
definition PTE_ADDR :: "u32 \<Rightarrow> u32" where "PTE_ADDR pte = pte AND NOT 0xFFF"
definition PTE_FLAGS :: "u32 \<Rightarrow> u32" where "PTE_FLAGS pte = pte AND 0xFFF"

record kvm = kfile +
  kpgdir :: u32
  kdata :: u32
  cr3 :: u32

definition rd32 :: "u32 \<Rightarrow> ('x kmem_scheme, u32) kmon" where
  "rd32 a = rd (\<lambda>s. load32 (mem s) a)"

definition wr32 :: "u32 \<Rightarrow> u32 \<Rightarrow> ('x kmem_scheme, unit) kmon" where
  "wr32 a v = upd (\<lambda>s. s\<lparr>mem := store32 (mem s) a v\<rparr>)"

definition zero_page :: "u32 \<Rightarrow> ('x kmem_scheme, unit) kmon" where
  "zero_page a = upd (\<lambda>s. s\<lparr>mem := memset (mem s) a 0 PGSIZE\<rparr>)"

text \<open>The address of the page table entry, 0 if there is none.\<close>

definition walkpgdir :: "u32 \<Rightarrow> u32 \<Rightarrow> bool \<Rightarrow> ('x kmem_scheme, u32) kmon" where
  "walkpgdir pgdir va alloc = (let pde = pgdir + 4 * PDX va in
     bnd (rd32 pde) (\<lambda>e.
       if e AND PTE_P \<noteq> 0 then ret (P2V (PTE_ADDR e) + 4 * PTX va)
       else if \<not> alloc then ret 0
       else bnd kalloc (\<lambda>pgtab.
         if pgtab = 0 then ret 0
         else sq (zero_page pgtab)
             (sq (wr32 pde (V2P pgtab OR PTE_P OR PTE_W OR PTE_U)) (ret (pgtab + 4 * PTX va))))))"

text \<open>The loop visits the pages from \<open>a\<close> to \<open>last\<close>; -1 as \<open>Some\<close>.\<close>

definition mappages :: "u32 \<Rightarrow> u32 \<Rightarrow> u32 \<Rightarrow> u32 \<Rightarrow> u32 \<Rightarrow> ('x kmem_scheme, bool) kmon" where
  "mappages pgdir va sz pa perm =
    (let a = PGROUNDDOWN va; last = PGROUNDDOWN (va + sz - 1) in
     bnd (for_ret [0..<unat (last - a) div PGSIZE + 1] (\<lambda>k.
       bnd (walkpgdir pgdir (a + of_nat (k * PGSIZE)) True) (\<lambda>pte.
         if pte = 0 then ret (Some ())
         else bnd (rd32 pte) (\<lambda>e.
           if e AND PTE_P \<noteq> 0 then panic ''remap''
           else sq (wr32 pte ((pa + of_nat (k * PGSIZE)) OR perm OR PTE_P)) (ret None)))))
     (\<lambda>r. ret (r = None)))"

text \<open>
  Each turn of the loop of \<open>deallocuvm\<close> moves \<open>a\<close> up by at least a page, so a turn for every page of
  the address space below \<open>oldsz\<close> is enough.
\<close>

fun dealloc_loop :: "nat \<Rightarrow> u32 \<Rightarrow> u32 \<Rightarrow> u32 \<Rightarrow> ('x kmem_scheme, unit) kmon" where
  "dealloc_loop 0 pgdir a oldsz = (if a < oldsz then panic ''deallocuvm: loop'' else ret ())"
| "dealloc_loop (Suc k) pgdir a oldsz =
    (if \<not> a < oldsz then ret ()
     else bnd (walkpgdir pgdir a False) (\<lambda>pte.
       if pte = 0 then dealloc_loop k pgdir (PGADDR (PDX a + 1) 0 0 - of_nat PGSIZE + of_nat PGSIZE) oldsz
       else bnd (rd32 pte) (\<lambda>e.
         if e AND PTE_P \<noteq> 0
         then let pa = PTE_ADDR e in
           if pa = 0 then panic ''kfree''
           else sq (kfree (P2V pa)) (sq (wr32 pte 0) (dealloc_loop k pgdir (a + of_nat PGSIZE) oldsz))
         else dealloc_loop k pgdir (a + of_nat PGSIZE) oldsz)))"

definition deallocuvm :: "u32 \<Rightarrow> u32 \<Rightarrow> u32 \<Rightarrow> ('x kmem_scheme, u32) kmon" where
  "deallocuvm pgdir oldsz newsz =
    (if newsz \<ge> oldsz then ret oldsz
     else sq (dealloc_loop (unat oldsz div PGSIZE + 1) pgdir (PGROUNDUP newsz) oldsz) (ret newsz))"

definition freevm :: "u32 \<Rightarrow> ('x kmem_scheme, unit) kmon" where
  "freevm pgdir = (if pgdir = 0 then panic ''freevm: no pgdir''
     else sq (deallocuvm pgdir KERNBASE 0)
         (sq (for_all [0..<NPDENTRIES] (\<lambda>i. bnd (rd32 (pgdir + of_nat (4 * i))) (\<lambda>e.
                whenk (e AND PTE_P \<noteq> 0) (kfree (P2V (PTE_ADDR e))))))
             (kfree pgdir)))"

text \<open>The rows of \<open>kmap\<close>: virtual address, start and end of the physical range, permission.\<close>

definition kmap :: "u32 \<Rightarrow> (u32 \<times> u32 \<times> u32 \<times> u32) list" where
  "kmap data = [(KERNBASE, 0, EXTMEM, PTE_W), (KERNLINK, V2P KERNLINK, V2P data, 0),
     (data, V2P data, PHYSTOP, PTE_W), (DEVSPACE, DEVSPACE, 0, PTE_W)]"

definition setupkvm :: "('x kvm_scheme, u32) kmon" where
  "setupkvm = bnd kalloc (\<lambda>pgdir. if pgdir = 0 then ret 0
     else sq (zero_page pgdir)
       (if P2V PHYSTOP > DEVSPACE then panic ''PHYSTOP too high''
        else bnd (rd kdata) (\<lambda>data.
          bnd (for_ret (kmap data) (\<lambda>(virt, pstart, pend, perm).
                 bnd (mappages pgdir virt (pend - pstart) pstart perm) (\<lambda>ok. ret (if ok then None else Some ()))))
            (\<lambda>r. if r = None then ret pgdir else sq (freevm pgdir) (ret 0)))))"

definition switchkvm :: "('x kvm_scheme, unit) kmon" where
  "switchkvm = upd (\<lambda>s. s\<lparr>cr3 := V2P (kpgdir s)\<rparr>)"

definition kvmalloc :: "('x kvm_scheme, unit) kmon" where
  "kvmalloc = bnd setupkvm (\<lambda>pgdir. sq (upd (\<lambda>s. s\<lparr>kpgdir := pgdir\<rparr>)) switchkvm)"

text \<open>A process pointer is an index of the table, so it is never null here; the task state segment is not modelled.\<close>

definition switchuvm :: "proc \<Rightarrow> ('x kvm_scheme, unit) kmon" where
  "switchuvm p = (if p_kstack p = 0 then panic ''switchuvm: no kstack''
     else if p_pgdir p = 0 then panic ''switchuvm: no pgdir''
     else upd (\<lambda>s. s\<lparr>cr3 := V2P (p_pgdir p)\<rparr>))"

fun put_mem :: "memory \<Rightarrow> u32 \<Rightarrow> bytes \<Rightarrow> memory" where
  "put_mem m a [] = m"
| "put_mem m a (b # bs) = put_mem (m(a := b)) (a + 1) bs"

definition get_mem :: "memory \<Rightarrow> u32 \<Rightarrow> nat \<Rightarrow> bytes" where
  "get_mem m a n = map (\<lambda>i. m (a + of_nat i)) [0..<n]"

definition inituvm :: "u32 \<Rightarrow> bytes \<Rightarrow> ('x kmem_scheme, unit) kmon" where
  "inituvm pgdir init = (if length init \<ge> PGSIZE then panic ''inituvm: more than a page''
     else bnd kalloc (\<lambda>m. sq (zero_page m)
       (bnd (mappages pgdir 0 (of_nat PGSIZE) (V2P m) (PTE_W OR PTE_U)) (\<lambda>_.
          upd (\<lambda>s. s\<lparr>mem := put_mem (mem s) m init\<rparr>)))))"

definition loaduvm :: "u32 \<Rightarrow> u32 \<Rightarrow> nat \<Rightarrow> u32 \<Rightarrow> u32 \<Rightarrow> ('x kfs_scheme, bool) kmon" where
  "loaduvm pgdir addr ip offset sz = (if unat addr mod PGSIZE \<noteq> 0 then panic ''loaduvm: addr must be page aligned''
     else bnd (for_ret [0..<(unat sz + PGSIZE - 1) div PGSIZE] (\<lambda>k. let i = of_nat (k * PGSIZE) in
       bnd (walkpgdir pgdir (addr + i) False) (\<lambda>pte.
         if pte = 0 then panic ''loaduvm: address should exist''
         else bnd (rd32 pte) (\<lambda>e. let pa = PTE_ADDR e;
                n = (if sz - i < of_nat PGSIZE then sz - i else of_nat PGSIZE) in
           bnd (readi ip (offset + i) n) (\<lambda>r. case r of
             None \<Rightarrow> ret (Some ())
           | Some d \<Rightarrow> sq (upd (\<lambda>s. s\<lparr>mem := put_mem (mem s) (P2V pa) d\<rparr>))
                          (ret (if length d = unat n then None else Some ())))))))
     (\<lambda>r. ret (r = None)))"

definition allocuvm :: "u32 \<Rightarrow> u32 \<Rightarrow> u32 \<Rightarrow> ('x kcons_scheme, u32) kmon" where
  "allocuvm pgdir oldsz newsz =
    (if newsz \<ge> KERNBASE then ret 0
     else if newsz < oldsz then ret oldsz
     else let a = PGROUNDUP oldsz in
       bnd (for_ret [0..<(if a < newsz then (unat (newsz - a) + PGSIZE - 1) div PGSIZE else 0)] (\<lambda>k.
         bnd kalloc (\<lambda>m.
           if m = 0 then sq (cprintf (str ''allocuvm out of memory'' @ [10]) [])
             (bnd (deallocuvm pgdir newsz oldsz) (\<lambda>_. ret (Some ())))
           else sq (zero_page m)
             (bnd (mappages pgdir (a + of_nat (k * PGSIZE)) (of_nat PGSIZE) (V2P m) (PTE_W OR PTE_U)) (\<lambda>ok.
               if ok then ret None
               else sq (cprintf (str ''allocuvm out of memory (2)'' @ [10]) [])
                 (bnd (deallocuvm pgdir newsz oldsz) (\<lambda>_. sq (kfree m) (ret (Some ())))))))))
       (\<lambda>r. ret (if r = None then newsz else 0)))"

definition clearpteu :: "u32 \<Rightarrow> u32 \<Rightarrow> ('x kmem_scheme, unit) kmon" where
  "clearpteu pgdir uva = bnd (walkpgdir pgdir uva False) (\<lambda>pte.
     if pte = 0 then panic ''clearpteu'' else bnd (rd32 pte) (\<lambda>e. wr32 pte (e AND NOT PTE_U)))"

definition copyuvm :: "u32 \<Rightarrow> u32 \<Rightarrow> ('x kvm_scheme, u32) kmon" where
  "copyuvm pgdir sz = bnd setupkvm (\<lambda>d. if d = 0 then ret 0
     else bnd (for_ret [0..<(unat sz + PGSIZE - 1) div PGSIZE] (\<lambda>k. let i = of_nat (k * PGSIZE) in
       bnd (walkpgdir pgdir i False) (\<lambda>pte.
         if pte = 0 then panic ''copyuvm: pte should exist''
         else bnd (rd32 pte) (\<lambda>e.
           if e AND PTE_P = 0 then panic ''copyuvm: page not present''
           else bnd kalloc (\<lambda>m.
             if m = 0 then ret (Some ())
             else sq (upd (\<lambda>s. s\<lparr>mem := memmove (mem s) m (P2V (PTE_ADDR e)) PGSIZE\<rparr>))
               (bnd (mappages d i (of_nat PGSIZE) (V2P m) (PTE_FLAGS e)) (\<lambda>ok.
                 if ok then ret None else sq (kfree m) (ret (Some ())))))))))
     (\<lambda>r. if r = None then ret d else sq (freevm d) (ret 0)))"

text \<open>\<open>uva2ka\<close> reads through the pointer of \<open>walkpgdir\<close> without testing it for null.\<close>

definition uva2ka :: "u32 \<Rightarrow> u32 \<Rightarrow> ('x kmem_scheme, u32) kmon" where
  "uva2ka pgdir uva = bnd (walkpgdir pgdir uva False) (\<lambda>pte.
     if pte = 0 then panic ''uva2ka: null pte''
     else bnd (rd32 pte) (\<lambda>e.
       if e AND PTE_P = 0 then ret 0
       else if e AND PTE_U = 0 then ret 0
       else ret (P2V (PTE_ADDR e))))"

lemma va_off_bound: "unat (va - PGROUNDDOWN va) < PGSIZE"
proof -
  have "(va AND 4095) + PGROUNDDOWN va = (va AND 4095) OR PGROUNDDOWN va"
    unfolding PGROUNDDOWN_def by (rule disjunctive_add_eq_or) (simp add: bit_eq_iff bit_simps)
  also have "\<dots> = va" unfolding PGROUNDDOWN_def by (simp add: bit_eq_iff bit_simps) blast
  finally have d: "va - PGROUNDDOWN va = va AND 4095" by (metis add_diff_cancel_right')
  have "va AND 4095 = take_bit 12 va" by (simp add: take_bit_eq_mask mask_eq_decr_exp)
  moreover have "unat (take_bit 12 va) < 4096"
    using take_bit_nat_less_exp[of 12 "unat va"] by (simp add: unsigned_take_bit_eq)
  ultimately show ?thesis unfolding d PGSIZE_def by simp
qed

function copyout :: "u32 \<Rightarrow> u32 \<Rightarrow> bytes \<Rightarrow> ('x kmem_scheme, bool) kmon" where
  "copyout pgdir va p =
    (if p = [] then ret True
     else let va0 = PGROUNDDOWN va in
       bnd (uva2ka pgdir va0) (\<lambda>pa0.
         if pa0 = 0 then ret False
         else let n = min (PGSIZE - unat (va - va0)) (length p) in
           sq (upd (\<lambda>s. s\<lparr>mem := put_mem (mem s) (pa0 + (va - va0)) (take n p)\<rparr>))
              (copyout pgdir (va0 + of_nat PGSIZE) (drop n p))))"
  by pat_completeness auto
termination
  by (relation "measure (\<lambda>(pgdir, va, p). length p)") (use va_off_bound in \<open>auto simp: not_le\<close>)

declare copyout.simps [simp del]

subsection \<open>User memory\<close>

text \<open>
  The memory management unit: the kernel address of the byte at a virtual address. Kernel code may
  touch pages without \<open>PTE_U\<close>. A kernel access to an address that is not mapped is a trap in kernel
  mode, on which \<open>trap\<close> panics.
\<close>

definition translate :: "memory \<Rightarrow> u32 \<Rightarrow> u32 \<Rightarrow> u32 option" where
  "translate m pgdir va =
    (let pde = load32 m (pgdir + 4 * PDX va) in
     if pde AND PTE_P = 0 then None
     else let pte = load32 m (P2V (PTE_ADDR pde) + 4 * PTX va) in
       if pte AND PTE_P = 0 then None else Some (P2V (PTE_ADDR pte) + (va AND 0xFFF)))"

definition user_byte :: "u32 \<Rightarrow> u32 \<Rightarrow> ('x kproc_scheme, u8) kmon" where
  "user_byte pgdir va = bnd (rd mem) (\<lambda>m. case translate m pgdir va of
     Some a \<Rightarrow> ret (m a) | None \<Rightarrow> panic ''trap'')"

fun user_load :: "u32 \<Rightarrow> u32 \<Rightarrow> nat \<Rightarrow> ('x kproc_scheme, bytes) kmon" where
  "user_load pgdir va 0 = ret []"
| "user_load pgdir va (Suc n) = bnd (user_byte pgdir va) (\<lambda>b.
     bnd (user_load pgdir (va + 1) n) (\<lambda>bs. ret (b # bs)))"

fun user_store :: "u32 \<Rightarrow> u32 \<Rightarrow> bytes \<Rightarrow> ('x kproc_scheme, unit) kmon" where
  "user_store pgdir va [] = ret ()"
| "user_store pgdir va (b # bs) = bnd (rd mem) (\<lambda>m. case translate m pgdir va of
     Some a \<Rightarrow> sq (upd (\<lambda>s. s\<lparr>mem := (mem s)(a := b)\<rparr>)) (user_store pgdir (va + 1) bs)
   | None \<Rightarrow> panic ''trap'')"

subsection \<open>Pages, entries and translation\<close>

lemma mask_parts:
  fixes a i K :: u32
  assumes "a AND K = 0" "i AND NOT K = 0"
  shows "a + i = a OR i" "(a + i) AND K = i" "(a + i) AND NOT K = a"
proof -
  have b: "\<not> (bit a n \<and> bit K n)" "\<not> (bit i n \<and> \<not> bit K n)" if "n < 32" for n
    using assms that by (auto simp: bit_eq_iff bit_simps)
  show o: "a + i = a OR i" using b by (intro disjunctive_add_eq_or bit_word_eqI) (auto simp: bit_simps)
  show "(a + i) AND K = i" "(a + i) AND NOT K = a"
    unfolding o using b by (intro bit_word_eqI; auto simp: bit_simps)+
qed

definition aligned :: "u32 \<Rightarrow> bool" where
  "aligned a \<longleftrightarrow> a AND 0xFFF = 0"

lemma round_mask: "(a AND NOT K) AND K = (0 :: u32)"
  by (rule bit_word_eqI) (auto simp: bit_simps)

lemma aligned_round: "aligned (a AND NOT 0xFFF)"
  unfolding aligned_def by (rule round_mask)

lemma take_bit_sum_0:
  assumes "take_bit n a = 0" "take_bit n b = (0 :: u32)" "n \<le> 32"
  shows "take_bit n (a + b) = 0"
proof -
  have z: "take_bit n (uint a) = 0" "take_bit n (uint b) = 0"
    using assms(1,2) by (metis unsigned_0 unsigned_take_bit_eq)+
  have "uint (take_bit n (a + b)) = take_bit n (take_bit 32 (uint a + uint b))"
    unfolding unsigned_take_bit_eq by (simp add: uint_word_ariths take_bit_eq_mod)
  also have "\<dots> = take_bit n (uint a + uint b)" using assms(3) by (simp add: min_def)
  also have "\<dots> = 0" using take_bit_add[of n "uint a" "uint b"] z by simp
  finally show ?thesis by (metis unsigned_0 word_uint_eqI)
qed

lemma aligned_add: "aligned a \<Longrightarrow> aligned b \<Longrightarrow> aligned (a + b)"
proof -
  have m: "x AND 0xFFF = take_bit 12 x" for x :: u32 by (simp add: take_bit_eq_mask mask_eq_decr_exp)
  assume "aligned a" "aligned b"
  then show ?thesis unfolding aligned_def m by (intro take_bit_sum_0) simp_all
qed

lemma aligned_P2V: "aligned (P2V (PTE_ADDR e))"
  unfolding P2V_def PTE_ADDR_def by (intro aligned_add aligned_round) (simp add: aligned_def KERNBASE_def)

text \<open>Entries of a page: their addresses stay in the page and are all different.\<close>

lemma entry_small: "4 * ((x :: u32) AND 0x3FF) AND NOT 0xFFF = 0"
proof -
  have "4 * (x AND 0x3FF) = push_bit 2 (x AND 0x3FF)" by (simp add: push_bit_eq_mult)
  also have "\<dots> = push_bit 2 (take_bit 10 x)" by (simp add: take_bit_eq_mask mask_eq_decr_exp)
  finally have e: "4 * (x AND 0x3FF) = push_bit 2 (take_bit 10 x)" .
  have k: "(0xFFF :: u32) = mask 12" by (simp add: mask_eq_decr_exp)
  show ?thesis unfolding e k by (intro bit_word_eqI) (auto simp: bit_simps)
qed

lemma entry_inj:
  assumes "aligned a" "aligned b" "a + 4 * (x AND 0x3FF) = b + 4 * (y AND 0x3FF)"
  shows "a = b" "x AND 0x3FF = y AND 0x3FF"
proof -
  note p = mask_parts[OF _ entry_small] 
  show "a = b" using p(3)[of a x] p(3)[of b y] assms unfolding aligned_def by metis
  then have "4 * (x AND 0x3FF) = 4 * (y AND 0x3FF)" using assms(3) by simp
  moreover have "drop_bit 2 (4 * (z AND 0x3FF)) = z AND 0x3FF" for z :: u32
  proof -
    have "4 * (z AND 0x3FF) = push_bit 2 (take_bit 10 z)" by (simp add: push_bit_eq_mult take_bit_eq_mask mask_eq_decr_exp)
    moreover have "drop_bit 2 (push_bit 2 (take_bit 10 z)) = take_bit 10 z" by (intro bit_word_eqI) (auto simp: bit_simps)
    ultimately show ?thesis by (simp add: take_bit_eq_mask mask_eq_decr_exp)
  qed
  ultimately show "x AND 0x3FF = y AND 0x3FF" by metis
qed

lemma entry_aligned4:
  assumes "aligned a"
  shows "(a + 4 * (x AND 0x3FF)) AND 3 = 0"
proof -
  have m: "y AND 3 = take_bit 2 y" "y AND 0xFFF = take_bit 12 y" for y :: u32 by (simp_all add: take_bit_eq_mask mask_eq_decr_exp)
  have "take_bit 2 (take_bit 12 a) = take_bit 2 a" by simp
  moreover have "take_bit 12 a = 0" using assms unfolding aligned_def m .
  ultimately have "take_bit 2 a = 0" by (metis take_bit_of_0)
  moreover have "take_bit 2 (4 * (x AND 0x3FF)) = 0"
    using take_bit_push_bit[of 2 2 "x AND 0x3FF"] by (simp add: push_bit_eq_mult mult.commute)
  ultimately show ?thesis unfolding m by (intro take_bit_sum_0) simp_all
qed

lemma load32_store32_other:
  assumes "a AND 3 = 0" "b AND 3 = 0" "a \<noteq> b"
  shows "load32 (store32 m a v) b = load32 m b"
proof -
  have p: "(x + i) AND NOT 3 = x" if "x AND 3 = 0" "i \<in> {0, 1, 2, 3}" for x i :: u32
    using that by (intro mask_parts(3)) auto
  have ne: "b + j \<noteq> a + i" if "i \<in> {0, 1, 2, 3}" "j \<in> {0, 1, 2, 3}" for i j
    using p[OF assms(1) that(1)] p[OF assms(2) that(2)] assms(3) by metis
  have k: "store32 m a v (b + j) = m (b + j)" if "j \<in> {0, 1, 2, 3}" for j
    using ne[of 0 j] ne[of 1 j] ne[of 2 j] ne[of 3 j] that by (simp add: store32_def)
  show ?thesis using k[of 0] k[of 1] k[of 2] k[of 3] by (simp add: load32_def)
qed

lemma masks: "(0xFFF :: u32) = mask 12" "(0x3FF :: u32) = mask 10"
  by (simp_all add: mask_eq_decr_exp)

lemma page_index: "PDX (w AND NOT 0xFFF) = PDX w" "PTX (w AND NOT 0xFFF) = PTX w"
  unfolding PDX_def PTX_def masks by (intro bit_word_eqI; auto simp: bit_simps)+

lemma index_page:
  assumes "PDX v = PDX w" "PTX v = PTX w"
  shows "v AND NOT 0xFFF = w AND NOT 0xFFF"
proof (rule bit_word_eqI)
  fix n assume n: "n < LENGTH(32)"
  have d: "bit v (22 + i) = bit w (22 + i)" "bit v (12 + i) = bit w (12 + i)" if "i < 10" for i
    using arg_cong[OF assms(1), of "\<lambda>x. bit x i"] arg_cong[OF assms(2), of "\<lambda>x. bit x i"] that
    unfolding PDX_def PTX_def masks by (auto simp: bit_simps)
  consider "n < 12" | "12 \<le> n" "n < 22" | "22 \<le> n" by linarith
  then have "12 \<le> n \<Longrightarrow> bit v n = bit w n"
    using d(1)[of "n - 22"] d(2)[of "n - 12"] n by cases auto
  then show "bit (v AND NOT 0xFFF) n = bit (w AND NOT 0xFFF) n" unfolding masks using n by (auto simp: bit_simps)
qed

lemma pgaddr_parts: "PGADDR (PDX va) (PTX va) (va AND 0xFFF) = va"
  unfolding PGADDR_def PDX_def PTX_def masks
proof (rule bit_word_eqI)
  fix n assume n: "n < LENGTH(32)"
  show "bit (push_bit 22 (drop_bit 22 va AND mask 10) OR push_bit 12 (drop_bit 12 va AND mask 10) OR (va AND mask 12)) n = bit va n"
    using n by (cases "n < 12"; cases "n < 22") (auto simp: bit_simps)
qed

text \<open>The address of the page table entry for \<open>va\<close>.\<close>

definition pte_slot :: "memory \<Rightarrow> u32 \<Rightarrow> u32 \<Rightarrow> u32" where
  "pte_slot m pgdir va = P2V (PTE_ADDR (load32 m (pgdir + 4 * PDX va))) + 4 * PTX va"

lemma translate_slot:
  "translate m pgdir va = (if load32 m (pgdir + 4 * PDX va) AND PTE_P = 0 then None
     else let e = load32 m (pte_slot m pgdir va) in if e AND PTE_P = 0 then None else Some (P2V (PTE_ADDR e) + (va AND 0xFFF)))"
  by (simp add: translate_def pte_slot_def Let_def)

lemma mappages_one:
  assumes "aligned va" "load32 (mem s) (pgdir + 4 * PDX va) AND PTE_P \<noteq> 0" "pte_slot (mem s) pgdir va \<noteq> 0"
    "load32 (mem s) (pte_slot (mem s) pgdir va) AND PTE_P = 0"
  shows "mappages pgdir va (of_nat PGSIZE) pa perm s
     = Inr (True, s\<lparr>mem := store32 (mem s) (pte_slot (mem s) pgdir va) (pa OR perm OR PTE_P)\<rparr>)"
proof -
  have a: "va AND 0xFFF = 0" using assms(1) by (simp add: aligned_def)
  have r: "PGROUNDDOWN va = va" "PGROUNDDOWN (va + of_nat PGSIZE - 1) = va"
    using mask_parts(3)[OF a, of 0] mask_parts(3)[OF a, of "0xFFF"] by (simp_all add: PGROUNDDOWN_def PGSIZE_def add.commute)
  show ?thesis using assms(2-4) unfolding pte_slot_def
    by (simp add: mappages_def r Let_def walkpgdir_def rd32_def wr32_def upt_rec One_nat_def)
qed

lemma pte_bits:
  assumes "pa AND 0xFFF = 0" "perm AND NOT 0xFFF = 0"
  shows "PTE_ADDR (pa OR perm OR PTE_P) = pa" "(pa OR perm OR PTE_P) AND PTE_P \<noteq> 0"
proof -
  have "(perm OR PTE_P) AND NOT 0xFFF = 0" using assms(2) by (simp add: bit.conj_disj_distrib2 PTE_P_def)
  from mask_parts[OF assms(1) this] show "PTE_ADDR (pa OR perm OR PTE_P) = pa" by (simp add: PTE_ADDR_def)
  have "(pa OR perm OR PTE_P) AND PTE_P = PTE_P" by (rule bit_word_eqI) (auto simp: bit_simps)
  then show "(pa OR perm OR PTE_P) AND PTE_P \<noteq> 0" by (simp add: PTE_P_def)
qed

text \<open>What storing the entry of \<open>va\<close> does to the translation of every address.\<close>

lemma translate_map:
  assumes "aligned va" "aligned pa" "perm AND NOT 0xFFF = 0" "aligned pgdir"
    and pde: "load32 m (pgdir + 4 * PDX va) AND PTE_P \<noteq> 0"
    and own: "P2V (PTE_ADDR (load32 m (pgdir + 4 * PDX va))) \<noteq> pgdir"
      "\<And>w. PDX w \<noteq> PDX va \<Longrightarrow>
         PTE_ADDR (load32 m (pgdir + 4 * PDX w)) \<noteq> PTE_ADDR (load32 m (pgdir + 4 * PDX va))"
  shows "translate (store32 m (pte_slot m pgdir va) (pa OR perm OR PTE_P)) pgdir w =
        (if w AND NOT 0xFFF = va then Some (P2V pa + (w AND 0xFFF)) else translate m pgdir w)"
proof -
  define sl where "sl = pte_slot m pgdir"
  define m' where "m' = store32 m (sl va) (pa OR perm OR PTE_P)"
  have al: "sl w AND 3 = 0" "(pgdir + 4 * PDX w) AND 3 = 0" for w
    using entry_aligned4 aligned_P2V assms(4) by (simp_all add: sl_def pte_slot_def PTX_def PDX_def)
  have dir: "sl va \<noteq> pgdir + 4 * PDX w" for w
    using entry_inj(1)[OF aligned_P2V assms(4)] own(1) unfolding sl_def pte_slot_def PDX_def PTX_def by metis
  have d: "load32 m' (pgdir + 4 * PDX w) = load32 m (pgdir + 4 * PDX w)" for w
    unfolding m'_def using al dir by (intro load32_store32_other)
  then have sl': "pte_slot m' pgdir w = sl w" for w by (simp add: pte_slot_def sl_def)
  have other: "load32 m' (sl w) = load32 m (sl w)" if "w AND NOT 0xFFF \<noteq> va" for w
  proof -
    have "sl va \<noteq> sl w"
    proof
      assume e: "sl va = sl w"
      have "P2V (PTE_ADDR (load32 m (pgdir + 4 * PDX va))) = P2V (PTE_ADDR (load32 m (pgdir + 4 * PDX w)))" "PTX va = PTX w"
        using entry_inj[OF aligned_P2V aligned_P2V] e unfolding sl_def pte_slot_def PTX_def by metis+
      moreover from this(1) own(2) have "PDX w = PDX va" unfolding P2V_def by (metis add_right_cancel)
      ultimately have "w AND NOT 0xFFF = va AND NOT 0xFFF" by (intro index_page) simp_all
      then show False using that mask_parts(3)[of va "0xFFF" 0] assms(1) by (simp add: aligned_def)
    qed
    then show ?thesis unfolding m'_def using al by (intro load32_store32_other)
  qed
  have same: "sl w = sl va" "PDX w = PDX va" if "w AND NOT 0xFFF = va" for w
    using page_index[of w] that by (simp_all add: sl_def pte_slot_def)
  have "translate m' pgdir w = (if w AND NOT 0xFFF = va then Some (P2V pa + (w AND 0xFFF)) else translate m pgdir w)"
    using same[of w] other[of w] d[of w] pde pte_bits[of pa perm] assms(2,3) load32_store32[of m "sl va"]
    unfolding translate_slot sl' by (simp add: Let_def m'_def aligned_def sl_def)
  then show ?thesis by (simp add: m'_def sl_def)
qed

text \<open>
  C7. Mapping a page. If the page table for \<open>va\<close> exists and belongs to no other part of the address space,
  and \<open>va\<close> is not mapped, then \<open>mappages\<close> of one page succeeds; afterwards the hardware translates every
  address in the page to the same offset in the physical page \<open>pa\<close>, and every other address as before.
\<close>

theorem mappages_maps:
  assumes "aligned va" "aligned pa" "perm AND NOT 0xFFF = 0" "aligned pgdir"
    and pde: "load32 (mem s) (pgdir + 4 * PDX va) AND PTE_P \<noteq> 0"
    and own: "P2V (PTE_ADDR (load32 (mem s) (pgdir + 4 * PDX va))) \<noteq> pgdir"
      "\<And>w. PDX w \<noteq> PDX va \<Longrightarrow>
         PTE_ADDR (load32 (mem s) (pgdir + 4 * PDX w)) \<noteq> PTE_ADDR (load32 (mem s) (pgdir + 4 * PDX va))"
    and "translate (mem s) pgdir va = None" "pte_slot (mem s) pgdir va \<noteq> 0"
  shows "\<exists>s'. mappages pgdir va (of_nat PGSIZE) pa perm s = Inr (True, s') \<and>
     (\<forall>w. translate (mem s') pgdir w =
        (if w AND NOT 0xFFF = va then Some (P2V pa + (w AND 0xFFF)) else translate (mem s) pgdir w))"
proof -
  have e0: "load32 (mem s) (pte_slot (mem s) pgdir va) AND PTE_P = 0"
    using assms(8) pde by (simp add: translate_slot Let_def split: if_splits)
  show ?thesis unfolding mappages_one[OF assms(1) pde assms(9) e0] using translate_map[OF assms(1-4) pde own] by simp
qed

text \<open>A page directory with one empty page table.\<close>

definition map_demo :: kmem where
  "map_demo = \<lparr>mem = store32 (\<lambda>_. 0) 0x80400000 0x401007, freelist = 0, use_lock = True, kend = 0x80200000\<rparr>"

lemma map_demo_dir:
  "load32 (mem map_demo) (0x80400000 + 4 * PDX w) = (if PDX w = 0 then 0x401007 else 0)"
proof (cases "PDX w = 0")
  case True
  then show ?thesis by (simp add: map_demo_def load32_store32)
next
  case False
  have a: "aligned 0x80400000" by (simp add: aligned_def)
  have "load32 (mem map_demo) (0x80400000 + 4 * PDX w) = load32 (\<lambda>_. 0) (0x80400000 + 4 * PDX w)"
    using False entry_aligned4[OF a] entry_inj(2)[OF a a, of 0 "drop_bit 22 w"]
    unfolding map_demo_def by (auto intro!: load32_store32_other simp: PDX_def)
  with False show ?thesis by (simp add: load32_def)
qed

theorem mappages_maps_witness:
  "\<exists>s'. mappages 0x80400000 0x3000 (of_nat PGSIZE) 0x402000 6 map_demo = Inr (True, s') \<and>
     translate (mem s') 0x80400000 0x3010 = Some 0x80402010 \<and> translate (mem s') 0x80400000 0x4010 = None"
proof -
  have x: "PDX 0x3000 = 0" "PTX 0x3000 = 3" "PDX 0x4010 = 0" "PTX 0x4010 = 4"
    by (simp_all add: PDX_def PTX_def drop_bit_eq_div)
  have z: "load32 (mem map_demo) 0x8040100c = 0" "load32 (mem map_demo) 0x80401010 = 0"
      "load32 (mem map_demo) 0x80400000 = 0x401007"
    by (simp_all add: map_demo_def load32_store32) (simp_all add: load32_def store32_def)
  have p: "P2V (PTE_ADDR 0x401007) = 0x80401000" by (simp add: P2V_def PTE_ADDR_def KERNBASE_def)
  have "\<exists>s'. mappages 0x80400000 0x3000 (of_nat PGSIZE) 0x402000 6 map_demo = Inr (True, s') \<and>
     (\<forall>w. translate (mem s') 0x80400000 w =
        (if w AND NOT 0xFFF = 0x3000 then Some (P2V 0x402000 + (w AND 0xFFF)) else translate (mem map_demo) 0x80400000 w))"
    using x z p by (intro mappages_maps)
      (simp_all add: aligned_def map_demo_dir translate_slot pte_slot_def PTE_P_def PTE_ADDR_def)
  then obtain s' where s': "mappages 0x80400000 0x3000 (of_nat PGSIZE) 0x402000 6 map_demo = Inr (True, s')"
    "\<And>w. translate (mem s') 0x80400000 w =
        (if w AND NOT 0xFFF = 0x3000 then Some (P2V 0x402000 + (w AND 0xFFF)) else translate (mem map_demo) 0x80400000 w)" by blast
  have "translate (mem map_demo) 0x80400000 0x4010 = None" using x z p by (simp add: translate_slot map_demo_dir pte_slot_def Let_def)
  with s' show ?thesis by (simp add: P2V_def KERNBASE_def)
qed

subsection \<open>Freeing user memory ends\<close>

lemma unat_KERNBASE: "unat KERNBASE = 2 ^ 31"
  by (simp add: KERNBASE_def One_nat_def)

lemma PGADDR_next:
  assumes "a < KERNBASE"
  shows "unat (PGADDR (PDX a + 1) 0 0) = (unat a div 2 ^ 22 + 1) * 2 ^ 22"
proof -
  have a: "unat a < 2 ^ 31" using assms by (simp add: word_less_nat_alt unat_KERNBASE)
  have "PDX a = take_bit 10 (drop_bit 22 a)" by (simp add: PDX_def take_bit_eq_mask mask_eq_decr_exp)
  then have "unat (PDX a) = take_bit 10 (drop_bit 22 (unat a))"
    by (simp only: unsigned_take_bit_eq unsigned_drop_bit_eq) (simp add: take_bit_nat_eq_self[OF unat32_bound])
  then have p: "unat (PDX a) = unat a div 2 ^ 22" using a by (simp add: take_bit_nat_eq_self drop_bit_eq_div)
  have b: "unat a div 2 ^ 22 < 512" using a by (simp add: less_mult_imp_div_less)
  have "unat (PGADDR (PDX a + 1) 0 0) = unat ((PDX a + 1) * 2 ^ 22)" by (simp add: PGADDR_def push_bit_eq_mult)
  also have "\<dots> = (unat a div 2 ^ 22 + 1) * 2 ^ 22 mod 2 ^ 32"
    unfolding unat_word_ariths p by (simp add: mod_mult_left_eq)
  finally show ?thesis using b by simp
qed

lemma aligned_unat: "aligned a \<Longrightarrow> unat a mod 4096 = 0"
proof -
  assume "aligned a"
  then have "take_bit 12 a = 0" by (simp add: aligned_def take_bit_eq_mask mask_eq_decr_exp)
  then have "take_bit 12 (unat a) = 0" by (metis unsigned_0 unsigned_take_bit_eq)
  then show ?thesis by (simp add: take_bit_eq_mod)
qed

lemma next_page:
  assumes "aligned a" "a < oldsz" "oldsz \<le> KERNBASE"
  shows "unat a + PGSIZE \<le> unat (PGADDR (PDX a + 1) 0 0)" "unat (a + of_nat PGSIZE) = unat a + PGSIZE"
    "aligned (PGADDR (PDX a + 1) 0 0)" "aligned (a + of_nat PGSIZE)"
proof -
  have lt: "a < KERNBASE" using assms(2,3) by simp
  then have a: "unat a < 2 ^ 31" by (simp add: word_less_nat_alt unat_KERNBASE)
  obtain k where k: "unat a = 4096 * k" using aligned_unat[OF assms(1)] by (metis dvd_def dvd_eq_mod_eq_0)
  have "unat a div 2 ^ 22 = k div 1024" using div_mult_mult1[of 4096 k 1024] k by simp
  moreover have "k < 1024 * (k div 1024) + 1024" by (simp add: mult.commute dividend_less_times_div)
  ultimately show "unat a + PGSIZE \<le> unat (PGADDR (PDX a + 1) 0 0)"
    unfolding PGADDR_next[OF lt] k PGSIZE_def by simp
  show "unat (a + of_nat PGSIZE) = unat a + PGSIZE" using a by (intro unat_add32) (simp add: PGSIZE_def)
  show "aligned (a + of_nat PGSIZE)" using assms(1) by (intro aligned_add) (simp_all add: aligned_def PGSIZE_def)
  show "aligned (PGADDR (PDX a + 1) 0 0)"
    unfolding aligned_def masks PGADDR_def by (intro bit_word_eqI) (auto simp: bit_simps)
qed

text \<open>Computations that do not end in a panic with the given message.\<close>

definition avoids :: "string \<Rightarrow> ('s, 'a) kmon \<Rightarrow> bool" where
  "avoids msg m \<longleftrightarrow> (\<forall>s t. m s \<noteq> Inl (Panic msg, t))"

lemma avoids_basic: "avoids msg (ret x)" "avoids msg (rd f)" "avoids msg (upd g)" "msg' \<noteq> msg \<Longrightarrow> avoids msg (panic msg')"
  by (simp_all add: avoids_def)

lemma avoids_bnd: "avoids msg m \<Longrightarrow> (\<And>x. avoids msg (f x)) \<Longrightarrow> avoids msg (bnd m f)"
  by (auto simp: avoids_def bnd_def split: sum.splits)

lemma avoids_sq: "avoids msg m \<Longrightarrow> avoids msg m' \<Longrightarrow> avoids msg (sq m m')"
  unfolding sq_def by (rule avoids_bnd)

lemma avoids_if: "(b \<Longrightarrow> avoids msg m) \<Longrightarrow> (\<not> b \<Longrightarrow> avoids msg m') \<Longrightarrow> avoids msg (if b then m else m')"
  by simp

lemmas avoids = avoids_basic avoids_bnd avoids_sq avoids_if

lemma avoids_walk: "avoids msg (walkpgdir pgdir va False)"
  unfolding walkpgdir_def Let_def rd32_def by (simp add: avoids)

lemma dealloc_ends:
  assumes "aligned a" "oldsz \<le> KERNBASE" "unat oldsz \<le> unat a + k * PGSIZE"
  shows "avoids ''deallocuvm: loop'' (dealloc_loop k pgdir a oldsz :: ('x kmem_scheme, unit) kmon)"
  using assms
proof (induction k arbitrary: a)
  case 0
  then show ?case unfolding dealloc_loop.simps by (intro avoids) (simp add: word_less_nat_alt)
next
  case (Suc k)
  have ih: "avoids ''deallocuvm: loop'' (dealloc_loop k pgdir b oldsz :: ('x kmem_scheme, unit) kmon)"
    if "b = PGADDR (PDX a + 1) 0 0 \<or> b = a + of_nat PGSIZE" "a < oldsz" for b
    using next_page[OF Suc.prems(1) that(2) Suc.prems(2)] that(1) Suc.prems by (intro Suc.IH) auto
  show ?case unfolding dealloc_loop.simps rd32_def wr32_def kfree_def Let_def
    by (intro avoids avoids_walk; simp add: ih)
qed

text \<open>
  C24. The loop of \<open>deallocuvm\<close> ends. For a user address space, which lies below \<open>KERNBASE\<close>, it never runs out
  of turns, whatever the page tables hold: each turn moves up by at least a page, also when it skips
  to the next directory entry.
\<close>

theorem deallocuvm_ends:
  fixes s :: "'x kmem_scheme"
  assumes "oldsz \<le> KERNBASE"
  shows "deallocuvm pgdir oldsz newsz s \<noteq> Inl (Panic ''deallocuvm: loop'', t)"
proof -
  have "aligned (PGROUNDUP newsz)" unfolding PGROUNDUP_def by (rule aligned_round)
  moreover have "unat oldsz \<le> (unat oldsz div PGSIZE + 1) * PGSIZE"
    using div_mult_mod_eq[of "unat oldsz" PGSIZE] mod_less_divisor[of PGSIZE "unat oldsz"] by (simp add: PGSIZE_def)
  ultimately have "avoids ''deallocuvm: loop'' (dealloc_loop (unat oldsz div PGSIZE + 1) pgdir (PGROUNDUP newsz) oldsz :: ('x kmem_scheme, unit) kmon)"
    using assms by (intro dealloc_ends) simp_all
  then have "avoids ''deallocuvm: loop'' (deallocuvm pgdir oldsz newsz :: ('x kmem_scheme, u32) kmon)"
    unfolding deallocuvm_def by (intro avoids)
  then show ?thesis by (simp add: avoids_def)
qed

theorem deallocuvm_ends_witness: "deallocuvm 0x80400000 KERNBASE 0 map_demo \<noteq> Inl (Panic ''deallocuvm: loop'', map_demo)"
  using deallocuvm_ends[of KERNBASE] by simp

end
