(* ===== verification/Proc.thy ===== *)
theory Proc
  imports Vm
begin

text \<open>
  Processes, the rest of \<^verbatim>\<open>kernel/proc.c\<close>: creation, \<open>fork\<close>, \<open>exit\<close>, \<open>wait\<close>, \<open>kill\<close>, growing, and the
  scheduler. The trap frame is a record of the process rather than words on its kernel stack; the
  context that \<open>allocproc\<close> builds is written to the stack page. \<open>sched\<close> ends the run of the caller;
  the per-processor checks it starts with (the lock count and the interrupt flag) are not modelled.
  \<open>sym_forkret\<close> and \<open>sym_trapret\<close> are the addresses of the two labels, \<open>initcode\<close> the bytes of the
  first user program. \<open>junk\<close> is what an uninitialised variable, or the result of a function that ends
  without \<open>return\<close>, happens to hold, and \<open>junk_str\<close> the string an uninitialised pointer happens to point
  at: nothing is known of either.
\<close>

definition KSTACKSIZE :: u32 where "KSTACKSIZE = 4096"
definition TFSIZE :: u32 where "TFSIZE = 76"
definition CTXSIZE :: nat where "CTXSIZE = 20"

record kern = kvm +
  ticks :: u32
  sym_forkret :: u32
  sym_trapret :: u32
  initcode :: bytes
  first_forkret :: bool
  kbd_shift :: u32
  junk :: u32
  junk_str :: bytes

definition allocproc :: "('x kern_scheme, nat option) kmon" where
  "allocproc = bnd (rd ptable) (\<lambda>pt. case find (\<lambda>i. p_state (pt ! i) = UNUSED) [0..<NPROC] of
     None \<Rightarrow> ret None
   | Some p \<Rightarrow>
       sq (upd (\<lambda>s. (upd_proc p (\<lambda>x. x\<lparr>p_state := EMBRYO, p_pid := nextpid s\<rparr>) s)\<lparr>nextpid := nextpid s + 1\<rparr>))
       (bnd kalloc (\<lambda>k. sq (upd (upd_proc p (\<lambda>x. x\<lparr>p_kstack := k\<rparr>)))
         (if k = 0 then sq (upd (upd_proc p (\<lambda>x. x\<lparr>p_state := UNUSED\<rparr>))) (ret None)
          else let sp = k + KSTACKSIZE - TFSIZE - 4; ctx = sp - of_nat CTXSIZE in
            bnd (rd sym_trapret) (\<lambda>tr. sq (wr32 sp tr)
            (sq (upd (upd_proc p (\<lambda>x. x\<lparr>p_context := ctx\<rparr>)))
            (sq (upd (\<lambda>s. s\<lparr>mem := memset (mem s) ctx 0 CTXSIZE\<rparr>))
            (bnd (rd sym_forkret) (\<lambda>fr. sq (wr32 (ctx + 16) fr) (ret (Some p)))))))))))"

text \<open>\<open>safestrcpy(p->name, s, sizeof(p->name))\<close>.\<close>

definition set_name :: "bytes \<Rightarrow> proc \<Rightarrow> proc" where
  "set_name t p = (case safestrcpy t 16 of
     Some w \<Rightarrow> p\<lparr>p_name := w @ drop (length w) (p_name p)\<rparr> | None \<Rightarrow> p)"

definition SEG_UCODE :: u16 where "SEG_UCODE = 3"
definition SEG_UDATA :: u16 where "SEG_UDATA = 4"
definition FL_IF :: u32 where "FL_IF = 0x200"

definition user_tf :: trapframe where
  "user_tf = zero_tf\<lparr>tf_cs := push_bit 3 SEG_UCODE OR 3, tf_ds := push_bit 3 SEG_UDATA OR 3,
     tf_es := push_bit 3 SEG_UDATA OR 3, tf_ss := push_bit 3 SEG_UDATA OR 3, tf_eflags := FL_IF,
     tf_esp := of_nat PGSIZE, tf_eip := 0\<rparr>"

definition userinit :: "('x kern_scheme, unit) kmon" where
  "userinit = bnd allocproc (\<lambda>r. case r of None \<Rightarrow> panic ''userinit: no process'' | Some p \<Rightarrow>
     sq (upd (\<lambda>s. s\<lparr>initproc := p\<rparr>))
     (bnd setupkvm (\<lambda>d. sq (upd (upd_proc p (\<lambda>x. x\<lparr>p_pgdir := d\<rparr>)))
       (if d = 0 then panic ''userinit: out of memory?''
        else bnd (rd initcode) (\<lambda>code. sq (inituvm d code)
          (sq (upd (upd_proc p (\<lambda>x. set_name (map of_char ''initcode'' @ [0])
                  (x\<lparr>p_sz := of_nat PGSIZE, p_tf := user_tf\<rparr>))))
          (bnd (namei [slash]) (\<lambda>ip. sq (upd (upd_proc p (\<lambda>x. x\<lparr>p_cwd := ip\<rparr>)))
            (upd (upd_proc p (\<lambda>x. x\<lparr>p_state := RUNNABLE\<rparr>)))))))))))"

definition growproc :: "int \<Rightarrow> ('x kern_scheme, int) kmon" where
  "growproc n = bnd (rd myproc) (\<lambda>p. let sz = p_sz p in
     bnd (if n > 0 then allocuvm (p_pgdir p) sz (sz + of_int n)
          else if n < 0 then deallocuvm (p_pgdir p) sz (sz + of_int n)
          else ret sz) (\<lambda>sz'.
       if n \<noteq> 0 \<and> sz' = 0 then ret (-1)
       else sq (upd (upd_myproc (\<lambda>x. x\<lparr>p_sz := sz'\<rparr>)))
           (bnd (rd myproc) (\<lambda>p. sq (switchuvm p) (ret 0)))))"

text \<open>Duplicating the open files into the child \<open>np\<close>.\<close>

definition fork_files :: "nat \<Rightarrow> ('x kern_scheme, unit) kmon" where
  "fork_files np = for_all [0..<NOFILE] (\<lambda>i. bnd (rd (\<lambda>s. p_ofile (myproc s) ! i)) (\<lambda>f. case f of
     None \<Rightarrow> ret ()
   | Some f \<Rightarrow> bnd (filedup f) (\<lambda>f. upd (upd_proc np (\<lambda>x. x\<lparr>p_ofile := (p_ofile x)[i := Some f]\<rparr>)))))"

definition fork_child :: "nat \<Rightarrow> proc \<Rightarrow> u32 \<Rightarrow> proc \<Rightarrow> proc" where
  "fork_child cur p d x = x\<lparr>p_pgdir := d, p_sz := p_sz p, p_parent := Some cur, p_tf := (p_tf p)\<lparr>tf_eax := 0\<rparr>\<rparr>"

definition fork :: "('x kern_scheme, int) kmon" where
  "fork = bnd (rd curproc) (\<lambda>cur. bnd (rd myproc) (\<lambda>p. bnd allocproc (\<lambda>r. case r of
     None \<Rightarrow> ret (-1)
   | Some np \<Rightarrow> bnd (copyuvm (p_pgdir p) (p_sz p)) (\<lambda>d.
       if d = 0 then bnd (rd (\<lambda>s. p_kstack (ptable s ! np))) (\<lambda>k. sq (kfree k)
           (sq (upd (upd_proc np (\<lambda>x. x\<lparr>p_pgdir := 0, p_kstack := 0, p_state := UNUSED\<rparr>))) (ret (-1))))
       else sq (upd (upd_proc np (fork_child cur p d)))
         (sq (fork_files np)
         (bnd (case p_cwd p of Some ip \<Rightarrow> idup ip | None \<Rightarrow> panic ''fork: no cwd'') (\<lambda>ip.
         sq (upd (upd_proc np (\<lambda>x. set_name (p_name p) (x\<lparr>p_cwd := Some ip\<rparr>))))
         (bnd (rd (\<lambda>s. p_pid (ptable s ! np))) (\<lambda>pid.
         sq (upd (upd_proc np (\<lambda>x. x\<lparr>p_state := RUNNABLE\<rparr>))) (ret pid))))))))))"

subsection \<open>Giving the processor away\<close>

definition switched :: "('s, 'a) kmon" where
  "switched = (\<lambda>s. Inl (Switched, s))"

text \<open>The panics of \<open>sched\<close> about the locks held and the interrupt flag have no counterpart: both are outside this state.\<close>

definition sched :: "('x kern_scheme, 'a) kmon" where
  "sched = bnd (rd myproc) (\<lambda>p. if p_state p = RUNNING then panic ''sched running'' else switched)"

definition yield :: "('x kern_scheme, unit) kmon" where
  "yield = sq (upd (upd_myproc (\<lambda>p. p\<lparr>p_state := RUNNABLE\<rparr>))) sched"

text \<open>What \<open>sleep\<close> does once the process runs again.\<close>

definition sleep_leave :: "proc \<Rightarrow> proc" where
  "sleep_leave p = p\<lparr>p_chan := None\<rparr>"

text \<open>One turn of the inner loop of \<open>scheduler\<close>, up to the switch to the process.\<close>

definition scheduler_turn :: "nat \<Rightarrow> ('x kern_scheme, bool) kmon" where
  "scheduler_turn i = bnd (rd (\<lambda>s. ptable s ! i)) (\<lambda>p.
     if p_state p \<noteq> RUNNABLE then ret False
     else sq (upd (\<lambda>s. s\<lparr>curproc := i\<rparr>)) (sq (switchuvm p)
       (sq (upd (upd_proc i (\<lambda>x. x\<lparr>p_state := RUNNING\<rparr>))) (ret True))))"

definition forkret :: "('x kern_scheme, unit) kmon" where
  "forkret = bnd (rd first_forkret) (\<lambda>f. whenk f
     (sq (upd (\<lambda>s. s\<lparr>first_forkret := False\<rparr>)) (sq (iinit ROOTDEV) (initlog ROOTDEV))))"

subsection \<open>Exit, wait and kill\<close>

definition exit_files :: "('x kern_scheme, unit) kmon" where
  "exit_files = for_all [0..<NOFILE] (\<lambda>fd. bnd (rd (\<lambda>s. p_ofile (myproc s) ! fd)) (\<lambda>f. case f of
     None \<Rightarrow> ret ()
   | Some f \<Rightarrow> sq (fileclose f) (upd (upd_myproc (\<lambda>p. p\<lparr>p_ofile := (p_ofile p)[fd := None]\<rparr>)))))"

definition reparent :: "nat \<Rightarrow> ('x kern_scheme, unit) kmon" where
  "reparent cur = for_all [0..<NPROC] (\<lambda>i. bnd (rd (\<lambda>s. ptable s ! i)) (\<lambda>p.
     whenk (p_parent p = Some cur) (bnd (rd initproc) (\<lambda>init.
       sq (upd (upd_proc i (\<lambda>x. x\<lparr>p_parent := Some init\<rparr>)))
          (whenk (p_state p = ZOMBIE) (upd (wakeup1 (ChProc init))))))))"

text \<open>No process ever sleeps on a null channel, so waking a parent that is null wakes nobody.\<close>

definition exit :: "('x kern_scheme, 'a) kmon" where
  "exit = bnd (rd curproc) (\<lambda>cur. bnd (rd initproc) (\<lambda>init.
     if cur = init then panic ''init exiting''
     else sq exit_files
       (sq begin_op
       (bnd (rd (\<lambda>s. p_cwd (myproc s))) (\<lambda>cwd. sq (case cwd of Some ip \<Rightarrow> iput ip | None \<Rightarrow> panic ''exit: no cwd'')
       (sq end_op
       (sq (upd (upd_myproc (\<lambda>p. p\<lparr>p_cwd := None\<rparr>)))
       (bnd (rd (\<lambda>s. p_parent (myproc s))) (\<lambda>par.
       sq (case par of Some q \<Rightarrow> upd (wakeup1 (ChProc q)) | None \<Rightarrow> ret ())
       (sq (reparent cur)
       (sq (upd (upd_myproc (\<lambda>p. p\<lparr>p_state := ZOMBIE\<rparr>)))
       (sq (sched :: ('x kern_scheme, unit) kmon) (panic ''zombie exit'')))))))))))))"

definition reap :: "proc \<Rightarrow> proc" where
  "reap p = p\<lparr>p_kstack := 0, p_pid := 0, p_parent := None, p_name := (p_name p)[0 := 0], p_killed := False,
     p_state := UNUSED\<rparr>"

definition wait :: "('x kern_scheme, int) kmon" where
  "wait = bnd (rd curproc) (\<lambda>cur. bnd (rd ptable) (\<lambda>pt.
     case find (\<lambda>i. p_parent (pt ! i) = Some cur \<and> p_state (pt ! i) = ZOMBIE) [0..<NPROC] of
       Some i \<Rightarrow> let p = pt ! i in
         sq (kfree (p_kstack p)) (sq (freevm (p_pgdir p)) (sq (upd (upd_proc i reap)) (ret (p_pid p))))
     | None \<Rightarrow>
         if (\<forall>i \<in> set [0..<NPROC]. p_parent (pt ! i) \<noteq> Some cur) \<or> p_killed (pt ! cur) then ret (-1)
         else sleep (ChProc cur)))"

definition kill_proc :: "proc \<Rightarrow> proc" where
  "kill_proc p = p\<lparr>p_killed := True, p_state := (if p_state p = SLEEPING then RUNNABLE else p_state p)\<rparr>"

definition kill :: "int \<Rightarrow> ('x kern_scheme, int) kmon" where
  "kill pid = bnd (rd ptable) (\<lambda>pt. case find (\<lambda>i. p_pid (pt ! i) = pid) [0..<NPROC] of
     Some i \<Rightarrow> sq (upd (upd_proc i kill_proc)) (ret 0)
   | None \<Rightarrow> ret (-1))"

subsection \<open>Lemmas\<close>

text \<open>A concrete state: the first process runs, all other slots are unused.\<close>

definition boot_kern :: kern where
  "boot_kern = (kvm.extend (kfile.extend boot_file (kvm.fields 0 KERNLINK 0)) (kern.fields 0 0 0 [] True 0 0 []))
     \<lparr>ptable := first_proc # replicate (NPROC - 1) zero_proc\<rparr>"

lemma boot_kern_proc: "ptable boot_kern = first_proc # replicate (NPROC - 1) zero_proc" "curproc boot_kern = 0"
  by (simp_all add: boot_kern_def kern.defs kvm.defs boot_file_def boot_fs_def boot_cons_def boot_log_def boot_bio_def kcons.defs kfs.defs kfile.defs
      klog.defs )

lemma allocproc_some:
  assumes "allocproc s = Inr (Some np, t)" "length (ptable s) = NPROC"
  shows "np < NPROC \<and> p_state (ptable s ! np) = UNUSED \<and> nextpid t = nextpid s + 1 \<and> curproc t = curproc s \<and>
     ptable t = (ptable s)[np := (ptable s ! np)\<lparr>p_state := EMBRYO, p_pid := nextpid s, p_kstack := freelist s,
        p_context := freelist s + KSTACKSIZE - TFSIZE - 4 - of_nat CTXSIZE\<rparr>]"
proof -
  have f: "find (\<lambda>i. p_state (ptable s ! i) = UNUSED) [0..<NPROC] = Some np"
    using assms(1) by (auto simp: allocproc_def bnd_Inr sq_Inr Let_def split: option.splits if_splits)
  then have np: "np < NPROC" "p_state (ptable s ! np) = UNUSED" by (auto simp: find_Some_iff)
  with assms f show ?thesis
    by (auto simp: allocproc_def bnd_Inr sq_Inr Let_def upd_proc_def wr32_def kalloc_def whenk_def split: option.splits if_splits)
qed

lemma set_name_fields [simp]:
  "p_state (set_name n p) = p_state p" "p_pid (set_name n p) = p_pid p" "p_parent (set_name n p) = p_parent p"
  "p_sz (set_name n p) = p_sz p" "p_tf (set_name n p) = p_tf p" "p_cwd (set_name n p) = p_cwd p"
  by (simp_all add: set_name_def split: option.splits)

lemma noreturn_switched: "noreturn switched"
  by (simp add: noreturn_def switched_def)

lemma noreturn_sched: "noreturn sched"
  unfolding sched_def by (intro noreturn_bnd noreturn_if noreturn_basic noreturn_switched)

lemma noreturn_exit: "noreturn exit"
  unfolding exit_def by (intro noreturn_bnd noreturn_sq noreturn_if noreturn_basic)

end
