(* ===== verification/Syscall.thy ===== *)
theory Syscall
  imports Proc
begin

text \<open>
  Fetching system call arguments from user memory (\<^verbatim>\<open>kernel/syscall.c\<close>) and the process system calls
  (\<^verbatim>\<open>kernel/sysproc.c\<close>). A failed fetch, -1 in the code, is \<open>None\<close>. \<open>fetchstr\<close> gives the string itself,
  without its NUL, where the code gives a pointer to it; user memory does not change while the call
  runs.
\<close>

definition fetchint :: "u32 \<Rightarrow> ('x kproc_scheme, u32 option) kmon" where
  "fetchint addr = bnd (rd myproc) (\<lambda>p.
     if addr \<ge> p_sz p \<or> addr + 4 > p_sz p then ret None
     else bnd (user_load (p_pgdir p) addr 4) (\<lambda>d. ret (Some (get32 d 0))))"

text \<open>The loop of \<open>fetchstr\<close>; \<open>n\<close> is the distance to \<open>ep\<close>.\<close>

fun fetchstr_loop :: "u32 \<Rightarrow> u32 \<Rightarrow> nat \<Rightarrow> ('x kproc_scheme, bytes option) kmon" where
  "fetchstr_loop pgdir s 0 = ret None"
| "fetchstr_loop pgdir s (Suc n) = bnd (user_byte pgdir s) (\<lambda>c.
     if c = 0 then ret (Some [])
     else bnd (fetchstr_loop pgdir (s + 1) n) (\<lambda>r. ret (map_option ((#) c) r)))"

definition fetchstr :: "u32 \<Rightarrow> ('x kproc_scheme, bytes option) kmon" where
  "fetchstr addr = bnd (rd myproc) (\<lambda>p.
     if addr \<ge> p_sz p then ret None
     else fetchstr_loop (p_pgdir p) addr (unat (p_sz p - addr)))"

definition argint :: "nat \<Rightarrow> ('x kproc_scheme, u32 option) kmon" where
  "argint n = bnd (rd myproc) (\<lambda>p. fetchint (tf_esp (p_tf p) + 4 + 4 * of_nat n))"

definition argptr :: "nat \<Rightarrow> int \<Rightarrow> ('x kproc_scheme, u32 option) kmon" where
  "argptr n sz = bnd (rd myproc) (\<lambda>p. bnd (argint n) (\<lambda>r. case r of
     None \<Rightarrow> ret None
   | Some i \<Rightarrow> if sz < 0 \<or> i \<ge> p_sz p \<or> i + of_int sz > p_sz p then ret None else ret (Some i)))"

definition argstr :: "nat \<Rightarrow> ('x kproc_scheme, bytes option) kmon" where
  "argstr n = bnd (argint n) (\<lambda>r. case r of None \<Rightarrow> ret None | Some addr \<Rightarrow> fetchstr addr)"

text \<open>Going on with the argument, or returning -1.\<close>

definition arg_or_fail :: "('s, 'a option) kmon \<Rightarrow> ('a \<Rightarrow> ('s, int) kmon) \<Rightarrow> ('s, int) kmon" where
  "arg_or_fail m f = bnd m (\<lambda>r. case r of None \<Rightarrow> ret (-1) | Some v \<Rightarrow> f v)"

subsection \<open>Process system calls\<close>

definition sys_fork :: "('x kern_scheme, int) kmon" where
  "sys_fork = fork"

definition sys_exit :: "('x kern_scheme, int) kmon" where
  "sys_exit = exit"

definition sys_wait :: "('x kern_scheme, int) kmon" where
  "sys_wait = wait"

definition sys_kill :: "('x kern_scheme, int) kmon" where
  "sys_kill = arg_or_fail (argint 0) (\<lambda>pid. kill (sint pid))"

definition sys_getpid :: "('x kern_scheme, int) kmon" where
  "sys_getpid = rd (\<lambda>s. p_pid (myproc s))"

definition sys_sbrk :: "('x kern_scheme, int) kmon" where
  "sys_sbrk = arg_or_fail (argint 0) (\<lambda>n. bnd (rd (\<lambda>s. p_sz (myproc s))) (\<lambda>addr.
     bnd (growproc (sint n)) (\<lambda>r. ret (if r < 0 then -1 else sint addr))))"

text \<open>The loop of \<open>sys_sleep\<close>: its check, which runs again after every wakeup.\<close>

definition sleep_loop :: "u32 \<Rightarrow> u32 \<Rightarrow> ('x kern_scheme, int) kmon" where
  "sleep_loop ticks0 n = bnd (rd ticks) (\<lambda>t.
     if t - ticks0 < n
     then bnd (rd (\<lambda>s. p_killed (myproc s))) (\<lambda>k. if k then ret (-1) else sleep ChTicks)
     else ret 0)"

definition sys_sleep :: "('x kern_scheme, int) kmon" where
  "sys_sleep = arg_or_fail (argint 0) (\<lambda>n. bnd (rd ticks) (\<lambda>ticks0. sleep_loop ticks0 n))"

definition sys_uptime :: "('x kern_scheme, int) kmon" where
  "sys_uptime = bnd (rd ticks) (\<lambda>t. ret (sint t))"

subsection \<open>Arguments stay in bounds\<close>

text \<open>A process with one page, its first argument 0x20 and a string there.\<close>

definition user_mem :: memory where
  "user_mem = (store32 (store32 (store32 (\<lambda>_. 0) 0x80400000 0x401007) 0x80401000 0x402007) 0x80402014 0x20)
     (0x80402020 := 0x68, 0x80402021 := 0x69)"

definition user_demo :: kern where
  "user_demo = upd_myproc (\<lambda>p. p\<lparr>p_pgdir := 0x80400000, p_tf := zero_tf\<lparr>tf_esp := 0x10\<rparr>\<rparr>) (boot_kern\<lparr>mem := user_mem\<rparr>)"

lemma user_demo_fields: "mem user_demo = user_mem" "p_sz (myproc user_demo) = 0x1000" "p_pgdir (myproc user_demo) = 0x80400000"
  "tf_esp (p_tf (myproc user_demo)) = 0x10"
  by (simp_all add: user_demo_def upd_myproc_def upd_proc_def myproc_def boot_kern_proc first_proc_def)

lemma user_demo_translate:
  assumes "va AND NOT 0xFFF = 0"
  shows "translate user_mem 0x80400000 va = Some (0x80402000 + va)"
proof -
  have "PDX 0 = 0" "PTX 0 = 0" by (simp_all add: PDX_def PTX_def)
  then have x: "PDX va = 0" "PTX va = 0" using page_index[of va] unfolding assms by simp_all
  have "va AND 0xFFF = va" using mask_parts(2)[of 0 "0xFFF" va] assms by simp
  moreover have "load32 user_mem 0x80400000 = 0x401007" "load32 user_mem 0x80401000 = 0x402007"
    by (simp_all add: user_mem_def load32_def store32_def byte_of_def One_nat_def)
  ultimately show ?thesis using x by (simp add: translate_def Let_def PTE_P_def P2V_def PTE_ADDR_def KERNBASE_def)
qed

lemma user_demo_byte: "va AND NOT 0xFFF = 0 \<Longrightarrow> user_byte 0x80400000 va user_demo = Inr (user_mem (0x80402000 + va), user_demo)"
  by (simp add: user_byte_def user_demo_translate user_demo_fields)

lemma user_demo_args: "argint 0 user_demo = Inr (Some 0x20, user_demo)" "fetchstr 0x20 user_demo = Inr (Some [0x68, 0x69], user_demo)"
proof -
  have m: "user_mem 0x80402014 = 0x20" "user_mem 0x80402015 = 0" "user_mem 0x80402016 = 0" "user_mem 0x80402017 = 0"
    "user_mem 0x80402020 = 0x68" "user_mem 0x80402021 = 0x69" "user_mem 0x80402022 = 0"
    by (simp_all add: user_mem_def store32_def byte_of_def One_nat_def)
  have l: "user_load 0x80400000 0x14 (Suc (Suc (Suc (Suc 0)))) user_demo = Inr ([0x20, 0, 0, 0], user_demo)"
    by (simp add: user_demo_byte m)
  have four: "4 = Suc (Suc (Suc (Suc 0)))" by simp
  show "argint 0 user_demo = Inr (Some 0x20, user_demo)"
   using l unfolding four[symmetric] by (simp add: argint_def fetchint_def user_demo_fields get32_def One_nat_def)
  have f: "fetchstr_loop 0x80400000 0x20 (Suc (Suc (Suc n))) user_demo = Inr (Some [0x68, 0x69], user_demo)" for n
    by (simp add: user_demo_byte m)
  have "unat (0x1000 - 0x20 :: u32) = Suc (Suc (Suc 4061))" by (simp add: One_nat_def)
  then show "fetchstr 0x20 user_demo = Inr (Some [0x68, 0x69], user_demo)" 
   using f[of 4061] by (simp add: fetchstr_def user_demo_fields One_nat_def del: fetchstr_loop.simps)
qed

lemma pure_user_byte [stay_rules]: "stays (\<lambda>s. s) (user_byte pgdir va)"
  unfolding user_byte_def by (intro stay_rules)

lemma pure_user_load [stay_rules]: "stays (\<lambda>s. s) (user_load pgdir va n)"
  by (induction pgdir va n rule: user_load.induct) (subst user_load.simps; intro stay_rules; simp)+

lemma pure_argint [stay_rules]: "stays (\<lambda>s. s) (fetchint addr)" "stays (\<lambda>s. s) (argint n)"
  unfolding argint_def fetchint_def by (intro stay_rules)+

lemma pure_argptr: "stays (\<lambda>s. s) (argptr n sz)"
  unfolding argptr_def by (intro stay_rules)

text \<open>
  C21. Pointer arguments. When \<open>argptr\<close> accepts a block of \<open>size\<close> bytes, the block lies inside the memory of
  the process: the sum of address and size does not wrap, because a process is never larger than
  \<open>KERNBASE\<close>. Nothing changes.
\<close>

theorem argptr_bounds:
  assumes "argptr n sz s = Inr (Some i, s')" "sz < 2 ^ 31" "p_sz (myproc s) \<le> KERNBASE"
  shows "0 \<le> sz \<and> unat i + nat sz \<le> unat (p_sz (myproc s)) \<and> s' = s"
proof -
  have c: "\<not> sz < 0" "i < p_sz (myproc s)" "i + of_int sz \<le> p_sz (myproc s)"
  proof -
    obtain r t where r: "argint n s = Inr (r, t)" using assms(1) by (auto simp: argptr_def bnd_Inr)
    have "r = Some i \<and> \<not> (sz < 0 \<or> i \<ge> p_sz (myproc s) \<or> i + of_int sz > p_sz (myproc s))"
      using assms(1) r unfolding argptr_def by (cases r) (simp_all split: if_split_asm)
    then show "\<not> sz < 0" "i < p_sz (myproc s)" "i + of_int sz \<le> p_sz (myproc s)" by (simp_all add: not_le not_less)
  qed
  have i: "unat i < 2 ^ 31" "unat (p_sz (myproc s)) \<le> 2 ^ 31" 
    using c(2) assms(3) by (simp_all add: word_less_nat_alt word_le_nat_alt unat_KERNBASE)
  have "of_int sz = (of_nat (nat sz) :: u32)" using c(1) by simp
  moreover have "unat i + nat sz < 2 ^ 32" using i assms(2) by simp
  ultimately have "unat (i + of_int sz) = unat i + nat sz" using unat_add32[of i "nat sz"] by simp
  with c stays_return[OF pure_argptr assms(1)] show ?thesis by (simp add: word_le_nat_alt)
qed

theorem argptr_bounds_witness: "argptr 0 8 user_demo = Inr (Some 0x20, user_demo) \<and>
     unat (0x20 :: u32) + nat 8 \<le> unat (p_sz (myproc user_demo))"
proof -
  have "argptr 0 8 user_demo = Inr (Some 0x20, user_demo)"
    by (simp add: argptr_def user_demo_args user_demo_fields One_nat_def)
  with argptr_bounds[OF this] show ?thesis by (simp add: user_demo_fields KERNBASE_def One_nat_def)
qed

lemma fetchstr_loop_spec:
  assumes "fetchstr_loop pgdir a n s = Inr (Some b, s')"
  shows "s' = s \<and> 0 \<notin> set b \<and> length b < n \<and>
    (\<forall>k \<le> length b. \<exists>x. translate (mem s) pgdir (a + of_nat k) = Some x \<and> mem s x = (b @ [0]) ! k)"
  using assms
proof (induction n arbitrary: a b)
  case (Suc n)
  obtain x where x: "translate (mem s) pgdir a = Some x"
    using Suc.prems by (auto simp: user_byte_def bnd_Inr split: option.splits)
  then have u: "user_byte pgdir a s = Inr (mem s x, s)" by (simp add: user_byte_def)
  show ?case
  proof (cases "mem s x = 0")
    case True
    with Suc.prems u x show ?thesis by auto
  next
    case False
    then obtain c where c: "fetchstr_loop pgdir (a + 1) n s = Inr (Some c, s')" "b = mem s x # c"
      using Suc.prems u by (auto simp: bnd_Inr map_option_case split: option.splits)
    have "\<exists>y. translate (mem s) pgdir (a + of_nat k) = Some y \<and> mem s y = (b @ [0]) ! k" if "k \<le> length b" for k
    proof (cases k)
      case 0
      with x c(2) show ?thesis by simp
    next
      case (Suc j)
      with that c(2) have "j \<le> length c" by simp
      with Suc.IH[OF c(1)] Suc c(2) show ?thesis by (simp add: add.assoc)
    qed
    with Suc.IH[OF c(1)] c(2) False show ?thesis by auto
  qed
qed simp

text \<open>
  C22. String arguments. When \<open>fetchstr\<close> accepts a string, all its bytes and its NUL are mapped and lie inside
  the memory of the process, it has no NUL of its own, and nothing changes.
\<close>

theorem fetchstr_spec:
  assumes "fetchstr addr s = Inr (Some b, s')"
  shows "s' = s \<and> 0 \<notin> set b \<and> unat addr + length b < unat (p_sz (myproc s)) \<and>
    (\<forall>k \<le> length b. \<exists>a. translate (mem s) (p_pgdir (myproc s)) (addr + of_nat k) = Some a \<and> mem s a = (b @ [0]) ! k)"
proof -
  have a: "addr < p_sz (myproc s)" and l: "fetchstr_loop (p_pgdir (myproc s)) addr (unat (p_sz (myproc s) - addr)) s = Inr (Some b, s')"
    using assms by (auto simp: fetchstr_def split: if_splits)
  have "unat (p_sz (myproc s) - addr) = unat (p_sz (myproc s)) - unat addr"
    using a by (intro unat_sub) simp
  then show ?thesis using fetchstr_loop_spec[OF l] a by (auto simp: word_less_nat_alt)
qed

theorem fetchstr_spec_witness: "fetchstr 0x20 user_demo = Inr (Some [0x68, 0x69], user_demo) \<and>
     unat (0x20 :: u32) + 2 < unat (p_sz (myproc user_demo))"
  using fetchstr_spec[OF user_demo_args(2)] user_demo_args(2) by (simp del: unat_numeral)

end
