(* ===== verification/Frames.thy ===== *)
theory Frames
  imports Syscall
begin

text \<open>
  Frame conditions over all outcomes: which part of the process table an operation of the lower layers
  (memory, buffers, log, console, inodes, files, page tables, fetching arguments) leaves alone whether
  it returns, panics or sleeps. Three views of the table, each a function of the one before: the table
  itself with the current process (\<open>procs\<close>); the table up to the state and channel of the processes, which
  sleeping and waking change (\<open>core\<close>); the identities of the processes (\<open>ids\<close>).
\<close>

lemma stays_case_device [stay_rules]: "stays f m \<Longrightarrow> stays f (case d of ConsoleDev \<Rightarrow> m)"
  by (cases d) auto

lemma stays_case_fdtype [stay_rules]:
  "stays f m \<Longrightarrow> stays f m' \<Longrightarrow> stays f m'' \<Longrightarrow> stays f (case t of FD_NONE \<Rightarrow> m | FD_PIPE \<Rightarrow> m' | FD_INODE \<Rightarrow> m'')"
  by (cases t) auto

subsection \<open>Views of the process table\<close>

definition procs :: "'x kproc_scheme \<Rightarrow> nat \<times> proc list" where
  "procs s = (curproc s, ptable s)"

definition still :: "proc \<Rightarrow> proc" where
  "still p = p\<lparr>p_state := UNUSED, p_chan := None\<rparr>"

definition core :: "'x kproc_scheme \<Rightarrow> nat \<times> proc list" where
  "core s = (curproc s, map still (ptable s))"

definition id_of :: "proc \<Rightarrow> u32 \<times> u32 \<times> u32 list" where
  "id_of p = (p_uid p, p_euid p, p_gids p)"

definition ids :: "'x kproc_scheme \<Rightarrow> (u32 \<times> u32 \<times> u32 list) list" where
  "ids s = map id_of (ptable s)"

lemma core_procs: "stays procs m \<Longrightarrow> stays core m"
  by (simp add: stays_def procs_def core_def)

lemma ids_still: "ids s = map id_of (snd (core s))"
  by (simp add: ids_def core_def id_of_def still_def)

lemma ids_core: "stays core m \<Longrightarrow> stays ids m"
  by (simp add: stays_def ids_still)

lemma procs_core: "procs t = procs s \<Longrightarrow> core t = core s"
  by (simp add: procs_def core_def)

lemma procs_update [simp]:
  "procs (s\<lparr>mem := v_mem\<rparr>) = procs s" "procs (s\<lparr>freelist := v_freelist\<rparr>) = procs s"
  "procs (s\<lparr>use_lock := v_use_lock\<rparr>) = procs s" "procs (s\<lparr>kend := v_kend\<rparr>) = procs s"
  "procs (s\<lparr>initproc := v_initproc\<rparr>) = procs s" "procs (s\<lparr>nextpid := v_nextpid\<rparr>) = procs s"
  "procs (b\<lparr>bufs := v_bufs\<rparr>) = procs b" "procs (b\<lparr>lru := v_lru\<rparr>) = procs b"
  "procs (b\<lparr>memdisk := v_memdisk\<rparr>) = procs b" "procs (b\<lparr>disksize := v_disksize\<rparr>) = procs b"
  "procs (b\<lparr>dhist := v_dhist\<rparr>) = procs b" "procs (l\<lparr>log := v_log\<rparr>) = procs l"
  "procs (c\<lparr>in_buf := v_in_buf\<rparr>) = procs c" "procs (c\<lparr>in_r := v_in_r\<rparr>) = procs c"
  "procs (c\<lparr>in_w := v_in_w\<rparr>) = procs c" "procs (c\<lparr>in_e := v_in_e\<rparr>) = procs c"
  "procs (c\<lparr>crt := v_crt\<rparr>) = procs c" "procs (c\<lparr>crt_pos := v_crt_pos\<rparr>) = procs c"
  "procs (c\<lparr>uart := v_uart\<rparr>) = procs c" "procs (c\<lparr>uart_out := v_uart_out\<rparr>) = procs c"
  "procs (c\<lparr>echodisabled := v_echodisabled\<rparr>) = procs c" "procs (f\<lparr>sb := v_sb\<rparr>) = procs f"
  "procs (f\<lparr>icache := v_icache\<rparr>) = procs f" "procs (f\<lparr>devsw := v_devsw\<rparr>) = procs f"
  "procs (g\<lparr>ftable := v_ftable\<rparr>) = procs g" "procs (g\<lparr>pipes := v_pipes\<rparr>) = procs g"
  "procs (v\<lparr>kpgdir := v_kpgdir\<rparr>) = procs v" "procs (v\<lparr>kdata := v_kdata\<rparr>) = procs v"
  "procs (v\<lparr>cr3 := v_cr3\<rparr>) = procs v"
  by (simp_all add: procs_def)

lemma core_update [simp]:
  "core (s\<lparr>mem := v_mem\<rparr>) = core s" "core (s\<lparr>freelist := v_freelist\<rparr>) = core s"
  "core (s\<lparr>use_lock := v_use_lock\<rparr>) = core s" "core (s\<lparr>kend := v_kend\<rparr>) = core s"
  "core (s\<lparr>initproc := v_initproc\<rparr>) = core s" "core (s\<lparr>nextpid := v_nextpid\<rparr>) = core s"
  "core (b\<lparr>bufs := v_bufs\<rparr>) = core b" "core (b\<lparr>lru := v_lru\<rparr>) = core b"
  "core (b\<lparr>memdisk := v_memdisk\<rparr>) = core b" "core (b\<lparr>disksize := v_disksize\<rparr>) = core b"
  "core (b\<lparr>dhist := v_dhist\<rparr>) = core b" "core (l\<lparr>log := v_log\<rparr>) = core l"
  "core (c\<lparr>in_buf := v_in_buf\<rparr>) = core c" "core (c\<lparr>in_r := v_in_r\<rparr>) = core c"
  "core (c\<lparr>in_w := v_in_w\<rparr>) = core c" "core (c\<lparr>in_e := v_in_e\<rparr>) = core c"
  "core (c\<lparr>crt := v_crt\<rparr>) = core c" "core (c\<lparr>crt_pos := v_crt_pos\<rparr>) = core c"
  "core (c\<lparr>uart := v_uart\<rparr>) = core c" "core (c\<lparr>uart_out := v_uart_out\<rparr>) = core c"
  "core (c\<lparr>echodisabled := v_echodisabled\<rparr>) = core c" "core (f\<lparr>sb := v_sb\<rparr>) = core f"
  "core (f\<lparr>icache := v_icache\<rparr>) = core f" "core (f\<lparr>devsw := v_devsw\<rparr>) = core f"
  "core (g\<lparr>ftable := v_ftable\<rparr>) = core g" "core (g\<lparr>pipes := v_pipes\<rparr>) = core g"
  "core (v\<lparr>kpgdir := v_kpgdir\<rparr>) = core v" "core (v\<lparr>kdata := v_kdata\<rparr>) = core v"
  "core (v\<lparr>cr3 := v_cr3\<rparr>) = core v"
  by (simp_all add: core_def)

lemma procs_tables [simp]:
  "procs (upd_buf b g s) = procs s" "procs (upd_buf_lock b h s) = procs s" "procs (upd_log j l) = procs l"
  "procs (upd_inode ip i s') = procs s'" "procs (upd_ino_lock ip h s') = procs s'"
  "procs (upd_file f k t) = procs t" "procs (upd_pipe a m t) = procs t"
  by (simp_all add: upd_buf_def upd_buf_lock_def upd_log_def upd_ino_lock_def upd_inode_def upd_file_def upd_pipe_def)

lemmas core_tables [simp] = procs_tables[THEN procs_core]

lemma core_console [simp]: "core (cons_put c s) = core s" "core (snd (cons_get s)) = core s"
  by (simp_all add: cons_put_def cons_get_def Let_def)

lemma still_steps [simp]: "still (wake c p) = still p" "still (sleep_enter c p) = still p"
  by (simp_all add: still_def wake_def sleep_enter_def)

lemma core_wakeup1 [simp]: "core (wakeup1 c s) = core s"
  by (simp add: core_def wakeup1_def)

lemma core_upd_proc [simp]: "(\<And>p. still (g p) = still p) \<Longrightarrow> core (upd_proc i g s) = core s"
  by (cases "i < length (ptable s)")
    (simp_all add: core_def upd_proc_def map_update list_update_same_conv list_update_beyond)

lemma core_upd_myproc [simp]: "(\<And>p. still (g p) = still p) \<Longrightarrow> core (upd_myproc g s) = core s"
  by (simp add: upd_myproc_def)

lemma core_myproc:
  "core t = core s \<Longrightarrow> curproc s < length (ptable s) \<Longrightarrow> curproc t = curproc s \<and> curproc t < length (ptable t)
     \<and> still (myproc t) = still (myproc s)"
  unfolding core_def myproc_def by (metis length_map nth_map prod.inject)

lemma still_ofile: "still p = still q \<Longrightarrow> p_ofile p = p_ofile q"
  by (drule arg_cong[of _ _ p_ofile]) (simp add: still_def)

lemma still_killed: "still p = still q \<Longrightarrow> p_killed p = p_killed q"
  by (drule arg_cong[of _ _ p_killed]) (simp add: still_def)

lemma core_acquiresleep [stay_rules]:
  "(\<And>g s. core (put g s) = core s) \<Longrightarrow> stays core (acquiresleep c get put)"
  unfolding acquiresleep_def sleep_def by (intro stay_rules) simp_all

lemma core_releasesleep [stay_rules]:
  "(\<And>g s. core (put g s) = core s) \<Longrightarrow> stays core (releasesleep c put)"
  unfolding releasesleep_def wakeup_def by (intro stay_rules) simp_all

lemma core_holdingsleep [stay_rules]: "stays core (holdingsleep get)"
  unfolding holdingsleep_def by (intro stay_rules)

subsection \<open>Pages\<close>

lemma procs_kfree [stay_rules]: "stays procs (kfree v)"
  unfolding kfree_def by (intro stay_rules; simp)

lemmas core_kfree [stay_rules] = procs_kfree[THEN core_procs]

lemma procs_kalloc [stay_rules]: "stays procs kalloc"
  unfolding kalloc_def by (intro stay_rules; simp)

lemmas core_kalloc [stay_rules] = procs_kalloc[THEN core_procs]

lemmas ids_kalloc [stay_rules] =
  core_kfree[THEN ids_core] core_kalloc[THEN ids_core]

subsection \<open>Sleeping and waking\<close>

lemma core_wakeup [stay_rules]: "stays core (wakeup c)"
  unfolding wakeup_def by (intro stay_rules; simp)

lemma core_sleep [stay_rules]: "stays core (sleep c)"
  unfolding sleep_def by (intro stay_rules; simp)

lemmas ids_ptable [stay_rules] =
  core_wakeup[THEN ids_core] core_sleep[THEN ids_core]

subsection \<open>The buffer cache\<close>

lemma core_binit [stay_rules]: "stays core binit"
  unfolding binit_def by (intro stay_rules; simp)

lemma core_iderw [stay_rules]: "stays core (iderw i)"
  unfolding iderw_def by (intro stay_rules; simp)

lemma core_bget [stay_rules]: "stays core (bget dev blockno)"
  unfolding bget_def by (intro stay_rules; simp)

lemma core_bread [stay_rules]: "stays core (bread dev blockno)"
  unfolding bread_def by (intro stay_rules; simp)

lemma core_bwrite [stay_rules]: "stays core (bwrite i)"
  unfolding bwrite_def by (intro stay_rules; simp)

lemma core_brelse [stay_rules]: "stays core (brelse i)"
  unfolding brelse_def by (intro stay_rules; simp)

lemma core_bdata [stay_rules]: "stays core (bdata i)"
  unfolding bdata_def by (intro stay_rules; simp)

lemma core_bset [stay_rules]: "stays core (bset i d)"
  unfolding bset_def by (intro stay_rules; simp)

lemmas ids_bio [stay_rules] =
  core_binit[THEN ids_core] core_iderw[THEN ids_core] core_bget[THEN ids_core] core_bread[THEN ids_core]
  core_bwrite[THEN ids_core] core_brelse[THEN ids_core] core_bdata[THEN ids_core] core_bset[THEN ids_core]

subsection \<open>The log\<close>

lemma core_readsb [stay_rules]: "stays core (readsb dev)"
  unfolding readsb_def by (intro stay_rules; simp)

lemma core_install_block [stay_rules]: "stays core (install_block tail)"
  unfolding install_block_def by (intro stay_rules; simp)

lemma core_install_trans [stay_rules]: "stays core install_trans"
  unfolding install_trans_def by (intro stay_rules; simp)

lemma core_read_head [stay_rules]: "stays core read_head"
  unfolding read_head_def by (intro stay_rules; simp)

lemma core_write_head [stay_rules]: "stays core write_head"
  unfolding write_head_def by (intro stay_rules; simp)

lemma core_recover_from_log [stay_rules]: "stays core recover_from_log"
  unfolding recover_from_log_def by (intro stay_rules; simp)

lemma core_initlog [stay_rules]: "stays core (initlog dev)"
  unfolding initlog_def by (intro stay_rules; simp)

lemma core_begin_op [stay_rules]: "stays core begin_op"
  unfolding begin_op_def by (intro stay_rules; simp)

lemma core_write_log_block [stay_rules]: "stays core (write_log_block tail)"
  unfolding write_log_block_def by (intro stay_rules; simp)

lemma core_write_log [stay_rules]: "stays core write_log"
  unfolding write_log_def by (intro stay_rules; simp)

lemma core_commit [stay_rules]: "stays core commit"
  unfolding commit_def by (intro stay_rules; simp)

lemma core_end_op [stay_rules]: "stays core end_op"
  unfolding end_op_def by (intro stay_rules; simp)

lemma core_log_write [stay_rules]: "stays core (log_write b)"
  unfolding log_write_def by (intro stay_rules; simp)

lemmas ids_log [stay_rules] =
  core_readsb[THEN ids_core] core_install_block[THEN ids_core] core_install_trans[THEN ids_core]
  core_read_head[THEN ids_core] core_write_head[THEN ids_core] core_recover_from_log[THEN ids_core]
  core_initlog[THEN ids_core] core_begin_op[THEN ids_core] core_write_log_block[THEN ids_core]
  core_write_log[THEN ids_core] core_commit[THEN ids_core] core_end_op[THEN ids_core]
  core_log_write[THEN ids_core]

subsection \<open>The console\<close>

lemma core_uartputc [stay_rules]: "stays core (uartputc c)"
  unfolding uartputc_def by (intro stay_rules; simp)

lemma core_cgaputc [stay_rules]: "stays core (cgaputc c)"
  unfolding cgaputc_def by (intro stay_rules; simp)

lemma core_consputc [stay_rules]: "stays core (consputc c)"
  unfolding consputc_def by (intro stay_rules; simp)

lemma core_cprintf [stay_rules]: "stays core (cprintf fmt args)"
  unfolding cprintf_def by (intro stay_rules; simp)

lemma core_procdump [stay_rules]: "stays core procdump"
  unfolding procdump_def by (intro stay_rules; simp)

lemma core_kill_line [stay_rules]: "stays core (kill_line n)"
  by (induction n rule: kill_line.induct) (subst kill_line.simps; intro stay_rules; simp)+

lemma core_console_char [stay_rules]: "stays core (console_char c)"
  unfolding console_char_def by (intro stay_rules; simp)

lemma core_console_chars [stay_rules]: "stays core (console_chars cs dp)"
  by (induction cs dp rule: console_chars.induct) (subst console_chars.simps; intro stay_rules; simp)+

lemma core_consoleintr [stay_rules]: "stays core (consoleintr cs)"
  unfolding consoleintr_def by (intro stay_rules; simp)

lemmas ids_console [stay_rules] =
  core_uartputc[THEN ids_core] core_cgaputc[THEN ids_core] core_consputc[THEN ids_core]
  core_cprintf[THEN ids_core] core_procdump[THEN ids_core] core_kill_line[THEN ids_core]
  core_console_char[THEN ids_core] core_console_chars[THEN ids_core] core_consoleintr[THEN ids_core]

subsection \<open>Blocks and inodes\<close>

lemma core_bzero [stay_rules]: "stays core (bzero dev bno)"
  unfolding bzero_def by (intro stay_rules; simp)

lemma core_balloc_in [stay_rules]: "stays core (balloc_in dev super b)"
  unfolding balloc_in_def by (intro stay_rules; simp)

lemma core_balloc [stay_rules]: "stays core (balloc dev)"
  unfolding balloc_def by (intro stay_rules; simp)

lemma core_bfree [stay_rules]: "stays core (bfree dev b)"
  unfolding bfree_def by (intro stay_rules; simp)

lemma core_iget [stay_rules]: "stays core (iget dev inum)"
  unfolding iget_def by (intro stay_rules; simp)

lemma core_iinit [stay_rules]: "stays core (iinit dev)"
  unfolding iinit_def by (intro stay_rules; simp)

lemma core_ialloc_at [stay_rules]: "stays core (ialloc_at dev super type uid mode inum)"
  unfolding ialloc_at_def by (intro stay_rules; simp)

lemma core_ialloc [stay_rules]: "stays core (ialloc dev type uid mode)"
  unfolding ialloc_def by (intro stay_rules; simp)

lemma core_iupdate [stay_rules]: "stays core (iupdate ip)"
  unfolding iupdate_def by (intro stay_rules; simp)

lemma procs_idup [stay_rules]: "stays procs (idup ip)"
  unfolding idup_def by (intro stay_rules; simp)

lemmas core_idup [stay_rules] = procs_idup[THEN core_procs]

lemma core_ilock [stay_rules]: "stays core (ilock ip)"
  unfolding ilock_def by (intro stay_rules; simp)

lemma core_iunlock [stay_rules]: "stays core (iunlock ip)"
  unfolding iunlock_def by (intro stay_rules; simp)

lemma core_trunc_direct [stay_rules]: "stays core (trunc_direct ip)"
  unfolding trunc_direct_def by (intro stay_rules; simp)

lemma core_trunc_indirect [stay_rules]: "stays core (trunc_indirect ip)"
  unfolding trunc_indirect_def by (intro stay_rules; simp)

lemma core_itrunc [stay_rules]: "stays core (itrunc ip)"
  unfolding itrunc_def by (intro stay_rules; simp)

lemma core_iput [stay_rules]: "stays core (iput ip)"
  unfolding iput_def by (intro stay_rules; simp)

lemma core_iunlockput [stay_rules]: "stays core (iunlockput ip)"
  unfolding iunlockput_def by (intro stay_rules; simp)

lemma core_bmap [stay_rules]: "stays core (bmap ip bn)"
  unfolding bmap_def by (intro stay_rules; simp)

lemmas ids_inode [stay_rules] =
  core_bzero[THEN ids_core] core_balloc_in[THEN ids_core] core_balloc[THEN ids_core] core_bfree[THEN ids_core]
  core_iget[THEN ids_core] core_iinit[THEN ids_core] core_ialloc_at[THEN ids_core] core_ialloc[THEN ids_core]
  core_iupdate[THEN ids_core] core_idup[THEN ids_core] core_ilock[THEN ids_core] core_iunlock[THEN ids_core]
  core_trunc_direct[THEN ids_core] core_trunc_indirect[THEN ids_core] core_itrunc[THEN ids_core]
  core_iput[THEN ids_core] core_iunlockput[THEN ids_core] core_bmap[THEN ids_core]

subsection \<open>File contents and paths\<close>

lemma core_consoleread_loop [stay_rules]: "stays core (consoleread_loop n target acc)"
  by (induction n target acc rule: consoleread_loop.induct) (subst consoleread_loop.simps; intro stay_rules; simp)+

lemma core_consoleread [stay_rules]: "stays core (consoleread ip n)"
  unfolding consoleread_def by (intro stay_rules; simp)

lemma core_consolewrite [stay_rules]: "stays core (consolewrite ip src)"
  unfolding consolewrite_def by (intro stay_rules; simp)

lemma core_consoleinit [stay_rules]: "stays core consoleinit"
  unfolding consoleinit_def by (intro stay_rules; simp)

lemma core_readi_loop [stay_rules]: "stays core (readi_loop ip off n)"
  by (induction ip off n rule: readi_loop.induct) (subst readi_loop.simps; intro stay_rules; simp)+

lemma core_readi [stay_rules]: "stays core (readi ip off n)"
  unfolding readi_def by (intro stay_rules; simp)

lemma core_writei_loop [stay_rules]: "stays core (writei_loop ip off d)"
  by (induction ip off d rule: writei_loop.induct) (subst writei_loop.simps; intro stay_rules; simp)+

lemma core_writei [stay_rules]: "stays core (writei ip src off)"
  unfolding writei_def by (intro stay_rules; simp)

lemma core_read_dirent [stay_rules]: "stays core (read_dirent dp off msg)"
  unfolding read_dirent_def by (intro stay_rules; simp)

lemma core_dirlookup [stay_rules]: "stays core (dirlookup dp name)"
  unfolding dirlookup_def by (intro stay_rules; simp)

lemma core_dirlink [stay_rules]: "stays core (dirlink dp name inum)"
  unfolding dirlink_def by (intro stay_rules; simp)

lemma core_namex_loop [stay_rules]: "stays (core :: 'x kfs_scheme \<Rightarrow> _) (namex_loop ip path name par)"
proof (induction "length path" arbitrary: ip path name rule: less_induct)
  case less
  have ih: "stays (core :: 'x kfs_scheme \<Rightarrow> _) (namex_loop nx path' name' par)"
    if "skipelem path name = Some (path', name')" for nx path' name'
    using skipelem_shorter[OF that] by (rule less)
  show ?case by (subst namex_loop.simps, intro stay_rules; simp add: ih)
qed

lemma core_namex [stay_rules]: "stays core (namex path par name)"
  unfolding namex_def by (intro stay_rules; simp)

lemma core_namei [stay_rules]: "stays core (namei path)"
  unfolding namei_def by (intro stay_rules; simp)

lemma core_nameiparent [stay_rules]: "stays core (nameiparent path name)"
  unfolding nameiparent_def by (intro stay_rules; simp)

lemmas ids_fs [stay_rules] =
  core_consoleread_loop[THEN ids_core] core_consoleread[THEN ids_core] core_consolewrite[THEN ids_core]
  core_consoleinit[THEN ids_core] core_readi_loop[THEN ids_core] core_readi[THEN ids_core]
  core_writei_loop[THEN ids_core] core_writei[THEN ids_core] core_read_dirent[THEN ids_core]
  core_dirlookup[THEN ids_core] core_dirlink[THEN ids_core] core_namex_loop[THEN ids_core]
  core_namex[THEN ids_core] core_namei[THEN ids_core] core_nameiparent[THEN ids_core]

subsection \<open>Files and pipes\<close>

lemma core_pipeclose [stay_rules]: "stays core (pipeclose p writable)"
  unfolding pipeclose_def by (intro stay_rules; simp)

lemma core_pipewrite_loop [stay_rules]: "stays core (pipewrite_loop p cs)"
  by (induction p cs rule: pipewrite_loop.induct) (subst pipewrite_loop.simps; intro stay_rules; simp)+

lemma core_pipewrite [stay_rules]: "stays core (pipewrite p src)"
  unfolding pipewrite_def by (intro stay_rules; simp)

lemma core_piperead_loop [stay_rules]: "stays core (piperead_loop p n)"
  by (induction p n rule: piperead_loop.induct) (subst piperead_loop.simps; intro stay_rules; simp)+

lemma core_piperead [stay_rules]: "stays core (piperead p n)"
  unfolding piperead_def by (intro stay_rules; simp)

lemma core_filealloc [stay_rules]: "stays core filealloc"
  unfolding filealloc_def by (intro stay_rules; simp)

lemma procs_filedup [stay_rules]: "stays procs (filedup f)"
  unfolding filedup_def by (intro stay_rules; simp)

lemmas core_filedup [stay_rules] = procs_filedup[THEN core_procs]

lemma core_fileclose [stay_rules]: "stays core (fileclose f)"
  unfolding fileclose_def by (intro stay_rules; simp)

lemma core_filestat [stay_rules]: "stays core (filestat f)"
  unfolding filestat_def by (intro stay_rules; simp)

lemma core_fileread [stay_rules]: "stays core (fileread f n)"
  unfolding fileread_def by (intro stay_rules; simp)

lemma core_filewrite_loop [stay_rules]: "stays core (filewrite_loop f d)"
  by (induction f d rule: filewrite_loop.induct) (subst filewrite_loop.simps; intro stay_rules; simp)+

lemma core_filewrite [stay_rules]: "stays core (filewrite f src)"
  unfolding filewrite_def by (intro stay_rules; simp)

lemma core_pipealloc [stay_rules]: "stays core pipealloc"
  unfolding pipealloc_def by (intro stay_rules; simp)

lemmas ids_file [stay_rules] =
  core_pipeclose[THEN ids_core] core_pipewrite_loop[THEN ids_core] core_pipewrite[THEN ids_core]
  core_piperead_loop[THEN ids_core] core_piperead[THEN ids_core] core_filealloc[THEN ids_core]
  core_filedup[THEN ids_core] core_fileclose[THEN ids_core] core_filestat[THEN ids_core]
  core_fileread[THEN ids_core] core_filewrite_loop[THEN ids_core] core_filewrite[THEN ids_core]
  core_pipealloc[THEN ids_core]

subsection \<open>Virtual memory\<close>

lemma procs_rd32 [stay_rules]: "stays procs (rd32 a)"
  unfolding rd32_def by (intro stay_rules; simp)

lemmas core_rd32 [stay_rules] = procs_rd32[THEN core_procs]

lemma procs_wr32 [stay_rules]: "stays procs (wr32 a v)"
  unfolding wr32_def by (intro stay_rules; simp)

lemmas core_wr32 [stay_rules] = procs_wr32[THEN core_procs]

lemma procs_zero_page [stay_rules]: "stays procs (zero_page a)"
  unfolding zero_page_def by (intro stay_rules; simp)

lemmas core_zero_page [stay_rules] = procs_zero_page[THEN core_procs]

lemma procs_walkpgdir [stay_rules]: "stays procs (walkpgdir pgdir va alloc)"
  unfolding walkpgdir_def by (intro stay_rules; simp)

lemmas core_walkpgdir [stay_rules] = procs_walkpgdir[THEN core_procs]

lemma procs_mappages [stay_rules]: "stays procs (mappages pgdir va sz pa perm)"
  unfolding mappages_def by (intro stay_rules; simp)

lemmas core_mappages [stay_rules] = procs_mappages[THEN core_procs]

lemma procs_dealloc_loop [stay_rules]: "stays procs (dealloc_loop k pgdir a oldsz)"
  by (induction k pgdir a oldsz rule: dealloc_loop.induct) (subst dealloc_loop.simps; intro stay_rules; simp)+

lemmas core_dealloc_loop [stay_rules] = procs_dealloc_loop[THEN core_procs]

lemma procs_deallocuvm [stay_rules]: "stays procs (deallocuvm pgdir oldsz newsz)"
  unfolding deallocuvm_def by (intro stay_rules; simp)

lemmas core_deallocuvm [stay_rules] = procs_deallocuvm[THEN core_procs]

lemma procs_freevm [stay_rules]: "stays procs (freevm pgdir)"
  unfolding freevm_def by (intro stay_rules; simp)

lemmas core_freevm [stay_rules] = procs_freevm[THEN core_procs]

lemma procs_setupkvm [stay_rules]: "stays procs setupkvm"
  unfolding setupkvm_def by (intro stay_rules; simp)

lemmas core_setupkvm [stay_rules] = procs_setupkvm[THEN core_procs]

lemma core_switchkvm [stay_rules]: "stays core switchkvm"
  unfolding switchkvm_def by (intro stay_rules; simp)

lemma core_kvmalloc [stay_rules]: "stays core kvmalloc"
  unfolding kvmalloc_def by (intro stay_rules; simp)

lemma core_switchuvm [stay_rules]: "stays core (switchuvm p)"
  unfolding switchuvm_def by (intro stay_rules; simp)

lemma core_inituvm [stay_rules]: "stays core (inituvm pgdir init)"
  unfolding inituvm_def by (intro stay_rules; simp)

lemma core_loaduvm [stay_rules]: "stays core (loaduvm pgdir addr ip offset sz)"
  unfolding loaduvm_def by (intro stay_rules; simp)

lemma core_allocuvm [stay_rules]: "stays core (allocuvm pgdir oldsz newsz)"
  unfolding allocuvm_def by (intro stay_rules; simp)

lemma core_clearpteu [stay_rules]: "stays core (clearpteu pgdir uva)"
  unfolding clearpteu_def by (intro stay_rules; simp)

lemma procs_copyuvm [stay_rules]: "stays procs (copyuvm pgdir sz)"
  unfolding copyuvm_def by (intro stay_rules; simp)

lemmas core_copyuvm [stay_rules] = procs_copyuvm[THEN core_procs]

lemma core_uva2ka [stay_rules]: "stays core (uva2ka pgdir uva)"
  unfolding uva2ka_def by (intro stay_rules; simp)

lemma core_copyout [stay_rules]: "stays core (copyout pgdir va p)"
proof (induction pgdir va p rule: copyout.induct)
  case (1 pgdir va p)
  show ?case by (subst copyout.simps, intro stay_rules; simp add: 1)
qed

lemma core_user_byte [stay_rules]: "stays core (user_byte pgdir va)"
  unfolding user_byte_def by (intro stay_rules; simp)

lemma core_user_load [stay_rules]: "stays core (user_load pgdir va n)"
  by (induction pgdir va n rule: user_load.induct) (subst user_load.simps; intro stay_rules; simp)+

lemma core_user_store [stay_rules]: "stays core (user_store pgdir va bs)"
  by (induction pgdir va bs rule: user_store.induct) (subst user_store.simps; intro stay_rules; simp)+

lemmas ids_vm [stay_rules] =
  core_rd32[THEN ids_core] core_wr32[THEN ids_core] core_zero_page[THEN ids_core] core_walkpgdir[THEN ids_core]
  core_mappages[THEN ids_core] core_dealloc_loop[THEN ids_core] core_deallocuvm[THEN ids_core]
  core_freevm[THEN ids_core] core_setupkvm[THEN ids_core] core_switchkvm[THEN ids_core]
  core_kvmalloc[THEN ids_core] core_switchuvm[THEN ids_core] core_inituvm[THEN ids_core]
  core_loaduvm[THEN ids_core] core_allocuvm[THEN ids_core] core_clearpteu[THEN ids_core]
  core_copyuvm[THEN ids_core] core_uva2ka[THEN ids_core] core_copyout[THEN ids_core]
  core_user_byte[THEN ids_core] core_user_load[THEN ids_core] core_user_store[THEN ids_core]

subsection \<open>Fetching arguments\<close>

lemma core_fetchint [stay_rules]: "stays core (fetchint addr)"
  unfolding fetchint_def by (intro stay_rules; simp)

lemma core_fetchstr_loop [stay_rules]: "stays core (fetchstr_loop pgdir a n)"
  by (induction pgdir a n rule: fetchstr_loop.induct) (subst fetchstr_loop.simps; intro stay_rules; simp)+

lemma core_fetchstr [stay_rules]: "stays core (fetchstr addr)"
  unfolding fetchstr_def by (intro stay_rules; simp)

lemma core_argint [stay_rules]: "stays core (argint n)"
  unfolding argint_def by (intro stay_rules; simp)

lemma core_argptr [stay_rules]: "stays core (argptr n sz)"
  unfolding argptr_def by (intro stay_rules; simp)

lemma core_argstr [stay_rules]: "stays core (argstr n)"
  unfolding argstr_def by (intro stay_rules; simp)

lemmas ids_syscall [stay_rules] =
  core_fetchint[THEN ids_core] core_fetchstr_loop[THEN ids_core] core_fetchstr[THEN ids_core]
  core_argint[THEN ids_core] core_argptr[THEN ids_core] core_argstr[THEN ids_core]

subsection \<open>The size of a process\<close>

lemma allocuvm_size: "allocuvm pgdir old new s = Inr (r, t) \<Longrightarrow> old < KERNBASE \<Longrightarrow> r < KERNBASE"
  by (auto simp: allocuvm_def bnd_Inr Let_def word_less_nat_alt word_le_nat_alt unat_KERNBASE split: if_splits)

lemma deallocuvm_size: "deallocuvm pgdir old new s = Inr (r, t) \<Longrightarrow> old < KERNBASE \<Longrightarrow> r < KERNBASE"
  by (auto simp: deallocuvm_def sq_Inr split: if_splits)



end
