(* ===== verification/Exec.thy ===== *)
theory Exec
  imports Syscall
begin

text \<open>
  \<open>exec\<close> and \<open>int_to_bin_digit\<close> (\<^verbatim>\<open>kernel/exec.c\<close>, \<^verbatim>\<open>kernel/elf.h\<close>). The path and the arguments are byte
  strings without their NUL. The label \<open>bad\<close> is \<open>exec_bad\<close>.
\<close>

fun bin_digits :: "u32 \<Rightarrow> u32 \<Rightarrow> nat \<Rightarrow> nat list" where
  "bin_digits msk v 0 = []"
| "bin_digits msk v (Suc n) = (if v AND msk \<noteq> 0 then 1 else 0) # bin_digits msk (push_bit 1 v) n"

definition int_to_bin_digit :: "u32 \<Rightarrow> nat \<Rightarrow> nat list" where
  "int_to_bin_digit v count = bin_digits (push_bit (count - 1) 1) v count"

definition MAXARG :: nat where "MAXARG = 32"
definition ELF_MAGIC :: u32 where "ELF_MAGIC = 0x464C457F"
definition ELF_PROG_LOAD :: u32 where "ELF_PROG_LOAD = 1"
definition ELFHDR :: nat where "ELFHDR = 52"
definition PROGHDR :: nat where "PROGHDR = 32"

record elfhdr =
  e_magic :: u32
  e_entry :: u32
  e_phoff :: u32
  e_phnum :: u16

record proghdr =
  ph_type :: u32
  ph_off :: u32
  ph_vaddr :: u32
  ph_filesz :: u32
  ph_memsz :: u32

definition elfhdr_of :: "bytes \<Rightarrow> elfhdr" where
  "elfhdr_of d = \<lparr>e_magic = get32 d 0, e_entry = get32 d 24, e_phoff = get32 d 28, e_phnum = get16 d 44\<rparr>"

definition proghdr_of :: "bytes \<Rightarrow> proghdr" where
  "proghdr_of d = \<lparr>ph_type = get32 d 0, ph_off = get32 d 4, ph_vaddr = get32 d 8, ph_filesz = get32 d 16,
     ph_memsz = get32 d 20\<rparr>"

text \<open>\<open>readi(ip, &x, off, sizeof(x)) != sizeof(x)\<close> is \<open>None\<close>.\<close>

definition read_exact :: "nat \<Rightarrow> u32 \<Rightarrow> nat \<Rightarrow> ('x kfs_scheme, bytes option) kmon" where
  "read_exact ip off n = bnd (readi ip off (of_nat n)) (\<lambda>r. case r of
     None \<Rightarrow> ret None | Some d \<Rightarrow> ret (if length d = n then Some d else None))"

definition exec_bad :: "u32 \<Rightarrow> nat option \<Rightarrow> ('x kern_scheme, int) kmon" where
  "exec_bad pgdir ip = sq (whenk (pgdir \<noteq> 0) (freevm pgdir))
     (sq (case ip of Some ip \<Rightarrow> sq (iunlockput ip) end_op | None \<Rightarrow> ret ()) (ret (-1)))"

text \<open>One program header; \<open>None\<close> is \<open>goto bad\<close>.\<close>

definition exec_segment :: "nat \<Rightarrow> u32 \<Rightarrow> u32 \<Rightarrow> u32 \<Rightarrow> ('x kern_scheme, u32 option) kmon" where
  "exec_segment ip pgdir sz off = bnd (read_exact ip off PROGHDR) (\<lambda>r. case r of
     None \<Rightarrow> ret None
   | Some d \<Rightarrow> let ph = proghdr_of d in
       if ph_type ph \<noteq> ELF_PROG_LOAD then ret (Some sz)
       else if ph_memsz ph < ph_filesz ph then ret None
       else if ph_vaddr ph + ph_memsz ph < ph_vaddr ph then ret None
       else bnd (allocuvm pgdir sz (ph_vaddr ph + ph_memsz ph)) (\<lambda>sz.
         if sz = 0 then ret None
         else if unat (ph_vaddr ph) mod PGSIZE \<noteq> 0 then ret None
         else bnd (loaduvm pgdir (ph_vaddr ph) ip (ph_off ph) (ph_filesz ph)) (\<lambda>ok.
           ret (if ok then Some sz else None))))"

fun exec_load :: "nat \<Rightarrow> u32 \<Rightarrow> u32 \<Rightarrow> u32 \<Rightarrow> nat \<Rightarrow> ('x kern_scheme, u32 option) kmon" where
  "exec_load ip pgdir sz off 0 = ret (Some sz)"
| "exec_load ip pgdir sz off (Suc n) = bnd (exec_segment ip pgdir sz off) (\<lambda>r. case r of
     None \<Rightarrow> ret None
   | Some sz \<Rightarrow> exec_load ip pgdir sz (off + of_nat PROGHDR) n)"

text \<open>The argument strings; \<open>us\<close> are the pointers already pushed.\<close>

fun exec_push :: "u32 \<Rightarrow> u32 \<Rightarrow> u32 list \<Rightarrow> bytes list \<Rightarrow> ('x kern_scheme, (u32 \<times> u32 list) option) kmon" where
  "exec_push pgdir sp us [] = ret (Some (sp, us))"
| "exec_push pgdir sp us (a # as) =
     (if length us \<ge> MAXARG then ret None
      else let sp = (sp - of_nat (length a + 1)) AND NOT 3 in
        bnd (copyout pgdir sp (a @ [0])) (\<lambda>ok. if ok then exec_push pgdir sp (us @ [sp]) as else ret None))"

definition word_bytes :: "u32 \<Rightarrow> bytes" where
  "word_bytes v = [byte_of 0 v, byte_of 8 v, byte_of 16 v, byte_of 24 v]"

definition ustack_of :: "u32 \<Rightarrow> u32 list \<Rightarrow> u32 list" where
  "ustack_of sp us = [0xffffffff, of_nat (length us), sp - of_nat ((length us + 1) * 4)] @ us @ [0]"

text \<open>The part of the path behind its last slash.\<close>

definition last_elem :: "bytes \<Rightarrow> bytes" where
  "last_elem path = rev (takeWhile ((\<noteq>) slash) (rev path))"

definition exec_commit :: "bytes \<Rightarrow> u32 \<Rightarrow> u32 \<Rightarrow> u32 \<Rightarrow> u32 \<Rightarrow> ('x kern_scheme, int) kmon" where
  "exec_commit path pgdir sz entry sp = bnd (rd (\<lambda>s. p_pgdir (myproc s))) (\<lambda>oldpgdir.
     sq (upd (upd_myproc (\<lambda>p. (set_name (last_elem path @ [0]) p)\<lparr>p_pgdir := pgdir, p_sz := sz,
           p_tf := (p_tf p)\<lparr>tf_eip := entry, tf_esp := sp\<rparr>\<rparr>)))
     (bnd (rd myproc) (\<lambda>p. sq (switchuvm p) (sq (freevm oldpgdir) (ret 0)))))"

text \<open>The stack and the arguments, after the program has been loaded and the inode let go.\<close>

definition exec_stack :: "bytes \<Rightarrow> bytes list \<Rightarrow> u32 \<Rightarrow> u32 \<Rightarrow> u32 \<Rightarrow> ('x kern_scheme, int) kmon" where
  "exec_stack path argv pgdir sz entry = (let sz = PGROUNDUP sz in
     bnd (allocuvm pgdir sz (sz + 2 * of_nat PGSIZE)) (\<lambda>sz.
       if sz = 0 then exec_bad pgdir None
       else sq (clearpteu pgdir (sz - 2 * of_nat PGSIZE))
         (bnd (exec_push pgdir sz [] argv) (\<lambda>r. case r of
            None \<Rightarrow> exec_bad pgdir None
          | Some (sp, us) \<Rightarrow> let st = ustack_of sp us; sp = sp - of_nat ((3 + length us + 1) * 4) in
              bnd (copyout pgdir sp (concat (map word_bytes st))) (\<lambda>ok.
                if ok then exec_commit path pgdir sz entry sp else exec_bad pgdir None)))))"

definition exec :: "bytes \<Rightarrow> bytes list \<Rightarrow> ('x kern_scheme, int) kmon" where
  "exec path argv = sq begin_op (bnd (namei path) (\<lambda>r. case r of
     None \<Rightarrow> sq end_op (sq (cprintf (str ''exec: fail'' @ [10]) []) (ret (-1)))
   | Some ip \<Rightarrow> sq (ilock ip) (bnd (read_exact ip 0 ELFHDR) (\<lambda>h. case h of
       None \<Rightarrow> exec_bad 0 (Some ip)
     | Some d \<Rightarrow> let elf = elfhdr_of d in
         if e_magic elf \<noteq> ELF_MAGIC then exec_bad 0 (Some ip)
         else bnd setupkvm (\<lambda>pgdir.
           if pgdir = 0 then exec_bad 0 (Some ip)
           else bnd (exec_load ip pgdir 0 (e_phoff elf) (unat (e_phnum elf))) (\<lambda>r. case r of
             None \<Rightarrow> exec_bad pgdir (Some ip)
           | Some sz \<Rightarrow> sq (iunlockput ip) (sq end_op (exec_stack path argv pgdir sz (e_entry elf)))))))))"

subsection \<open>Binary digits\<close>

lemma bin_digits_bits:
  "n \<le> Suc m \<Longrightarrow> m < 32 \<Longrightarrow> bin_digits (push_bit m 1) v n = map (\<lambda>i. if bit v (m - i) then 1 else 0) [0..<n]"
proof (induction n arbitrary: v)
  case (Suc n)
  have "bin_digits (push_bit m 1) v (Suc n)
      = (if bit v m then 1 else 0) # map (\<lambda>i. if bit (push_bit 1 v) (m - i) then 1 else 0) [0..<n]"
    using Suc by (simp add: and_exp_eq_0_iff_not_bit)
  also have "map (\<lambda>i. if bit (push_bit 1 v) (m - i) then 1 else 0) [0..<n]
      = map (\<lambda>i. if bit v (m - Suc i) then 1 else 0 :: nat) [0..<n]"
  proof (intro map_cong)
    fix i assume "i \<in> set [0..<n]"
    then show "(if bit (push_bit 1 v) (m - i) then 1 else 0) = (if bit v (m - Suc i) then 1 else 0 :: nat)"
      using Suc.prems unfolding bit_push_bit_iff by (auto simp: possible_bit_word One_nat_def)
  qed simp
  also have "(if bit v m then 1 else 0) # \<dots> = map (\<lambda>i. if bit v (m - i) then 1 else 0) [0..<Suc n]"
    unfolding upt_conv_Cons[OF zero_less_Suc] by (simp add: map_Suc_upt[symmetric] del: upt_Suc)
  finally show ?case .
qed simp

text \<open>
  \<open>int_to_bin_digit\<close> writes the lowest \<open>count\<close> bits of the value, the most significant first.
\<close>

theorem digits_are_bits:
  assumes "0 < count" "count \<le> 32"
  shows "int_to_bin_digit v count = map (\<lambda>i. if bit v (count - 1 - i) then 1 else 0) [0..<count]"
  unfolding int_to_bin_digit_def using assms by (intro bin_digits_bits) auto

theorem digits_are_bits_witness: "int_to_bin_digit 0x1a4 10 = [0, 1, 1, 0, 1, 0, 0, 1, 0, 0]"
  using digits_are_bits[of 10 "0x1a4"] by (simp add: upt_rec bit_numeral_rec One_nat_def)

end
