(* ===== verification/Sysfile.thy ===== *)
theory Sysfile
  imports Exec
begin

text \<open>
  The file system calls and those for users, groups and permissions, \<^verbatim>\<open>kernel/sysfile.c\<close>. The bytes
  that \<open>sys_write\<close> passes on are read from user memory at the start of the call, those of \<open>sys_read\<close>
  are stored at its end. A read through a pointer that was never set, or outside an array of the
  kernel, is undefined in C; where it can happen the model says what is known, or stops with a panic.
\<close>

subsection \<open>Descriptors\<close>

definition argfd :: "nat \<Rightarrow> ('x kproc_scheme, (nat \<times> nat) option) kmon" where
  "argfd n = bnd (argint n) (\<lambda>r. case r of
     None \<Rightarrow> ret None
   | Some fd \<Rightarrow> bnd (rd (\<lambda>s. p_ofile (myproc s))) (\<lambda>fds.
       if sint fd < 0 \<or> sint fd \<ge> int NOFILE then ret None
       else case fds ! nat (sint fd) of None \<Rightarrow> ret None | Some f \<Rightarrow> ret (Some (nat (sint fd), f))))"

definition fdalloc :: "nat \<Rightarrow> ('x kproc_scheme, nat option) kmon" where
  "fdalloc f = bnd (rd (\<lambda>s. p_ofile (myproc s))) (\<lambda>fds.
     case find (\<lambda>fd. fds ! fd = None) [0..<NOFILE] of
       Some fd \<Rightarrow> sq (upd (upd_myproc (\<lambda>p. p\<lparr>p_ofile := (p_ofile p)[fd := Some f]\<rparr>))) (ret (Some fd))
     | None \<Rightarrow> ret None)"

subsection \<open>Users and groups\<close>

definition sys_getuid :: "('x kproc_scheme, int) kmon" where
  "sys_getuid = rd (\<lambda>s. sint (p_uid (myproc s)))"

definition sys_geteuid :: "('x kproc_scheme, int) kmon" where
  "sys_geteuid = rd (\<lambda>s. sint (p_euid (myproc s)))"

text \<open>\<open>sys_setuid\<close> does not look at the result of \<open>argint\<close>, and has no \<open>return\<close> at its end.\<close>

definition sys_setuid :: "('x kern_scheme, int) kmon" where
  "sys_setuid = bnd (rd myproc) (\<lambda>p. if p_uid p \<noteq> 0 then ret (-1)
     else bnd (rd junk) (\<lambda>j. bnd (argint 0) (\<lambda>r. let uid = (case r of Some v \<Rightarrow> v | None \<Rightarrow> j) in
       sq (upd (upd_myproc (\<lambda>p. p\<lparr>p_uid := uid, p_euid := uid\<rparr>))) (ret (sint j)))))"

definition set_gid :: "nat \<Rightarrow> u32 \<Rightarrow> ('x kproc_scheme, unit) kmon" where
  "set_gid i v = (if i < NGROUPS then upd (upd_myproc (\<lambda>p. p\<lparr>p_gids := (p_gids p)[i := v]\<rparr>))
     else panic ''sys_setgroups: gids'')"

definition sys_setgroups :: "('x kern_scheme, int) kmon" where
  "sys_setgroups = bnd (rd myproc) (\<lambda>p. if p_uid p \<noteq> 0 then ret (-1)
     else arg_or_fail (argint 0) (\<lambda>ngroups. arg_or_fail (argptr 1 8) (\<lambda>rgids.
       sq (for_all [0..<nat (sint ngroups)] (\<lambda>i.
             bnd (user_load (p_pgdir p) (rgids + 4 * of_nat i) 4) (\<lambda>d. set_gid i (get32 d 0))))
       (sq (for_all [nat (sint ngroups)..<32] (\<lambda>j. set_gid j (-1))) (ret 0)))))"

definition sys_chmod :: "('x kern_scheme, int) kmon" where
  "sys_chmod = arg_or_fail (argstr 0) (\<lambda>path. arg_or_fail (argint 1) (\<lambda>mode.
     sq begin_op (bnd (namei path) (\<lambda>r. case r of
       None \<Rightarrow> sq end_op (ret (-1))
     | Some ip \<Rightarrow> bnd (rd (inode_at ip)) (\<lambda>i. bnd (rd myproc) (\<lambda>p.
         if i_uid i \<noteq> p_uid p \<and> p_uid p \<noteq> 0 then sq end_op (ret (-1))
         else sq (ilock ip) (sq (upd (upd_inode ip (\<lambda>i. i\<lparr>i_mode := mode\<rparr>)))
           (sq (iupdate ip) (sq (iunlock ip) (sq end_op (ret 0)))))))))))"

definition sys_chown :: "('x kern_scheme, int) kmon" where
  "sys_chown = bnd (rd myproc) (\<lambda>p. if p_uid p \<noteq> 0 then ret (-1)
     else arg_or_fail (argstr 0) (\<lambda>path. arg_or_fail (argint 1) (\<lambda>owner. arg_or_fail (argint 2) (\<lambda>group.
       sq begin_op (bnd (namei path) (\<lambda>r. case r of
         None \<Rightarrow> sq end_op (ret (-1))
       | Some ip \<Rightarrow> sq (ilock ip)
           (sq (whenk (owner \<noteq> -1) (upd (upd_inode ip (\<lambda>i. i\<lparr>i_uid := owner\<rparr>))))
           (sq (upd (upd_inode ip (\<lambda>i. i\<lparr>i_gid := group\<rparr>)))
           (sq (iupdate ip) (sq (iunlock ip) (sq end_op (ret 0))))))))))))"

subsection \<open>The screen\<close>

definition sys_echoswitch :: "('x kcons_scheme, int) kmon" where
  "sys_echoswitch = sq (upd (\<lambda>s. s\<lparr>echodisabled := (if echodisabled s = 0 then 1 else 0)\<rparr>)) (ret 0)"

definition setcp :: "nat \<Rightarrow> nat \<Rightarrow> ('x kcons_scheme, unit) kmon" where
  "setcp x y = upd (\<lambda>s. s\<lparr>crt_pos := x + 80 * y\<rparr>)"

definition sys_clrscr :: "('x kern_scheme, int) kmon" where
  "sys_clrscr = sq (upd (\<lambda>s. s\<lparr>crt := replicate (24 * 80) 0 @ drop (24 * 80) (crt s)\<rparr>))
     (sq (setcp 0 0) (rd (\<lambda>s. sint (junk s))))"

subsection \<open>Reading and writing\<close>

definition sys_dup :: "('x kern_scheme, int) kmon" where
  "sys_dup = arg_or_fail (argfd 0) (\<lambda>(_, f). arg_or_fail (fdalloc f) (\<lambda>fd.
     sq (filedup f) (ret (int fd))))"

definition sys_read :: "('x kern_scheme, int) kmon" where
  "sys_read = arg_or_fail (argfd 0) (\<lambda>(_, f). arg_or_fail (argint 2) (\<lambda>n. arg_or_fail (argptr 1 (sint n)) (\<lambda>p.
     bnd (fileread f (sint n)) (\<lambda>r. case r of
       None \<Rightarrow> ret (-1)
     | Some d \<Rightarrow> bnd (rd (\<lambda>s. p_pgdir (myproc s))) (\<lambda>pgdir. sq (user_store pgdir p d) (ret (int (length d))))))))"

definition sys_write :: "('x kern_scheme, int) kmon" where
  "sys_write = arg_or_fail (argfd 0) (\<lambda>(_, f). arg_or_fail (argint 2) (\<lambda>n. arg_or_fail (argptr 1 (sint n)) (\<lambda>p.
     bnd (rd (\<lambda>s. p_pgdir (myproc s))) (\<lambda>pgdir.
     bnd (user_load pgdir p (nat (sint n))) (\<lambda>d. filewrite f d)))))"

definition sys_close :: "('x kern_scheme, int) kmon" where
  "sys_close = arg_or_fail (argfd 0) (\<lambda>(fd, f).
     sq (upd (upd_myproc (\<lambda>p. p\<lparr>p_ofile := (p_ofile p)[fd := None]\<rparr>))) (sq (fileclose f) (ret 0)))"

text \<open>The fields of \<open>struct stat\<close> with their offsets; what lies between them is not written.\<close>

definition stat_fields :: "stat \<Rightarrow> (u32 \<times> bytes) list" where
  "stat_fields st = [(0, [byte_of 0 (st_type st), byte_of 8 (st_type st)]), (4, word_bytes (of_nat (st_dev st))),
     (8, word_bytes (of_nat (st_ino st))), (12, [byte_of 0 (st_nlink st), byte_of 8 (st_nlink st)]),
     (16, word_bytes (st_size st)), (20, [byte_of 0 (st_mode st), byte_of 8 (st_mode st)]),
     (24, word_bytes (st_uid st)), (28, word_bytes (st_gid st))]"

definition sys_fstat :: "('x kern_scheme, int) kmon" where
  "sys_fstat = arg_or_fail (argfd 0) (\<lambda>(_, f). arg_or_fail (argptr 1 32) (\<lambda>st.
     bnd (filestat f) (\<lambda>r. case r of
       None \<Rightarrow> ret (-1)
     | Some v \<Rightarrow> bnd (rd (\<lambda>s. p_pgdir (myproc s))) (\<lambda>pgdir.
         sq (for_all (stat_fields v) (\<lambda>(off, d). user_store pgdir (st + off) d)) (ret 0)))))"

subsection \<open>Links\<close>

definition link_bad :: "nat \<Rightarrow> ('x kern_scheme, int) kmon" where
  "link_bad ip = sq (ilock ip) (sq (upd (upd_inode ip (\<lambda>i. i\<lparr>i_nlink := i_nlink i - 1\<rparr>)))
     (sq (iupdate ip) (sq (iunlockput ip) (sq end_op (ret (-1))))))"

definition sys_link :: "('x kern_scheme, int) kmon" where
  "sys_link = arg_or_fail (argstr 0) (\<lambda>old. arg_or_fail (argstr 1) (\<lambda>new.
     sq begin_op (bnd (namei old) (\<lambda>r. case r of
       None \<Rightarrow> sq end_op (ret (-1))
     | Some ip \<Rightarrow> sq (ilock ip) (bnd (rd (inode_at ip)) (\<lambda>i.
         if i_type i = T_DIR then sq (iunlockput ip) (sq end_op (ret (-1)))
         else sq (upd (upd_inode ip (\<lambda>i. i\<lparr>i_nlink := i_nlink i + 1\<rparr>)))
           (sq (iupdate ip) (sq (iunlock ip)
           (bnd (nameiparent new (replicate DIRSIZ 0)) (\<lambda>r. case r of
              None \<Rightarrow> link_bad ip
            | Some (dp, name) \<Rightarrow> sq (ilock dp) (bnd (rd (\<lambda>s. i_dev (inode_at dp s) \<noteq> i_dev (inode_at ip s))) (\<lambda>x.
                bnd (if x then ret (-1) else bnd (rd (\<lambda>s. i_inum (inode_at ip s))) (dirlink dp name)) (\<lambda>w.
                  if w < 0 then sq (iunlockput dp) (link_bad ip)
                  else sq (iunlockput dp) (sq (iput ip) (sq end_op (ret 0))))))))))))))))"

definition isdirempty :: "nat \<Rightarrow> ('x kfs_scheme, bool) kmon" where
  "isdirempty dp = bnd (rd (\<lambda>s. i_size (inode_at dp s))) (\<lambda>sz.
     bnd (for_ret (drop 2 (dir_offs sz)) (\<lambda>off. bnd (read_dirent dp off ''isdirempty: readi'') (\<lambda>de.
            ret (if de_inum de \<noteq> 0 then Some () else None)))) (\<lambda>r. ret (r = None)))"

definition unlink_bad :: "nat \<Rightarrow> ('x kern_scheme, int) kmon" where
  "unlink_bad dp = sq (iunlockput dp) (sq end_op (ret (-1)))"

definition sys_unlink :: "('x kern_scheme, int) kmon" where
  "sys_unlink = arg_or_fail (argstr 0) (\<lambda>path. sq begin_op
    (bnd (nameiparent path (replicate DIRSIZ 0)) (\<lambda>r. case r of
       None \<Rightarrow> sq end_op (ret (-1))
     | Some (dp, name) \<Rightarrow> sq (ilock dp)
        (if namecmp name [0x2e, 0] = Some 0 \<or> namecmp name [0x2e, 0x2e, 0] = Some 0 then unlink_bad dp
         else bnd (dirlookup dp name) (\<lambda>r. case r of
           None \<Rightarrow> unlink_bad dp
         | Some (ip, off) \<Rightarrow> sq (ilock ip) (bnd (rd (inode_at ip)) (\<lambda>i.
             if sint (i_nlink i) < 1 then panic ''unlink: nlink < 1''
             else bnd (if i_type i = T_DIR then isdirempty ip else ret True) (\<lambda>empty.
               if \<not> empty then sq (iunlockput ip) (unlink_bad dp)
               else bnd (writei dp (replicate DIRENT 0) (of_nat off)) (\<lambda>w.
                 if w \<noteq> int DIRENT then panic ''unlink: writei''
                 else sq (whenk (i_type i = T_DIR)
                       (sq (upd (upd_inode dp (\<lambda>i. i\<lparr>i_nlink := i_nlink i - 1\<rparr>))) (iupdate dp)))
                   (sq (iunlockput dp)
                   (sq (upd (upd_inode ip (\<lambda>i. i\<lparr>i_nlink := i_nlink i - 1\<rparr>)))
                   (sq (iupdate ip) (sq (iunlockput ip) (sq end_op (ret 0)))))))))))))))"

subsection \<open>Creating and opening\<close>

text \<open>The result, when there is one, is a locked inode.\<close>

definition create :: "bytes \<Rightarrow> u16 \<Rightarrow> u16 \<Rightarrow> u16 \<Rightarrow> u32 \<Rightarrow> u32 \<Rightarrow> ('x kfs_scheme, nat option) kmon" where
  "create path type major minor uid mode = bnd (nameiparent path (replicate DIRSIZ 0)) (\<lambda>r. case r of
     None \<Rightarrow> ret None
   | Some (dp, name) \<Rightarrow> sq (ilock dp) (bnd (dirlookup dp name) (\<lambda>r. case r of
       Some (ip, _) \<Rightarrow> sq (iunlockput dp) (sq (ilock ip) (bnd (rd (\<lambda>s. i_type (inode_at ip s))) (\<lambda>t.
         if type = T_FILE \<and> t = T_FILE \<or> t = T_DEV then ret (Some ip)
         else sq (iunlockput ip) (ret None))))
     | None \<Rightarrow> bnd (rd (inode_at dp)) (\<lambda>d. bnd (ialloc (i_dev d) type uid mode) (\<lambda>ip.
         sq (ilock ip)
         (sq (upd (upd_inode ip (\<lambda>i. i\<lparr>i_major := major, i_minor := minor, i_nlink := 1\<rparr>)))
         (sq (iupdate ip)
         (bnd (rd (\<lambda>s. i_inum (inode_at ip s))) (\<lambda>inum.
         sq (whenk (type = T_DIR)
              (sq (upd (upd_inode dp (\<lambda>i. i\<lparr>i_nlink := i_nlink i + 1\<rparr>)))
              (sq (iupdate dp)
              (bnd (dirlink ip [0x2e, 0] inum) (\<lambda>w1. if w1 < 0 then panic ''create dots''
                 else bnd (dirlink ip [0x2e, 0x2e, 0] (i_inum d)) (\<lambda>w2.
                   if w2 < 0 then panic ''create dots'' else ret ()))))))
         (bnd (dirlink dp name inum) (\<lambda>w. if w < 0 then panic ''create: dirlink''
            else sq (iunlockput dp) (ret (Some ip)))))))))))))"

definition USER_R_BIT :: nat where "USER_R_BIT = 1"
definition USER_W_BIT :: nat where "USER_W_BIT = 2"
definition USER_X_BIT :: nat where "USER_X_BIT = 3"
definition GROUP_W_BIT :: nat where "GROUP_W_BIT = 5"
definition OTHER_R_BIT :: nat where "OTHER_R_BIT = 7"
definition OTHER_W_BIT :: nat where "OTHER_W_BIT = 8"
definition OTHER_X_BIT :: nat where "OTHER_X_BIT = 9"
definition O_RDONLY :: u32 where "O_RDONLY = 0"
definition O_WRONLY :: u32 where "O_WRONLY = 1"
definition O_RDWR :: u32 where "O_RDWR = 2"
definition O_CREATE :: u32 where "O_CREATE = 0x200"

text \<open>
  Whether \<open>sys_open\<close> refuses. \<open>groupmember\<close> is always 0 in the code, so the branches for it are never
  taken; the branch for others tests \<open>GROUP_W_BIT\<close> when the file is opened for reading and writing.
\<close>

definition open_invalid :: "u32 \<Rightarrow> u32 \<Rightarrow> u32 \<Rightarrow> u32 \<Rightarrow> bool" where
  "open_invalid omode mode owner euid =
    (let bits = int_to_bin_digit mode 10;
         fileowner = (owner = euid);
         invalid =
          (if omode = O_RDWR then
             if fileowner then bits ! USER_R_BIT = 0 \<or> bits ! USER_W_BIT = 0
             else bits ! OTHER_R_BIT = 0 \<or> bits ! GROUP_W_BIT = 0
           else if omode = O_RDONLY then
             if fileowner then bits ! USER_R_BIT = 0 else bits ! OTHER_R_BIT = 0
           else if omode = O_WRONLY then
             if fileowner then bits ! USER_W_BIT = 0 else bits ! OTHER_W_BIT = 0
           else False)
     in if euid = 0 then False else invalid)"

text \<open>The check of one bit that \<open>sys_mknod\<close> and \<open>sys_chdir\<close> make, with the owner's and the others' bit.\<close>

definition bit_invalid :: "nat \<Rightarrow> nat \<Rightarrow> u32 \<Rightarrow> u32 \<Rightarrow> u32 \<Rightarrow> bool" where
  "bit_invalid ubit obit mode owner euid =
    (let bits = int_to_bin_digit mode 10 in
     if euid = 0 then False
     else if owner = euid then bits ! ubit = 0 else bits ! obit = 0)"

definition perm_denied :: "bytes \<Rightarrow> ('x kcons_scheme, unit) kmon" where
  "perm_denied path = cprintf (str ''%s: Permission denied'' @ [10]) [ArgStr (Some path)]"

definition open_inode :: "bytes \<Rightarrow> u32 \<Rightarrow> nat \<Rightarrow> ('x kern_scheme, int) kmon" where
  "open_inode path omode ip = sq (ilock ip) (bnd (rd (inode_at ip)) (\<lambda>i. bnd (rd myproc) (\<lambda>p.
     if i_type i = T_DIR \<and> omode \<noteq> O_RDONLY then sq (iunlockput ip) (sq end_op (ret (-1)))
     else if open_invalid omode (i_mode i) (i_uid i) (p_euid p)
     then sq (perm_denied path) (sq (iunlockput ip) (sq end_op (ret (-1))))
     else bnd filealloc (\<lambda>f. case f of
       None \<Rightarrow> sq (iunlockput ip) (sq end_op (ret (-1)))
     | Some f \<Rightarrow> bnd (fdalloc f) (\<lambda>fd. case fd of
         None \<Rightarrow> sq (fileclose f) (sq (iunlockput ip) (sq end_op (ret (-1))))
       | Some fd \<Rightarrow> sq (iunlock ip) (sq end_op
           (sq (upd (upd_file f (\<lambda>x. x\<lparr>f_type := FD_INODE, f_ip := ip, f_off := 0,
                 f_readable := (omode AND O_WRONLY = 0),
                 f_writable := (omode AND O_WRONLY \<noteq> 0 \<or> omode AND O_RDWR \<noteq> 0)\<rparr>)))
               (ret (int fd)))))))))"

text \<open>The inode that \<open>create\<close> returns locked is dropped: the path is looked up again.\<close>

definition sys_open :: "('x kern_scheme, int) kmon" where
  "sys_open = arg_or_fail (argstr 0) (\<lambda>path. arg_or_fail (argint 1) (\<lambda>omode.
     sq begin_op
     (bnd (if omode AND O_CREATE \<noteq> 0
           then bnd (rd (\<lambda>s. p_uid (myproc s))) (\<lambda>uid. bnd (create path T_FILE 0 0 uid 0x1a4) (\<lambda>r. ret (r \<noteq> None)))
           else ret True) (\<lambda>ok.
       if \<not> ok then sq end_op (ret (-1))
       else bnd (namei path) (\<lambda>r. case r of
         None \<Rightarrow> sq end_op (ret (-1))
       | Some ip \<Rightarrow> open_inode path omode ip)))))"

definition sys_mkdir :: "('x kern_scheme, int) kmon" where
  "sys_mkdir = sq begin_op (bnd (argstr 0) (\<lambda>a.
     bnd (case a of None \<Rightarrow> ret None
          | Some path \<Rightarrow> bnd (rd (\<lambda>s. p_uid (myproc s))) (\<lambda>uid. create path T_DIR 0 0 uid 0x1c0)) (\<lambda>r.
       case r of None \<Rightarrow> sq end_op (ret (-1))
       | Some ip \<Rightarrow> sq (iunlockput ip) (sq end_op (ret 0)))))"

text \<open>
  \<open>sys_mknod\<close> looks up \<open>path\<close> before it is set. \<open>parent->mode\<close> and \<open>parent->uid\<close> of a null pointer are the
  words at the addresses 144 and 148, which the page table of the process maps. If the check fails,
  it unlocks the inode \<open>ip\<close>, which was never set.
\<close>

definition mknod_parent :: "nat option \<Rightarrow> ('x kern_scheme, u32 \<times> u32) kmon" where
  "mknod_parent par = (case par of
     Some dp \<Rightarrow> rd (\<lambda>s. (i_mode (inode_at dp s), i_uid (inode_at dp s)))
   | None \<Rightarrow> bnd (rd (\<lambda>s. p_pgdir (myproc s))) (\<lambda>d. bnd (user_load d 144 8) (\<lambda>w. ret (get32 w 0, get32 w 4))))"

definition sys_mknod :: "('x kern_scheme, int) kmon" where
  "sys_mknod = bnd (rd junk_str) (\<lambda>path0. bnd (nameiparent path0 (replicate DIRSIZ 0)) (\<lambda>r.
     bnd (mknod_parent (map_option fst r)) (\<lambda>(mode, owner). bnd (rd myproc) (\<lambda>p.
       if bit_invalid USER_W_BIT OTHER_W_BIT mode owner (p_euid p)
       then sq (perm_denied path0) (panic ''sys_mknod: iunlockput of an unset pointer'')
       else sq begin_op (bnd (argstr 0) (\<lambda>a. bnd (case a of None \<Rightarrow> ret None | Some path \<Rightarrow>
           bnd (argint 1) (\<lambda>major. case major of None \<Rightarrow> ret None | Some major \<Rightarrow>
           bnd (argint 2) (\<lambda>minor. case minor of None \<Rightarrow> ret None | Some minor \<Rightarrow>
             create path T_DEV (ucast major) (ucast minor) (p_uid p) 0x1a4))) (\<lambda>r.
         case r of None \<Rightarrow> sq end_op (ret (-1))
         | Some ip \<Rightarrow> sq (iunlockput ip) (sq end_op (ret 0)))))))))"

definition sys_chdir :: "('x kern_scheme, int) kmon" where
  "sys_chdir = bnd (rd myproc) (\<lambda>p. sq begin_op (bnd (argstr 0) (\<lambda>a.
     bnd (case a of None \<Rightarrow> ret None | Some path \<Rightarrow> bnd (namei path) (\<lambda>r. ret (map_option (Pair path) r))) (\<lambda>r.
     case r of
       None \<Rightarrow> sq end_op (ret (-1))
     | Some (path, ip) \<Rightarrow> sq (ilock ip) (bnd (rd (inode_at ip)) (\<lambda>i.
         if i_type i \<noteq> T_DIR then sq (iunlockput ip) (sq end_op (ret (-1)))
         else if bit_invalid USER_X_BIT OTHER_X_BIT (i_mode i) (i_uid i) (p_euid p)
         then sq (perm_denied path) (sq (iunlockput ip) (sq end_op (ret (-1))))
         else sq (iunlock ip)
           (sq (case p_cwd p of Some c \<Rightarrow> iput c | None \<Rightarrow> panic ''chdir: no cwd'')
           (sq end_op (sq (upd (upd_myproc (\<lambda>p. p\<lparr>p_cwd := Some ip\<rparr>))) (ret 0))))))))))"

subsection \<open>Exec and pipes\<close>

text \<open>The loop of \<open>sys_exec\<close>; \<open>k\<close> entries of \<open>argv\<close> are left.\<close>

fun exec_args :: "u32 \<Rightarrow> nat \<Rightarrow> ('x kern_scheme, bytes list option) kmon" where
  "exec_args uargv 0 = ret None"
| "exec_args uargv (Suc k) = bnd (fetchint uargv) (\<lambda>r. case r of
     None \<Rightarrow> ret None
   | Some uarg \<Rightarrow> if uarg = 0 then ret (Some [])
       else bnd (fetchstr uarg) (\<lambda>r. case r of
         None \<Rightarrow> ret None
       | Some a \<Rightarrow> bnd (exec_args (uargv + 4) k) (\<lambda>as. ret (map_option ((#) a) as))))"

definition sys_exec :: "('x kern_scheme, int) kmon" where
  "sys_exec = arg_or_fail (argstr 0) (\<lambda>path. arg_or_fail (argint 1) (\<lambda>uargv.
     arg_or_fail (exec_args uargv MAXARG) (\<lambda>argv. exec path argv)))"

definition sys_pipe :: "('x kern_scheme, int) kmon" where
  "sys_pipe = arg_or_fail (argptr 0 8) (\<lambda>fd. arg_or_fail pipealloc (\<lambda>(rf, wf).
     bnd (fdalloc rf) (\<lambda>r0. case r0 of
       None \<Rightarrow> sq (fileclose rf) (sq (fileclose wf) (ret (-1)))
     | Some fd0 \<Rightarrow> bnd (fdalloc wf) (\<lambda>r1. case r1 of
         None \<Rightarrow> sq (upd (upd_myproc (\<lambda>p. p\<lparr>p_ofile := (p_ofile p)[fd0 := None]\<rparr>)))
           (sq (fileclose rf) (sq (fileclose wf) (ret (-1))))
       | Some fd1 \<Rightarrow> bnd (rd (\<lambda>s. p_pgdir (myproc s))) (\<lambda>pgdir.
           sq (user_store pgdir fd (word_bytes (of_nat fd0) @ word_bytes (of_nat fd1))) (ret 0))))))"

end
