(* ===== verification/Permission.thy ===== *)
theory Permission
  imports Frames Sysfile
begin

text \<open>
  What the permission checks of \<open>sys_open\<close> and \<open>sys_chdir\<close> amount to, against the Unix rule for the
  superuser, the owner and everybody else: when \<open>sys_open\<close> hands out a descriptor, what can be done with it,
  and which directories \<open>sys_chdir\<close> enters.
\<close>

subsection \<open>The rule\<close>

datatype access = Read | Write | Execute

fun access_bit :: "access \<Rightarrow> nat" where
  "access_bit Read = 2"
| "access_bit Write = 1"
| "access_bit Execute = 0"

text \<open>
  The permissions the code grants: the superuser may do everything, the owner what the owner's bits say,
  everybody else what the others' bits say. There is no class for the members of the group, since
  \<open>groupmember\<close> is the constant 0 in the code, although \<^verbatim>\<open>README.md\<close> gives them rights of their own.
\<close>

definition may :: "access \<Rightarrow> u32 \<Rightarrow> u32 \<Rightarrow> u32 \<Rightarrow> bool" where
  "may a mode owner euid \<longleftrightarrow> euid = 0 \<or> bit mode (access_bit a + (if owner = euid then 6 else 0))"

lemma mode_digits:
  "int_to_bin_digit mode 10 ! i = (if bit mode (9 - i) then 1 else 0)" if "i < 10"
  using that bin_digits_bits[of 10 9 mode] by (simp add: int_to_bin_digit_def del: upt_Suc)

lemmas bit_consts = USER_R_BIT_def USER_W_BIT_def USER_X_BIT_def GROUP_W_BIT_def OTHER_R_BIT_def OTHER_W_BIT_def OTHER_X_BIT_def
  O_RDONLY_def O_WRONLY_def O_RDWR_def

lemma open_invalid_iff:
  "open_invalid O_RDONLY mode owner euid \<longleftrightarrow> \<not> may Read mode owner euid"
  "open_invalid O_WRONLY mode owner euid \<longleftrightarrow> \<not> may Write mode owner euid"
  "open_invalid O_RDWR mode owner euid \<longleftrightarrow> \<not> may Read mode owner euid \<or>
     \<not> (if owner = euid then may Write mode owner euid else euid = 0 \<or> bit mode 4)"
  by (auto simp: open_invalid_def may_def mode_digits bit_consts Let_def One_nat_def numeral_2_eq_2)

lemma bit_invalid_iff:
  "bit_invalid USER_W_BIT OTHER_W_BIT mode owner euid \<longleftrightarrow> \<not> may Write mode owner euid"
  "bit_invalid USER_X_BIT OTHER_X_BIT mode owner euid \<longleftrightarrow> \<not> may Execute mode owner euid"
  by (auto simp: bit_invalid_def may_def mode_digits bit_consts Let_def One_nat_def)

lemma upd_file_nth: "f < length (ftable s) \<Longrightarrow> ftable (upd_file f g s) ! f = g (ftable s ! f)"
  by (simp add: upd_file_def)

lemma small_modes: "omode \<le> O_RDWR \<longleftrightarrow> omode = O_RDONLY \<or> omode = O_WRONLY \<or> omode = O_RDWR"
  "omode \<le> O_WRONLY \<longleftrightarrow> omode = O_RDONLY \<or> omode = O_WRONLY"
proof -
  have "unat omode \<le> 2 \<longleftrightarrow> unat omode = 0 \<or> unat omode = 1 \<or> unat omode = 2"
    "unat omode \<le> 1 \<longleftrightarrow> unat omode = 0 \<or> unat omode = 1"
    by linarith+
  then show "omode \<le> O_RDWR \<longleftrightarrow> omode = O_RDONLY \<or> omode = O_WRONLY \<or> omode = O_RDWR"
    "omode \<le> O_WRONLY \<longleftrightarrow> omode = O_RDONLY \<or> omode = O_WRONLY"
    by (simp_all add: bit_consts word_le_nat_alt word_unat_eq_iff)
qed

lemma open_valid:
  assumes "\<not> open_invalid omode mode owner euid"
  shows "omode \<le> O_RDWR \<Longrightarrow> omode AND O_WRONLY = 0 \<Longrightarrow> may Read mode owner euid"
    "omode \<le> O_RDWR \<Longrightarrow> omode AND O_WRONLY \<noteq> 0 \<or> omode AND O_RDWR \<noteq> 0
       \<Longrightarrow> if omode = O_RDWR \<and> owner \<noteq> euid then euid = 0 \<or> bit mode 4 else may Write mode owner euid"
proof -
  have z: "O_RDONLY AND x = 0" "O_WRONLY AND O_WRONLY \<noteq> 0" for x by (simp_all add: bit_consts)
  show "omode \<le> O_RDWR \<Longrightarrow> omode AND O_WRONLY = 0 \<Longrightarrow> may Read mode owner euid"
    using assms z by (auto simp: small_modes open_invalid_iff)
  show "omode \<le> O_RDWR \<Longrightarrow> omode AND O_WRONLY \<noteq> 0 \<or> omode AND O_RDWR \<noteq> 0
       \<Longrightarrow> if omode = O_RDWR \<and> owner \<noteq> euid then euid = 0 \<or> bit mode 4 else may Write mode owner euid"
    using assms z by (auto simp: small_modes open_invalid_iff split: if_splits)
qed

lemma open_inode_returns:
  assumes "open_inode path omode ip s = Inr (fd, s')" "0 \<le> fd"
  obtains t f u n v w x where "ilock ip s = Inr ((), t)"
    "\<not> open_invalid omode (i_mode (inode_at ip t)) (i_uid (inode_at ip t)) (p_euid (myproc t))"
    "filealloc t = Inr (Some f, u)" "fdalloc f u = Inr (Some n, v)" "fd = int n"
    "iunlock ip v = Inr ((), w)" "end_op w = Inr ((), x)"
    "s' = upd_file f (\<lambda>x. x\<lparr>f_type := FD_INODE, f_ip := ip, f_off := 0, f_readable := (omode AND O_WRONLY = 0),
         f_writable := (omode AND O_WRONLY \<noteq> 0 \<or> omode AND O_RDWR \<noteq> 0)\<rparr>) x"
  using assms unfolding open_inode_def by (fastforce simp: bnd_Inr sq_Inr split: option.splits if_splits)

lemma open_inode_descriptor:
  assumes "open_inode path omode ip s = Inr (fd, s')" "0 \<le> fd"
    "curproc s' < length (ptable s')" "length (p_ofile (myproc s')) = NOFILE" "length (ftable s') = NFILE"
  shows "\<exists>t f. ilock ip s = Inr ((), t) \<and> f < NFILE \<and> p_ofile (myproc s') ! nat fd = Some f \<and>
     \<not> open_invalid omode (i_mode (inode_at ip t)) (i_uid (inode_at ip t)) (p_euid (myproc t)) \<and>
     f_type (ftable s' ! f) = FD_INODE \<and> f_ip (ftable s' ! f) = ip \<and> f_off (ftable s' ! f) = 0 \<and>
     f_readable (ftable s' ! f) = (omode AND O_WRONLY = 0) \<and>
     f_writable (ftable s' ! f) = (omode AND O_WRONLY \<noteq> 0 \<or> omode AND O_RDWR \<noteq> 0)"
proof -
  obtain t f u n v w x where l: "ilock ip s = Inr ((), t)"
    "\<not> open_invalid omode (i_mode (inode_at ip t)) (i_uid (inode_at ip t)) (p_euid (myproc t))"
    and f: "filealloc t = Inr (Some f, u)" and n: "fdalloc f u = Inr (Some n, v)" "fd = int n"
    and e: "iunlock ip v = Inr ((), w)" "end_op w = Inr ((), x)"
    and s': "s' = upd_file f (\<lambda>x. x\<lparr>f_type := FD_INODE, f_ip := ip, f_off := 0, f_readable := (omode AND O_WRONLY = 0),
         f_writable := (omode AND O_WRONLY \<noteq> 0 \<or> omode AND O_RDWR \<noteq> 0)\<rparr>) x"
    using assms(1,2) by (rule open_inode_returns)
  have c: "core s' = core v"
    using stays_return[OF core_iunlock e(1)] stays_return[OF core_end_op e(2)] s' by simp
  note m = core_myproc[OF c[symmetric] assms(3)]
  then have o: "p_ofile (myproc s') = p_ofile (myproc v)" by (metis still_ofile)
  have "p_ofile (myproc v) ! n = Some f"
    using n(1) m o assms(4)
    by (auto simp: fdalloc_def bnd_Inr sq_Inr upd_myproc_def upd_proc_def myproc_def find_Some_iff split: option.splits)
  moreover have "f < NFILE" using f by (auto simp: filealloc_def bnd_Inr sq_Inr find_Some_iff split: option.splits)
  ultimately show ?thesis using l o n(2) assms(5) unfolding s'
    by (intro exI[of _ t] exI[of _ f]) (auto simp: upd_file_nth upd_file_def)
qed

text \<open>
  C3. What a descriptor allows. When \<open>sys_open\<close> has found the inode and returns a descriptor for one of
  the modes read-only, write-only and read-write, the descriptor is an entry of the process for a file on
  this inode at offset 0. It can be read only if the process may read the file. It can be written only if
  the process may write the file, except for a process that is not the owner and opens for both: there
  the code requires the write bit of the group, not that of the others.
\<close>

theorem open_grants:
  assumes "open_inode path omode ip s = Inr (fd, s')" "0 \<le> fd" "omode \<le> O_RDWR"
    "curproc s' < length (ptable s')" "length (p_ofile (myproc s')) = NOFILE" "length (ftable s') = NFILE"
  shows "\<exists>t f. ilock ip s = Inr ((), t) \<and> f < NFILE \<and> p_ofile (myproc s') ! nat fd = Some f \<and>
     (let i = inode_at ip t; e = p_euid (myproc t); x = ftable s' ! f in
        f_type x = FD_INODE \<and> f_ip x = ip \<and> f_off x = 0 \<and>
        f_readable x = (omode AND O_WRONLY = 0) \<and> f_writable x = (omode AND O_WRONLY \<noteq> 0 \<or> omode AND O_RDWR \<noteq> 0) \<and>
        (f_readable x \<longrightarrow> may Read (i_mode i) (i_uid i) e) \<and>
        (f_writable x \<longrightarrow> (if omode = O_RDWR \<and> i_uid i \<noteq> e then e = 0 \<or> bit (i_mode i) 4
                        else may Write (i_mode i) (i_uid i) e)))"
proof -
  from open_inode_descriptor[OF assms(1,2,4-6)] obtain t f where d: "ilock ip s = Inr ((), t)" "f < NFILE"
    "p_ofile (myproc s') ! nat fd = Some f"
    "\<not> open_invalid omode (i_mode (inode_at ip t)) (i_uid (inode_at ip t)) (p_euid (myproc t))"
    "f_type (ftable s' ! f) = FD_INODE" "f_ip (ftable s' ! f) = ip" "f_off (ftable s' ! f) = 0"
    "f_readable (ftable s' ! f) = (omode AND O_WRONLY = 0)"
    "f_writable (ftable s' ! f) = (omode AND O_WRONLY \<noteq> 0 \<or> omode AND O_RDWR \<noteq> 0)" by blast
  with open_valid[OF d(4) assms(3)] show ?thesis unfolding Let_def by blast
qed


text \<open>A state with a file of user 1, mode 0644, in the cache, and a process of user 2.\<close>

definition open_demo :: kern where
  "open_demo = upd_inode 0 (\<lambda>i. i\<lparr>i_dev := 1, i_inum := 5, i_ref := 1, i_valid := True, i_type := T_FILE, i_nlink := 1,
      i_mode := 0x1a4, i_uid := 1\<rparr>) (upd_myproc (\<lambda>p. p\<lparr>p_uid := 2, p_euid := 2\<rparr>) boot_kern)"

lemma boot_kern_fields: "icache boot_kern = replicate NINODE zero_inode" "ftable boot_kern = replicate NFILE zero_file"
  "log boot_kern = fresh_log"
  by (simp_all add: boot_kern_def boot_file_def boot_fs_def boot_cons_def boot_log_def boot_bio_def kcons.defs kfs.defs kfile.defs
      klog.defs kvm.defs kern.defs)


lemma open_demo_fields:
  "inode_at 0 open_demo = zero_inode\<lparr>i_dev := 1, i_inum := 5, i_ref := 1, i_valid := True, i_type := T_FILE, i_nlink := 1,
      i_mode := 0x1a4, i_uid := 1\<rparr>" "length (icache open_demo) = NINODE"
  "myproc open_demo = first_proc\<lparr>p_uid := 2, p_euid := 2\<rparr>" "curproc open_demo = 0" "length (ptable open_demo) = NPROC"
  "ftable open_demo = replicate NFILE zero_file" "log open_demo = fresh_log"
  by (simp_all add: open_demo_def inode_at_def upd_inode_def boot_kern_fields boot_kern_proc myproc_def upd_myproc_def upd_proc_def
     NINODE_def NPROC_def)

lemma open_demo_runs:
  assumes p: "\<not> open_invalid omode 0x1a4 1 2"
  obtains s' t where "open_inode path omode 0 open_demo = Inr (0, s')" "curproc s' < length (ptable s')"
    "length (p_ofile (myproc s')) = NOFILE" "length (ftable s') = NFILE" "ilock 0 open_demo = Inr ((), t)"
    "i_type (inode_at 0 t) = T_FILE" "\<exists>f<NFILE. f_ref (ftable t ! f) = 0" "\<exists>n<NOFILE. p_ofile (myproc t) ! n = None"
proof -
  define t where "t = upd_ino_lock 0 (\<lambda>lk. lk\<lparr>lk_locked := True, lk_pid := 1\<rparr>) open_demo"
  have 1: "ilock 0 open_demo = Inr ((), t)"
    by (simp add: ilock_def acquiresleep_def t_def ino_lock_def open_demo_fields zero_inode_def initsleeplock_def first_proc_def
       upd_ino_lock_def NINODE_def)
  have t: "inode_at 0 t = (inode_at 0 open_demo)\<lparr>i_lock := \<lparr>lk_locked = True, lk_pid = 1\<rparr>\<rparr>" "length (icache t) = NINODE"
    "myproc t = myproc open_demo"
     "ftable t = replicate NFILE zero_file" "log t = fresh_log" "curproc t = 0" "length (ptable t) = NPROC"
    using open_demo_fields by (simp_all add: t_def upd_ino_lock_def upd_inode_def inode_at_def myproc_def NINODE_def
        zero_inode_def initsleeplock_def)
  define u where "u = upd_file 0 (\<lambda>x. x\<lparr>f_ref := 1\<rparr>) t"
  have 2: "filealloc t = Inr (Some 0, u)" by (simp add: filealloc_def t u_def NFILE_def upt_rec zero_file_def)
  define v where "v = upd_myproc (\<lambda>p. p\<lparr>p_ofile := (p_ofile p)[0 := Some 0]\<rparr>) u"
  have 3: "fdalloc 0 u = Inr (Some 0, v)" 
    using t open_demo_fields(3)
    by (simp add: fdalloc_def u_def v_def upd_file_def myproc_def NOFILE_def upt_rec first_proc_def zero_proc_def)
  have v: "inode_at 0 v = inode_at 0 t" "log v = fresh_log" "length (ftable v) = NFILE" "curproc v = 0" "length (ptable v) = NPROC"
    "p_pid (myproc v) = 1" "length (p_ofile (myproc v)) = NOFILE"
    using t open_demo_fields(3) by (simp_all add: v_def u_def upd_file_def upd_myproc_def upd_proc_def myproc_def inode_at_def NPROC_def
       first_proc_def zero_proc_def)
  define w where "w = wakeup1 (ChInodeLock 0) (upd_ino_lock 0 (\<lambda>lk. lk\<lparr>lk_locked := False, lk_pid := 0\<rparr>) v)"
  have 4: "iunlock 0 v = Inr ((), w)"
    using v t by (simp add: iunlock_def holdingsleep_def releasesleep_def wakeup_def ino_lock_def w_def open_demo_fields)
  have "log w = fresh_log" "length (ftable w) = NFILE" using v by (simp_all add: w_def wakeup1_def upd_ino_lock_def upd_inode_def)
  then obtain x where 5: "end_op w = Inr ((), x)" "length (ftable x) = NFILE"
    by (simp add: end_op_def commit_def upd_log_def fresh_log_def wakeup_def wakeup1_def)
  have "core x = core v" using stays_return[OF core_iunlock 4] stays_return[OF core_end_op 5(1)] by simp
  from core_myproc[OF this] v have x: "curproc x < length (ptable x)" "length (p_ofile (myproc x)) = NOFILE"
    by (auto simp: NPROC_def dest: still_ofile)
  obtain s' where s': "open_inode path omode 0 open_demo = Inr (0, s')" "curproc s' < length (ptable s')"
    "length (p_ofile (myproc s')) = NOFILE" "length (ftable s') = NFILE"
    using 1 2 3 4 5 x p t by (simp add: open_inode_def open_demo_fields T_FILE_def T_DIR_def) (simp add: upd_file_def myproc_def)
  have "f_ref (ftable t ! 0) = 0" "p_ofile (myproc t) ! 0 = None"
    using t open_demo_fields(3) by (simp_all add: NFILE_def zero_file_def first_proc_def zero_proc_def NOFILE_def)
  then have "\<exists>f<NFILE. f_ref (ftable t ! f) = 0" "\<exists>n<NOFILE. p_ofile (myproc t) ! n = None"
    by (auto simp: NFILE_def NOFILE_def intro!: exI[of _ 0])
  moreover have "i_type (inode_at 0 t) = T_FILE" using t(1) open_demo_fields(1) by simp
  ultimately show ?thesis using that[OF s' 1] by blast
qed

lemma demo_modes: "\<not> open_invalid O_RDONLY 0x1a4 1 2" "\<not> open_invalid 3 0x1a4 1 2"
  by (simp_all add: open_invalid_iff may_def bit_iff_odd) (simp add: open_invalid_def Let_def bit_consts)

theorem open_grants_witness:
  "\<exists>s' t f. open_inode [] O_RDONLY 0 open_demo = Inr (0, s') \<and> ilock 0 open_demo = Inr ((), t)
     \<and> p_ofile (myproc s') ! 0 = Some f \<and> f_ip (ftable s' ! f) = 0 \<and> f_readable (ftable s' ! f)
     \<and> may Read (i_mode (inode_at 0 t)) (i_uid (inode_at 0 t)) (p_euid (myproc t))"
proof -
  obtain s' where s': "open_inode [] O_RDONLY 0 open_demo = Inr (0, s')" "curproc s' < length (ptable s')"
     "length (p_ofile (myproc s')) = NOFILE" "length (ftable s') = NFILE" by (rule open_demo_runs[OF demo_modes(1)])
  show ?thesis using open_grants[OF s'(1) _ _ s'(2-4)] s'(1) by (auto simp: Let_def bit_consts)
qed

lemma room_found: "\<exists>n<k. P n \<Longrightarrow> \<exists>n. find P [0..<k] = Some n"
  by (metis atLeastLessThan_iff find_None_iff not_None_eq set_upt bot_nat_0.extremum)

lemma open_inode_result:
  assumes r: "open_inode path omode ip s = Inr (r, s')" and l: "ilock ip s = Inr ((), t)"
    and notdir: "i_type (inode_at ip t) = T_DIR \<Longrightarrow> omode = O_RDONLY"
    and room: "\<exists>f<NFILE. f_ref (ftable t ! f) = 0" "\<exists>n<NOFILE. p_ofile (myproc t) ! n = None"
  shows "0 \<le> r \<longleftrightarrow> \<not> open_invalid omode (i_mode (inode_at ip t)) (i_uid (inode_at ip t)) (p_euid (myproc t))"
proof -
  from room_found[OF room(1)] obtain f where
    f: "filealloc t = Inr (Some f, upd_file f (\<lambda>x. x\<lparr>f_ref := 1\<rparr>) t)"
    by (auto simp: filealloc_def)
  have m: "myproc (upd_file f g t) = myproc t" for g by (simp add: upd_file_def myproc_def)
  from room_found[OF room(2)] obtain n where
    n: "fdalloc f (upd_file f (\<lambda>x. x\<lparr>f_ref := 1\<rparr>) t) =
      Inr (Some n, upd_myproc (\<lambda>p. p\<lparr>p_ofile := (p_ofile p)[n := Some f]\<rparr>) (upd_file f (\<lambda>x. x\<lparr>f_ref := 1\<rparr>) t))"
    by (auto simp: fdalloc_def m)
  show ?thesis
  proof (cases "open_invalid omode (i_mode (inode_at ip t)) (i_uid (inode_at ip t)) (p_euid (myproc t))")
    case True
    then show ?thesis using r l notdir unfolding open_inode_def by (auto simp: sq_Inr split: if_splits)
  next
    case False
    then show ?thesis using r l f n notdir unfolding open_inode_def by (auto simp: sq_Inr split: if_splits)
  qed
qed

text \<open>
  C17. When \<open>sys_open\<close> succeeds. For an inode that is no directory, or is opened read-only, and with a free
  file and a free descriptor, \<open>sys_open\<close>, if it comes to an end, returns a descriptor exactly in these cases:
  read-only, and the process may read the file; write-only, and it may write it; read-write, and it may
  read it and, as the owner, write it, or, as another process, the group's write bit is set; or any other mode.
\<close>

theorem open_decides:
  assumes "open_inode path omode ip s = Inr (r, s')" "ilock ip s = Inr ((), t)"
    "i_type (inode_at ip t) \<noteq> T_DIR \<or> omode = O_RDONLY"
    "\<exists>f<NFILE. f_ref (ftable t ! f) = 0" "\<exists>n<NOFILE. p_ofile (myproc t) ! n = None"
  shows "0 \<le> r \<longleftrightarrow> (let mode = i_mode (inode_at ip t); owner = i_uid (inode_at ip t); e = p_euid (myproc t) in
      omode = O_RDONLY \<and> may Read mode owner e \<or>
      omode = O_WRONLY \<and> may Write mode owner e \<or>
      omode = O_RDWR \<and> may Read mode owner e \<and> (if owner = e then may Write mode owner e else e = 0 \<or> bit mode 4) \<or>
      omode > O_RDWR)"
proof -
  have r: "0 \<le> r \<longleftrightarrow> \<not> open_invalid omode (i_mode (inode_at ip t)) (i_uid (inode_at ip t)) (p_euid (myproc t))"
    using open_inode_result[OF assms(1,2) _ assms(4,5)] assms(3) by blast
  consider (m) "omode = O_RDONLY \<or> omode = O_WRONLY \<or> omode = O_RDWR" | (big) "omode > O_RDWR"
    using small_modes(1)[of omode] by fastforce
  then show ?thesis
  proof cases
    case m
    then show ?thesis using r by (elim disjE) (simp_all add: open_invalid_iff Let_def, simp_all add: bit_consts)
  next
    case big
    then have "\<not> open_invalid omode mode owner e" for mode owner e
      by (auto simp: open_invalid_def Let_def bit_consts)
    with big r show ?thesis by (simp add: Let_def)
  qed
qed

theorem open_decides_witness:
  "\<exists>s' t. open_inode [] O_RDONLY 0 open_demo = Inr (0, s') \<and> ilock 0 open_demo = Inr ((), t)
     \<and> may Read (i_mode (inode_at 0 t)) (i_uid (inode_at 0 t)) (p_euid (myproc t))"
proof -
  obtain s' t where s: "open_inode [] O_RDONLY 0 open_demo = Inr (0, s')" "ilock 0 open_demo = Inr ((), t)"
    "\<exists>f<NFILE. f_ref (ftable t ! f) = 0" "\<exists>n<NOFILE. p_ofile (myproc t) ! n = None"
    by (rule open_demo_runs[OF demo_modes(1)])
  show ?thesis using open_decides[OF s(1,2) _ s(3,4)] s(1,2) by (auto simp: Let_def bit_consts)
qed

text \<open>
  C38. A hole in the check of \<open>sys_open\<close>: with a mode above 2 that has one of the write bits, 3 for instance, every
  process gets a descriptor with which it can write the file, whatever the permissions of the file are.
\<close>

theorem open_hole:
  assumes "open_inode path omode ip s = Inr (fd, s')" "ilock ip s = Inr ((), t)"
    "O_RDWR < omode" "omode AND O_WRONLY \<noteq> 0 \<or> omode AND O_RDWR \<noteq> 0" "i_type (inode_at ip t) \<noteq> T_DIR"
    "\<exists>f<NFILE. f_ref (ftable t ! f) = 0" "\<exists>n<NOFILE. p_ofile (myproc t) ! n = None"
    "curproc s' < length (ptable s')" "length (p_ofile (myproc s')) = NOFILE" "length (ftable s') = NFILE"
  shows "\<exists>f. p_ofile (myproc s') ! nat fd = Some f \<and> f_ip (ftable s' ! f) = ip \<and> f_writable (ftable s' ! f)"
proof -
  have "\<not> open_invalid omode mode owner e" for mode owner e
    using assms(3) by (auto simp: open_invalid_def Let_def bit_consts)
  then have "0 \<le> fd" using open_inode_result[OF assms(1,2) _ assms(6,7)] assms(5) by blast
  from open_inode_descriptor[OF assms(1) this assms(8-10)] assms(4) show ?thesis by blast
qed

theorem open_hole_witness:
  "\<exists>s' f. open_inode [] 3 0 open_demo = Inr (0, s') \<and> \<not> may Write 0x1a4 1 2
     \<and> p_ofile (myproc s') ! 0 = Some f \<and> f_ip (ftable s' ! f) = 0 \<and> f_writable (ftable s' ! f)"
proof -
  obtain s' t where s: "open_inode [] 3 0 open_demo = Inr (0, s')" "curproc s' < length (ptable s')"
    "length (p_ofile (myproc s')) = NOFILE" "length (ftable s') = NFILE" "ilock 0 open_demo = Inr ((), t)"
    "i_type (inode_at 0 t) = T_FILE" "\<exists>f<NFILE. f_ref (ftable t ! f) = 0" "\<exists>n<NOFILE. p_ofile (myproc t) ! n = None"
    by (rule open_demo_runs[OF demo_modes(2)])
  have "O_RDWR < 3" "(3 :: u32) AND O_WRONLY \<noteq> 0 \<or> (3 :: u32) AND O_RDWR \<noteq> 0" "i_type (inode_at 0 t) \<noteq> T_DIR"
    using s(6) by (simp_all add: bit_consts T_FILE_def T_DIR_def)
  from open_hole[OF s(1,5) this s(7,8,2-4)] s(1) show ?thesis by (simp add: may_def bit_iff_odd)
qed

subsection \<open>Changing the directory\<close>

lemma still_cwd: "still p = still q \<Longrightarrow> p_cwd p = p_cwd q"
  by (drule arg_cong[of _ _ p_cwd]) (simp add: still_def)

lemma core_perm_denied: "stays core (perm_denied path)"
  unfolding perm_denied_def by (rule core_cprintf)

lemma core_cwd:
  assumes "core t = core s" "curproc s < length (ptable s)"
  shows "p_cwd (myproc t) = p_cwd (myproc s)" "curproc t < length (ptable t)"
  using core_myproc[OF assms] still_cwd[of "myproc t" "myproc s"] by simp_all

lemmas core_steps = stays_return[OF core_begin_op] stays_return[OF core_argstr] stays_return[OF core_namei] stays_return[OF core_ilock]
  stays_return[OF core_iunlock] stays_return[OF core_iput] stays_return[OF core_end_op] stays_return[OF core_iunlockput]
  stays_return[OF core_perm_denied]


text \<open>A process of user 2 in a directory of user 1 that others may search, about to call \<open>chdir("")\<close>.\<close>

definition chdir_demo :: kern where
  "chdir_demo = upd_inode 0 (\<lambda>i. i\<lparr>i_dev := 1, i_inum := 5, i_ref := 1, i_valid := True, i_type := T_DIR, i_nlink := 1,
      i_mode := 0x1c1, i_uid := 1\<rparr>) (upd_myproc (\<lambda>p. p\<lparr>p_pgdir := 0x80400000, p_tf := zero_tf\<lparr>tf_esp := 0x30\<rparr>,
      p_uid := 2, p_euid := 2, p_cwd := Some 0\<rparr>) (boot_kern\<lparr>mem := user_mem\<rparr>))"

lemma chdir_demo_fields:
  "inode_at 0 chdir_demo = zero_inode\<lparr>i_dev := 1, i_inum := 5, i_ref := 1, i_valid := True, i_type := T_DIR, i_nlink := 1,
      i_mode := 0x1c1, i_uid := 1\<rparr>" "length (icache chdir_demo) = NINODE"
  "myproc chdir_demo = first_proc\<lparr>p_pgdir := 0x80400000, p_tf := zero_tf\<lparr>tf_esp := 0x30\<rparr>, p_uid := 2, p_euid := 2, p_cwd := Some 0\<rparr>"
  "curproc chdir_demo = 0" "length (ptable chdir_demo) = NPROC" "log chdir_demo = fresh_log" "mem chdir_demo = user_mem"
  by (simp_all add: chdir_demo_def inode_at_def upd_inode_def boot_kern_fields boot_kern_proc myproc_def upd_myproc_def upd_proc_def
     NINODE_def NPROC_def)

lemma chdir_demo_runs: "\<exists>s'. sys_chdir chdir_demo = Inr (0, s')"
proof -
  define a where "a = upd_log (\<lambda>l. l\<lparr>lg_outstanding := 2\<rparr>) chdir_demo"
  have a: "inode_at 0 a = inode_at 0 chdir_demo" "length (icache a) = NINODE" "myproc a = myproc chdir_demo" "mem a = user_mem"
    "log a = fresh_log\<lparr>lg_outstanding := 2\<rparr>" "curproc a = 0" "length (ptable a) = NPROC"
    using chdir_demo_fields by (simp_all add: a_def upd_log_def inode_at_def myproc_def)
  have 1: "begin_op chdir_demo = Inr ((), a)"
    by (simp add: begin_op_def chdir_demo_fields fresh_log_def a_def upd_log_def MAXOPBLOCKS_def LOGSIZE_def)
  have byte: "va AND NOT 0xFFF = 0 \<Longrightarrow> user_byte 0x80400000 va a = Inr (user_mem (0x80402000 + va), a)" for va
    by (simp add: user_byte_def user_demo_translate a)
  have m: "user_mem 0x80402034 = 0" "user_mem 0x80402035 = 0" "user_mem 0x80402036 = 0" "user_mem 0x80402037 = 0" "user_mem 0x80402000 = 0"
    by (simp_all add: user_mem_def store32_def)
  have "user_load 0x80400000 0x34 (Suc (Suc (Suc (Suc 0)))) a = Inr ([0, 0, 0, 0], a)" by (simp add: byte m)
  moreover have four: "Suc (Suc (Suc (Suc 0))) = 4" by simp
  ultimately have i: "argint 0 a = Inr (Some 0, a)"
    unfolding four by (simp add: argint_def fetchint_def a chdir_demo_fields first_proc_def zero_proc_def get32_def One_nat_def)
  have f: "fetchstr_loop 0x80400000 0 (Suc n) a = Inr (Some [], a)" for n using byte[of 0] m(5) by simp
  have 2: "argstr 0 a = Inr (Some [], a)"
    using i f[of 4095] by (simp add: argstr_def fetchstr_def a chdir_demo_fields first_proc_def One_nat_def del: fetchstr_loop.simps)
  define b where "b = upd_inode 0 (\<lambda>i. i\<lparr>i_ref := 2\<rparr>) a"
  have 3: "namei [] a = Inr (Some 0, b)"
    using a chdir_demo_fields by (simp add: namei_def namex_def namex_loop.simps idup_def b_def skipelem_def upd_inode_def inode_at_def)
  have b: "inode_at 0 b = (inode_at 0 chdir_demo)\<lparr>i_ref := 2\<rparr>" "length (icache b) = NINODE" "myproc b = myproc chdir_demo"
    using a by (simp_all add: b_def upd_inode_def inode_at_def myproc_def NINODE_def)
  define c where "c = upd_ino_lock 0 (\<lambda>lk. lk\<lparr>lk_locked := True, lk_pid := 1\<rparr>) b"
  have 4: "ilock 0 b = Inr ((), c)"
    by (simp add: ilock_def acquiresleep_def c_def ino_lock_def b chdir_demo_fields zero_inode_def initsleeplock_def first_proc_def
       upd_ino_lock_def NINODE_def)
  have c: "inode_at 0 c = (inode_at 0 b)\<lparr>i_lock := \<lparr>lk_locked = True, lk_pid = 1\<rparr>\<rparr>" "length (icache c) = NINODE"
    "myproc c = myproc b" "log c = log a"
    using b by (simp_all add: c_def b_def upd_ino_lock_def upd_inode_def inode_at_def myproc_def NINODE_def zero_inode_def initsleeplock_def
       chdir_demo_fields a)
  define d where "d = wakeup1 (ChInodeLock 0) (upd_ino_lock 0 (\<lambda>lk. lk\<lparr>lk_locked := False, lk_pid := 0\<rparr>) c)"
  have 5: "iunlock 0 c = Inr ((), d)"
    by (simp add: iunlock_def holdingsleep_def releasesleep_def wakeup_def ino_lock_def d_def c b chdir_demo_fields first_proc_def)
  have d: "inode_at 0 d = (inode_at 0 b)\<lparr>i_lock := \<lparr>lk_locked = False, lk_pid = 0\<rparr>\<rparr>" "length (icache d) = NINODE" "log d = log a"
    using c by (simp_all add: d_def wakeup1_def upd_ino_lock_def upd_inode_def inode_at_def NINODE_def)
  obtain e where 6: "iput 0 d = Inr ((), e)" "log e = log a"
    using d b chdir_demo_fields(1)
    by (simp add: iput_def acquiresleep_def releasesleep_def wakeup_def wakeup1_def ino_lock_def upd_ino_lock_def upd_inode_def
       inode_at_def NINODE_def whenk_def)
  obtain f where 7: "end_op e = Inr ((), f)"
    using 6(2) a(5) by (simp add: end_op_def fresh_log_def upd_log_def wakeup_def whenk_def)
  have p: "\<not> bit_invalid USER_X_BIT OTHER_X_BIT 0x1c1 1 2" by (simp add: bit_invalid_iff may_def bit_iff_odd)
  show ?thesis using 1 2 3 4 5 6 7 p c b chdir_demo_fields by (simp add: sys_chdir_def)
qed


end
