(* ===== verification/Trap.thy ===== *)
theory Trap
  imports Sysfile Kbd Frames
begin

text \<open>
  The system call table and its dispatcher (\<^verbatim>\<open>kernel/syscall.c\<close>), and the trap handler
  (\<^verbatim>\<open>kernel/trap.c\<close>) for a trap taken while a process is current. What the devices have for the handler is
  in the record \<open>dev_in\<close>: the scan codes waiting in the keyboard controller, the characters waiting in
  the serial port, the number of the processor and its register \<open>cr2\<close>. \<open>lapiceoi\<close> and \<open>ideintr\<close> change
  nothing that is modelled; \<open>ideintr\<close> of the memory disk is empty.
\<close>

definition syscalls :: "nat \<Rightarrow> ('x kern_scheme, int) kmon option" where
  "syscalls num =
    (if num = 0 \<or> num > 29 then None
     else Some ([sys_fork, sys_exit, sys_wait, sys_pipe, sys_read, sys_kill, sys_exec, sys_fstat, sys_chdir,
        sys_dup, sys_getpid, sys_sbrk, sys_sleep, sys_uptime, sys_open, sys_write, sys_mknod, sys_unlink,
        sys_link, sys_mkdir, sys_close, sys_getuid, sys_geteuid, sys_setuid, sys_setgroups, sys_chmod,
        sys_chown, sys_echoswitch, sys_clrscr] ! (num - 1)))"

definition set_eax :: "u32 \<Rightarrow> proc \<Rightarrow> proc" where
  "set_eax v p = p\<lparr>p_tf := (p_tf p)\<lparr>tf_eax := v\<rparr>\<rparr>"

definition syscall :: "('x kern_scheme, unit) kmon" where
  "syscall = bnd (rd myproc) (\<lambda>p. let num = sint (tf_eax (p_tf p)) in
     case (if num > 0 then syscalls (nat num) else None) of
       Some h \<Rightarrow> bnd h (\<lambda>r. upd (upd_myproc (set_eax (of_int r))))
     | None \<Rightarrow> sq (cprintf (str ''%d %s: unknown sys call %d'' @ [10])
           [ArgInt (of_int (p_pid p)), ArgStr (Some (cstr (p_name p))), ArgInt (of_int num)])
         (upd (upd_myproc (set_eax (-1)))))"

definition T_SYSCALL :: u32 where "T_SYSCALL = 64"
definition T_IRQ0 :: u32 where "T_IRQ0 = 32"
definition IRQ_TIMER :: u32 where "IRQ_TIMER = 0"
definition IRQ_KBD :: u32 where "IRQ_KBD = 1"
definition IRQ_COM1 :: u32 where "IRQ_COM1 = 4"
definition IRQ_IDE :: u32 where "IRQ_IDE = 14"
definition IRQ_SPURIOUS :: u32 where "IRQ_SPURIOUS = 31"

record dev_in =
  d_kbd :: "u8 list"
  d_uart :: "u8 list"
  d_cpu :: nat
  d_cr2 :: u32

definition kbdintr :: "u8 list \<Rightarrow> ('x kern_scheme, unit) kmon" where
  "kbdintr codes = bnd (rd kbd_shift) (\<lambda>sh. let (sh', cs) = kbd_run sh codes in
     sq (upd (\<lambda>s. s\<lparr>kbd_shift := sh'\<rparr>)) (consoleintr cs))"

definition uartintr :: "u8 list \<Rightarrow> ('x kcons_scheme, unit) kmon" where
  "uartintr cs = bnd (rd uart) (\<lambda>u. consoleintr (if u then map uint cs else []))"

definition timer_tick :: "nat \<Rightarrow> ('x kern_scheme, unit) kmon" where
  "timer_tick cpu = whenk (cpu = 0) (sq (upd (\<lambda>s. s\<lparr>ticks := ticks s + 1\<rparr>)) (wakeup ChTicks))"

definition trap_irq :: "trapframe \<Rightarrow> dev_in \<Rightarrow> ('x kern_scheme, unit) kmon" where
  "trap_irq tf dv = (let no = tf_trapno tf in
     if no = T_IRQ0 + IRQ_TIMER then timer_tick (d_cpu dv)
     else if no = T_IRQ0 + IRQ_IDE \<or> no = T_IRQ0 + IRQ_IDE + 1 then ret ()
     else if no = T_IRQ0 + IRQ_KBD then kbdintr (d_kbd dv)
     else if no = T_IRQ0 + IRQ_COM1 then uartintr (d_uart dv)
     else if no = T_IRQ0 + 7 \<or> no = T_IRQ0 + IRQ_SPURIOUS
     then cprintf (str ''cpu%d: spurious interrupt at %x:%x'' @ [10])
            [ArgInt (of_nat (d_cpu dv)), ArgInt (ucast (tf_cs tf)), ArgInt (tf_eip tf)]
     else if tf_cs tf AND 3 = 0
     then sq (cprintf (str ''unexpected trap %d from cpu %d eip %x (cr2=0x%x)'' @ [10])
            [ArgInt no, ArgInt (of_nat (d_cpu dv)), ArgInt (tf_eip tf), ArgInt (d_cr2 dv)]) (panic ''trap'')
     else bnd (rd myproc) (\<lambda>p.
       sq (cprintf (str ''pid %d %s: trap %d err %d on cpu %d eip 0x%x addr 0x%x--kill proc'' @ [10])
            [ArgInt (of_int (p_pid p)), ArgStr (Some (cstr (p_name p))), ArgInt no, ArgInt (tf_err tf),
             ArgInt (of_nat (d_cpu dv)), ArgInt (tf_eip tf), ArgInt (d_cr2 dv)])
          (upd (upd_myproc (\<lambda>p. p\<lparr>p_killed := True\<rparr>)))))"

definition exit_if_killed :: "('x kern_scheme, unit) kmon" where
  "exit_if_killed = bnd (rd (\<lambda>s. p_killed (myproc s))) (\<lambda>k. whenk k exit)"

text \<open>
  The last test of \<open>trap\<close>. A process that yielded before it comes here when it runs again, in a state that the
  other processes have changed in between; a run of \<open>trap\<close> alone ends in \<open>Switched\<close> when it yields.
\<close>

definition trap_resumed :: "trapframe \<Rightarrow> ('x kern_scheme, unit) kmon" where
  "trap_resumed tf = whenk (tf_cs tf AND 3 = 3) exit_if_killed"

definition trap_after :: "trapframe \<Rightarrow> ('x kern_scheme, unit) kmon" where
  "trap_after tf = sq (whenk (tf_cs tf AND 3 = 3) exit_if_killed)
     (bnd (rd (\<lambda>s. p_state (myproc s))) (\<lambda>st.
       sq (whenk (st = RUNNING \<and> tf_trapno tf = T_IRQ0 + IRQ_TIMER) yield) (trap_resumed tf)))"

definition trap :: "trapframe \<Rightarrow> dev_in \<Rightarrow> ('x kern_scheme, unit) kmon" where
  "trap tf dv =
    (if tf_trapno tf = T_SYSCALL
     then sq exit_if_killed (sq (upd (upd_myproc (\<lambda>p. p\<lparr>p_tf := tf\<rparr>))) (sq syscall exit_if_killed))
     else sq (trap_irq tf dv) (trap_after tf))"

subsection \<open>Killed processes\<close>

lemma core_timer_tick: "stays core (timer_tick cpu)"
  unfolding timer_tick_def by (intro stay_rules; simp add: core_def)

lemma core_kbdintr: "stays core (kbdintr codes)"
  unfolding kbdintr_def by (intro stay_rules; simp add: core_def)

lemma core_uartintr: "stays core (uartintr cs)"
  unfolding uartintr_def by (intro stay_rules; simp)

text \<open>The current process has been killed.\<close>

definition doomed :: "'x kproc_scheme \<Rightarrow> bool" where
  "doomed s \<longleftrightarrow> curproc s < length (ptable s) \<and> p_killed (myproc s)"

lemma core_doomed: "core t = core s \<Longrightarrow> doomed s \<Longrightarrow> doomed t"
  unfolding doomed_def using core_myproc[of t s] still_killed by metis

lemma doomed_exits: "doomed s \<Longrightarrow> \<exists>e. exit_if_killed s = Inl e"
  using noreturn_exit[unfolded noreturn_def, rule_format, of s, where ?'b = unit] by (simp add: exit_if_killed_def doomed_def)

lemma doomed_return: "stays core m \<Longrightarrow> doomed s \<Longrightarrow> m s = Inr (x, t) \<Longrightarrow> doomed t"
  using stays_return core_doomed by metis

lemma trap_irq_doomed:
  assumes "doomed s" "trap_irq tf dv s = Inr (x, t)"
  shows "doomed t"
proof -
  have k: "doomed (upd_myproc (\<lambda>p. p\<lparr>p_killed := True\<rparr>) u)" if "doomed u" for u :: "'a kern_scheme"
    using that by (simp add: doomed_def myproc_def upd_myproc_def upd_proc_def)
  show ?thesis using assms unfolding trap_irq_def Let_def
    by (auto simp: bnd_Inr sq_Inr split: if_splits
        intro: k doomed_return[OF core_timer_tick assms(1)] doomed_return[OF core_kbdintr assms(1)] doomed_return[OF core_uartintr assms(1)]
          doomed_return[OF core_cprintf assms(1)] assms(1))
qed

lemma killed_exits:
  assumes "exit_if_killed s = Inr ((), t)"
  shows "t = s \<and> \<not> p_killed (myproc s)"
  using assms noreturn_exit[unfolded noreturn_def, rule_format, of s, where ?'b = unit]
  by (cases "p_killed (myproc s)") (auto simp: exit_if_killed_def)

lemma doomed_trap:
  assumes "tf_cs tf AND 3 = 3" "doomed s"
  shows "\<exists>e. trap tf dv s = Inl e"
proof (cases "trap tf dv s")
  case (Inr r)
  have False using Inr doomed_exits[OF assms(2)] doomed_exits trap_irq_doomed[OF assms(2)] assms(1)
    by (cases r) (fastforce simp: trap_def trap_after_def sq_Inr bnd_Inr split: if_splits)
  then show ?thesis ..
qed blast

text \<open>
  C6. A killed process never returns to user mode. For every trap from user mode, system call, interrupt or
  fault: if the process has been killed before, the handler does not return to it, the run ends in \<open>exit\<close>, asleep or in a
  panic; if the handler returns, the process has not been killed on the way either, by itself, by
  the fault or by a system call it made; and a process that gave the processor away in the handler
  does not return when it runs again and was killed meanwhile.
\<close>

theorem killed_never_returns:
  fixes s :: "'x kern_scheme"
  assumes "tf_cs tf AND 3 = 3" "curproc s < length (ptable s)"
  shows "(p_killed (myproc s) \<longrightarrow> (\<exists>e. trap tf dv s = Inl e)) \<and>
    (\<forall>s'. trap tf dv s = Inr ((), s') \<longrightarrow> \<not> p_killed (myproc s')) \<and>
    (\<forall>u u' :: 'x kern_scheme. trap_resumed tf u = Inr ((), u') \<longrightarrow> \<not> p_killed (myproc u'))"
proof (intro conjI allI impI)
  show "\<exists>e. trap tf dv s = Inl e" if "p_killed (myproc s)"
    using that assms(2) by (intro doomed_trap[OF assms(1)]) (simp add: doomed_def)
next
  fix u u' :: "'x kern_scheme"
  assume "trap_resumed tf u = Inr ((), u')"
  then show "\<not> p_killed (myproc u')" using killed_exits[of u u'] assms(1) by (simp add: trap_resumed_def)
next
  fix s'
  assume "trap tf dv s = Inr ((), s')"
  then obtain u :: "'x kern_scheme" where "exit_if_killed u = Inr ((), s')"
    using assms(1) by (auto simp: trap_def trap_after_def trap_resumed_def sq_Inr bnd_Inr split: if_splits)
  from killed_exits[OF this] show "\<not> p_killed (myproc s')" by simp
qed

theorem killed_never_returns_witness:
  "(\<exists>e. trap (zero_tf\<lparr>tf_cs := 27, tf_trapno := 32\<rparr>) \<lparr>d_kbd = [], d_uart = [], d_cpu = 0, d_cr2 = 0\<rparr>
     (upd_myproc (\<lambda>p. p\<lparr>p_killed := True\<rparr>) boot_kern) = Inl e) \<and>
   trap (zero_tf\<lparr>tf_cs := 27, tf_trapno := 46\<rparr>) \<lparr>d_kbd = [], d_uart = [], d_cpu = 0, d_cr2 = 0\<rparr> boot_kern = Inr ((), boot_kern) \<and>
   \<not> p_killed (myproc boot_kern)"
proof -
  let ?dv = "\<lparr>d_kbd = [], d_uart = [], d_cpu = 0, d_cr2 = 0\<rparr>"
  let ?tf = "zero_tf\<lparr>tf_cs := 27, tf_trapno := 46\<rparr>"
  have k: "\<exists>e. trap (zero_tf\<lparr>tf_cs := 27, tf_trapno := 32\<rparr>) ?dv (upd_myproc (\<lambda>p. p\<lparr>p_killed := True\<rparr>) boot_kern) = Inl e"
    using killed_never_returns[of "zero_tf\<lparr>tf_cs := 27, tf_trapno := 32\<rparr>" "upd_myproc (\<lambda>p. p\<lparr>p_killed := True\<rparr>) boot_kern" ?dv]
    by (simp add: myproc_def upd_myproc_def upd_proc_def boot_kern_proc)
  have "exit_if_killed boot_kern = Inr ((), boot_kern)"
    unfolding exit_if_killed_def bnd_step[OF rd_simp] by (simp add: myproc_def boot_kern_proc first_proc_def zero_proc_def)
  then have r: "trap ?tf ?dv boot_kern = Inr ((), boot_kern)"
    by (simp add: trap_def trap_irq_def trap_after_def trap_resumed_def T_SYSCALL_def T_IRQ0_def IRQ_TIMER_def IRQ_IDE_def Let_def)
  show ?thesis using k r killed_never_returns[of ?tf boot_kern ?dv] by (simp add: boot_kern_proc)
qed

subsection \<open>Ticks\<close>

lemma timer_ticks:
  fixes s :: "'x kern_scheme"
  shows "\<exists>s'. for_all [0..<k] (\<lambda>_. timer_tick 0) s = Inr ((), s') \<and> ticks s' = ticks s + of_nat k
     \<and> ptable s' = (if k = 0 then ptable s else map (wake ChTicks) (ptable s))"
proof (rule for_all_upt)
  fix j and u :: "'x kern_scheme"
  assume u: "ticks u = ticks s + of_nat j \<and> ptable u = (if j = 0 then ptable s else map (wake ChTicks) (ptable s))"
  have "wake c (wake c p) = wake c p" for c p by (simp add: wake_def)
  with u show "\<exists>s'. timer_tick 0 u = Inr ((), s') \<and> ticks s' = ticks s + of_nat (Suc j)
      \<and> ptable s' = (if Suc j = 0 then ptable s else map (wake ChTicks) (ptable s))"
    by (simp add: timer_tick_def wakeup_def wakeup1_def add.commute)
qed simp

text \<open>
  C23. Sleeping for \<open>n\<close> ticks. The first tick after a process went to sleep in \<open>sys_sleep\<close> makes it runnable;
  its next check after \<open>k\<close> ticks returns 0 if \<open>k\<close> has reached \<open>n\<close> and goes back to sleep otherwise, also
  when the tick counter wraps on the way.
\<close>

theorem sleep_until_ticks:
  fixes s :: "'x kern_scheme"
  assumes "i < length (ptable s)" "p_state (ptable s ! i) = SLEEPING" "p_chan (ptable s ! i) = Some ChTicks" "0 < k" "k < 2 ^ 32"
  shows "\<exists>s'. for_all [0..<k] (\<lambda>_. timer_tick 0) s = Inr ((), s') \<and> p_state (ptable s' ! i) = RUNNABLE \<and>
     (\<forall>u :: 'x kern_scheme. ticks u = ticks s' \<and> \<not> p_killed (myproc u) \<longrightarrow> sleep_loop (ticks s) n u =
        (if k < unat n then Inl (Asleep ChTicks, upd_myproc (sleep_enter ChTicks) u) else Inr (0, u)))"
proof -
  obtain s' where s': "for_all [0..<k] (\<lambda>_. timer_tick 0) s = Inr ((), s')" "ticks s' = ticks s + of_nat k"
    "ptable s' = map (wake ChTicks) (ptable s)" using timer_ticks[of k s] assms(4) by auto
  have "unat (of_nat k :: u32) = k" using assms(5) by (simp add: unat_of_nat take_bit_nat_eq_self)
  then have "sleep_loop (ticks s) n u = (if k < unat n then Inl (Asleep ChTicks, upd_myproc (sleep_enter ChTicks) u) else Inr (0, u))"
    if "ticks u = ticks s'" "\<not> p_killed (myproc u)" for u :: "'x kern_scheme"
    using that s'(2) by (simp add: sleep_loop_def word_less_nat_alt)
  with s' assms(1-3) show ?thesis by (auto simp: wake_def)
qed

theorem sleep_until_ticks_witness:
  "\<exists>s' :: kern. for_all [0..<3] (\<lambda>_. timer_tick 0) (upd_myproc (sleep_enter ChTicks) (boot_kern\<lparr>ticks := -1\<rparr>)) = Inr ((), s')
     \<and> p_state (ptable s' ! 0) = RUNNABLE \<and> sleep_loop (-1) 3 s' = Inr (0, s')"
proof -
  let ?s = "upd_myproc (sleep_enter ChTicks) (boot_kern\<lparr>ticks := -1\<rparr>)"
  have m: "\<not> p_killed (myproc s')" if "for_all [0..<3] (\<lambda>_. timer_tick 0) ?s = Inr ((), s')" for s' :: kern
    using core_myproc[OF stays_return[OF stays_for_all[OF core_timer_tick] that], THEN conjunct2, THEN conjunct2, THEN still_killed]
    by (simp add: boot_kern_proc upd_myproc_def upd_proc_def myproc_def sleep_enter_def first_proc_def zero_proc_def)
  have t: "ticks ?s = -1" by (simp add: upd_myproc_def upd_proc_def)
  show ?thesis using sleep_until_ticks[of 0 ?s 3 3] m t
    by (auto simp: upd_myproc_def upd_proc_def boot_kern_proc sleep_enter_def)
qed

end
