(* ===== verification/Identity.thy ===== *)
theory Identity
  imports Frames Trap
begin

text \<open>
  Who may change the identity of a process: its user id, effective user id and groups. For every
  operation of the upper layers of the kernel, from process creation to the interrupt handlers, that it
  leaves the identities of all processes alone in every outcome, the calls \<open>sys_setuid\<close> and
  \<open>sys_setgroups\<close> apart; then that the two refuse a process that is not the superuser, and what follows
  for every trap; and what a child of \<open>fork\<close> inherits.
\<close>

lemma id_of_update [simp]:
  "id_of (p\<lparr>p_sz := a\<rparr>) = id_of p" "id_of (p\<lparr>p_pgdir := b\<rparr>) = id_of p" "id_of (p\<lparr>p_kstack := c\<rparr>) = id_of p"
  "id_of (p\<lparr>p_state := d\<rparr>) = id_of p" "id_of (p\<lparr>p_pid := e\<rparr>) = id_of p" "id_of (p\<lparr>p_parent := g\<rparr>) = id_of p"
  "id_of (p\<lparr>p_tf := h\<rparr>) = id_of p" "id_of (p\<lparr>p_context := i\<rparr>) = id_of p" "id_of (p\<lparr>p_chan := j\<rparr>) = id_of p"
  "id_of (p\<lparr>p_killed := k\<rparr>) = id_of p" "id_of (p\<lparr>p_ofile := l\<rparr>) = id_of p" "id_of (p\<lparr>p_cwd := m\<rparr>) = id_of p"
  "id_of (p\<lparr>p_name := n\<rparr>) = id_of p"
  by (simp_all add: id_of_def)

lemma id_of_steps [simp]:
  "id_of (wake c p) = id_of p" "id_of (sleep_enter c p) = id_of p" "id_of (sleep_leave p) = id_of p"
  "id_of (set_name t p) = id_of p" "id_of (fork_child cur q d p) = id_of p" "id_of (reap p) = id_of p"
  "id_of (kill_proc p) = id_of p" "id_of (set_eax v p) = id_of p"
  by (simp_all add: sleep_enter_def sleep_leave_def set_name_def fork_child_def reap_def kill_proc_def set_eax_def wake_def
      split: option.splits)

lemma ids_upd_proc [simp]: "(\<And>p. id_of (g p) = id_of p) \<Longrightarrow> ids (upd_proc i g s) = ids s"
  by (cases "i < length (ptable s)") (simp_all add: ids_def upd_proc_def map_update list_update_same_conv list_update_beyond)

lemma ids_upd_myproc [simp]: "(\<And>p. id_of (g p) = id_of p) \<Longrightarrow> ids (upd_myproc g s) = ids s"
  by (simp add: upd_myproc_def)

lemma ids_wakeup1 [simp]: "ids (wakeup1 c s) = ids s"
  by (simp add: ids_def wakeup1_def)

lemma ids_update [simp]:
  "ids (s\<lparr>mem := v_mem\<rparr>) = ids s" "ids (s\<lparr>curproc := v_curproc\<rparr>) = ids s"
  "ids (s\<lparr>initproc := v_initproc\<rparr>) = ids s" "ids (s\<lparr>nextpid := v_nextpid\<rparr>) = ids s"
  "ids (c\<lparr>crt := v_crt\<rparr>) = ids c" "ids (c\<lparr>crt_pos := v_crt_pos\<rparr>) = ids c"
  "ids (c\<lparr>echodisabled := v_echodisabled\<rparr>) = ids c" "ids (k\<lparr>ticks := v_ticks\<rparr>) = ids k"
  "ids (k\<lparr>first_forkret := v_first_forkret\<rparr>) = ids k"
  "ids (k\<lparr>kbd_shift := v_kbd_shift\<rparr>) = ids k"
  by (simp_all add: ids_def)

lemma ids_tables [simp]: "ids (upd_inode ip i s) = ids s" "ids (upd_file f k t) = ids t"
  by (simp_all add: upd_inode_def upd_file_def ids_def)

lemma stays_arg_or_fail [stay_rules]: "stays f m \<Longrightarrow> (\<And>v. stays f (g v)) \<Longrightarrow> stays f (arg_or_fail m g)"
  unfolding arg_or_fail_def by (intro stay_rules)

lemma stays_switched [stay_rules]: "stays f switched"
  by (simp add: stays_def switched_def)

subsection \<open>Processes\<close>

lemma stays_allocproc [stay_rules]: "stays ids allocproc"
  unfolding allocproc_def by (intro stay_rules; simp)

lemma stays_userinit [stay_rules]: "stays ids userinit"
  unfolding userinit_def by (intro stay_rules; simp)

lemma stays_growproc [stay_rules]: "stays ids (growproc n)"
  unfolding growproc_def by (intro stay_rules; simp)

lemma stays_fork_files [stay_rules]: "stays ids (fork_files np)"
  unfolding fork_files_def by (intro stay_rules; simp)

lemma stays_fork [stay_rules]: "stays ids fork"
  unfolding fork_def by (intro stay_rules; simp)

lemma stays_sched [stay_rules]: "stays ids sched"
  unfolding sched_def by (intro stay_rules; simp)

lemma stays_yield [stay_rules]: "stays ids yield"
  unfolding yield_def by (intro stay_rules; simp)

lemma stays_scheduler_turn [stay_rules]: "stays ids (scheduler_turn i)"
  unfolding scheduler_turn_def by (intro stay_rules; simp)

lemma stays_forkret [stay_rules]: "stays ids forkret"
  unfolding forkret_def by (intro stay_rules; simp)

lemma stays_exit_files [stay_rules]: "stays ids exit_files"
  unfolding exit_files_def by (intro stay_rules; simp)

lemma stays_reparent [stay_rules]: "stays ids (reparent cur)"
  unfolding reparent_def by (intro stay_rules; simp)

lemma stays_exit [stay_rules]: "stays ids exit"
  unfolding exit_def by (intro stay_rules; simp)

lemma stays_wait [stay_rules]: "stays ids wait"
  unfolding wait_def by (intro stay_rules; simp)

lemma stays_kill [stay_rules]: "stays ids (kill pid)"
  unfolding kill_def by (intro stay_rules; simp)

subsection \<open>Process system calls\<close>

lemma stays_sys_fork [stay_rules]: "stays ids sys_fork"
  unfolding sys_fork_def by (intro stay_rules; simp)

lemma stays_sys_exit [stay_rules]: "stays ids sys_exit"
  unfolding sys_exit_def by (intro stay_rules; simp)

lemma stays_sys_wait [stay_rules]: "stays ids sys_wait"
  unfolding sys_wait_def by (intro stay_rules; simp)

lemma stays_sys_kill [stay_rules]: "stays ids sys_kill"
  unfolding sys_kill_def by (intro stay_rules; simp)

lemma stays_sys_getpid [stay_rules]: "stays ids sys_getpid"
  unfolding sys_getpid_def by (intro stay_rules; simp)

lemma stays_sys_sbrk [stay_rules]: "stays ids sys_sbrk"
  unfolding sys_sbrk_def by (intro stay_rules; simp)

lemma stays_sleep_loop [stay_rules]: "stays ids (sleep_loop ticks0 n)"
  unfolding sleep_loop_def by (intro stay_rules; simp)

lemma stays_sys_sleep [stay_rules]: "stays ids sys_sleep"
  unfolding sys_sleep_def by (intro stay_rules; simp)

lemma stays_sys_uptime [stay_rules]: "stays ids sys_uptime"
  unfolding sys_uptime_def by (intro stay_rules; simp)

subsection \<open>Exec\<close>

lemma stays_read_exact [stay_rules]: "stays ids (read_exact ip off n)"
  unfolding read_exact_def by (intro stay_rules; simp)

lemma stays_exec_bad [stay_rules]: "stays ids (exec_bad pgdir ip)"
  unfolding exec_bad_def by (intro stay_rules; simp)

lemma stays_exec_segment [stay_rules]: "stays ids (exec_segment ip pgdir sz off)"
  unfolding exec_segment_def by (intro stay_rules; simp)

lemma stays_exec_load [stay_rules]: "stays ids (exec_load ip pgdir sz off n)"
  by (induction ip pgdir sz off n rule: exec_load.induct) (subst exec_load.simps; intro stay_rules; simp)+

lemma stays_exec_push [stay_rules]: "stays ids (exec_push pgdir sp us as)"
  by (induction pgdir sp us as rule: exec_push.induct) (subst exec_push.simps; intro stay_rules; simp)+

lemma stays_exec_commit [stay_rules]: "stays ids (exec_commit path pgdir sz entry sp)"
  unfolding exec_commit_def by (intro stay_rules; simp)

lemma stays_exec_stack [stay_rules]: "stays ids (exec_stack path argv pgdir sz entry)"
  unfolding exec_stack_def by (intro stay_rules; simp)

lemma stays_exec [stay_rules]: "stays ids (exec path argv)"
  unfolding exec_def by (intro stay_rules; simp)

subsection \<open>File system calls\<close>

lemma stays_argfd [stay_rules]: "stays ids (argfd n)"
  unfolding argfd_def by (intro stay_rules; simp)

lemma stays_fdalloc [stay_rules]: "stays ids (fdalloc f)"
  unfolding fdalloc_def by (intro stay_rules; simp)

lemma stays_sys_getuid [stay_rules]: "stays ids sys_getuid"
  unfolding sys_getuid_def by (intro stay_rules; simp)

lemma stays_sys_geteuid [stay_rules]: "stays ids sys_geteuid"
  unfolding sys_geteuid_def by (intro stay_rules; simp)

lemma stays_sys_chmod [stay_rules]: "stays ids sys_chmod"
  unfolding sys_chmod_def by (intro stay_rules; simp)

lemma stays_sys_chown [stay_rules]: "stays ids sys_chown"
  unfolding sys_chown_def by (intro stay_rules; simp)

lemma stays_sys_echoswitch [stay_rules]: "stays ids sys_echoswitch"
  unfolding sys_echoswitch_def by (intro stay_rules; simp)

lemma stays_setcp [stay_rules]: "stays ids (setcp x y)"
  unfolding setcp_def by (intro stay_rules; simp)

lemma stays_sys_clrscr [stay_rules]: "stays ids sys_clrscr"
  unfolding sys_clrscr_def by (intro stay_rules; simp)

lemma stays_sys_dup [stay_rules]: "stays ids sys_dup"
  unfolding sys_dup_def by (intro stay_rules; simp)

lemma stays_sys_read [stay_rules]: "stays ids sys_read"
  unfolding sys_read_def by (intro stay_rules; simp)

lemma stays_sys_write [stay_rules]: "stays ids sys_write"
  unfolding sys_write_def by (intro stay_rules; simp)

lemma stays_sys_close [stay_rules]: "stays ids sys_close"
  unfolding sys_close_def by (intro stay_rules; simp)

lemma stays_sys_fstat [stay_rules]: "stays ids sys_fstat"
  unfolding sys_fstat_def by (intro stay_rules; simp)

lemma stays_link_bad [stay_rules]: "stays ids (link_bad ip)"
  unfolding link_bad_def by (intro stay_rules; simp)

lemma stays_sys_link [stay_rules]: "stays ids sys_link"
  unfolding sys_link_def by (intro stay_rules; simp)

lemma stays_isdirempty [stay_rules]: "stays ids (isdirempty dp)"
  unfolding isdirempty_def by (intro stay_rules; simp)

lemma stays_unlink_bad [stay_rules]: "stays ids (unlink_bad dp)"
  unfolding unlink_bad_def by (intro stay_rules; simp)

lemma stays_sys_unlink [stay_rules]: "stays ids sys_unlink"
  unfolding sys_unlink_def by (intro stay_rules; simp)

lemma stays_create [stay_rules]: "stays ids (create path type major minor uid mode)"
  unfolding create_def by (intro stay_rules; simp)

lemma stays_perm_denied [stay_rules]: "stays ids (perm_denied path)"
  unfolding perm_denied_def by (intro stay_rules; simp)

lemma stays_open_inode [stay_rules]: "stays ids (open_inode path omode ip)"
  unfolding open_inode_def by (intro stay_rules; simp)

lemma stays_sys_open [stay_rules]: "stays ids sys_open"
  unfolding sys_open_def by (intro stay_rules; simp)

lemma stays_sys_mkdir [stay_rules]: "stays ids sys_mkdir"
  unfolding sys_mkdir_def by (intro stay_rules; simp)

lemma stays_mknod_parent [stay_rules]: "stays ids (mknod_parent par)"
  unfolding mknod_parent_def by (intro stay_rules; simp)

lemma stays_sys_mknod [stay_rules]: "stays ids sys_mknod"
  unfolding sys_mknod_def by (intro stay_rules; simp)

lemma stays_sys_chdir [stay_rules]: "stays ids sys_chdir"
  unfolding sys_chdir_def by (intro stay_rules; simp)

lemma stays_exec_args [stay_rules]: "stays ids (exec_args uargv k)"
  by (induction uargv k rule: exec_args.induct) (subst exec_args.simps; intro stay_rules; simp)+

lemma stays_sys_exec [stay_rules]: "stays ids sys_exec"
  unfolding sys_exec_def by (intro stay_rules; simp)

lemma stays_sys_pipe [stay_rules]: "stays ids sys_pipe"
  unfolding sys_pipe_def by (intro stay_rules; simp)

subsection \<open>Interrupts\<close>

lemma stays_kbdintr [stay_rules]: "stays ids (kbdintr codes)"
  unfolding kbdintr_def by (intro stay_rules; simp)

lemma stays_uartintr [stay_rules]: "stays ids (uartintr cs)"
  unfolding uartintr_def by (intro stay_rules; simp)

lemma stays_timer_tick [stay_rules]: "stays ids (timer_tick cpu)"
  unfolding timer_tick_def by (intro stay_rules; simp)

lemma stays_trap_irq [stay_rules]: "stays ids (trap_irq tf dv)"
  unfolding trap_irq_def by (intro stay_rules; simp)

lemma stays_exit_if_killed [stay_rules]: "stays ids exit_if_killed"
  unfolding exit_if_killed_def by (intro stay_rules; simp)

lemma stays_trap_after [stay_rules]: "stays ids (trap_after tf)"
  unfolding trap_after_def trap_resumed_def by (intro stay_rules; simp)

subsection \<open>Every trap\<close>

lemma handler_stays:
  assumes "syscalls n = Some h" "n \<noteq> 24" "n \<noteq> 25"
  shows "stays ids h"
proof -
  define hs :: "('a kern_scheme, int) kmon list" where "hs = [sys_fork, sys_exit, sys_wait, sys_pipe, sys_read,
     sys_kill, sys_exec, sys_fstat, sys_chdir, sys_dup, sys_getpid, sys_sbrk, sys_sleep, sys_uptime, sys_open,
     sys_write, sys_mknod, sys_unlink, sys_link, sys_mkdir, sys_close, sys_getuid, sys_geteuid]"
  define hs' :: "('a kern_scheme, int) kmon list" where "hs' = [sys_chmod, sys_chown, sys_echoswitch, sys_clrscr]"
  have h: "h = (hs @ [sys_setuid, sys_setgroups] @ hs') ! (n - 1)" and n: "0 < n" "n \<le> 29"
    using assms(1) by (auto simp: syscalls_def hs_def hs'_def split: if_splits)
  have len: "length hs = 23" "length hs' = 4" by (simp_all add: hs_def hs'_def)
  have all: "list_all (stays ids) hs" "list_all (stays ids) hs'" by (simp_all add: hs_def hs'_def stay_rules)
  have "h \<in> set hs \<or> h \<in> set hs'"
  proof (cases "n - 1 < 23")
    case True
    then show ?thesis using h len by (simp add: nth_append)
  next
    case False
    then have "h = hs' ! (n - 26)" "n - 26 < 4" using h len n assms(2,3) by (auto simp: nth_append nth_Cons')
    then show ?thesis using len by simp
  qed
  then show ?thesis using all by (auto simp: list_all_iff)
qed

lemma myproc_uid:
  "(\<And>p. id_of (g p) = id_of p) \<Longrightarrow> p_uid (myproc (upd_myproc g s)) = p_uid (myproc s)"
  by (cases "curproc s < length (ptable s)")
    (auto simp: myproc_def upd_myproc_def upd_proc_def id_of_def list_update_beyond)

lemma handler_ids:
  fixes s :: "'x kern_scheme"
  assumes "syscalls n = Some h" "p_uid (myproc s) \<noteq> 0"
  shows "ids (final (h s)) = ids s"
proof -
  have r: "sys_setuid s = Inr (-1, s)" "sys_setgroups s = Inr (-1, s)"
    using assms(2) by (simp_all add: sys_setuid_def sys_setgroups_def)
  have "syscalls 24 = Some (sys_setuid :: ('x kern_scheme, int) kmon)"
      "syscalls 25 = Some (sys_setgroups :: ('x kern_scheme, int) kmon)" by (simp_all add: syscalls_def)
  with assms(1) consider "h = sys_setuid" | "h = sys_setgroups" | "n \<noteq> 24" "n \<noteq> 25" by fastforce
  then show ?thesis
  proof cases
    case 3
    with handler_stays[OF assms(1)] show ?thesis by (simp add: stays_def)
  qed (use r in simp_all)
qed

lemma syscall_ids:
  fixes s :: "'x kern_scheme"
  assumes "p_uid (myproc s) \<noteq> 0"
  shows "ids (final (syscall s)) = ids s"
proof -
  let ?num = "sint (tf_eax (p_tf (myproc s)))"
  define r :: "('x kern_scheme, int) kmon option" where "r = (if ?num > 0 then syscalls (nat ?num) else None)"
  have e: "syscall s = (case r of
       Some h \<Rightarrow> bnd h (\<lambda>r. upd (upd_myproc (set_eax (of_int r))))
     | None \<Rightarrow> sq (cprintf (str ''%d %s: unknown sys call %d'' @ [10])
           [ArgInt (of_int (p_pid (myproc s))), ArgStr (Some (cstr (p_name (myproc s)))), ArgInt (of_int ?num)])
         (upd (upd_myproc (set_eax (-1))))) s"
    unfolding syscall_def r_def by (simp only: bnd_step[OF rd_simp] Let_def)
  show ?thesis
  proof (cases r)
    case None
    then show ?thesis unfolding e by (simp del: of_int_sint) (intro final_sq stays_final[OF core_cprintf[THEN ids_core]]; simp)
  next
    case (Some h)
    then have "ids (final (h s)) = ids s" using assms by (auto intro: handler_ids simp: r_def split: if_splits)
    then show ?thesis using Some unfolding e by simp (intro final_bnd; simp)
  qed
qed

lemma exit_if_killed_returns: "exit_if_killed s = Inr (x, t) \<Longrightarrow> t = s"
  using noreturn_exit[unfolded noreturn_def, rule_format, of s, where ?'b = unit]
  by (auto simp: exit_if_killed_def whenk_def split: if_splits)

text \<open>
  C2. Only the superuser changes identities. Whatever trap a process with a non-zero user id causes, with
  whatever registers and device input, and however the handler ends (by returning, going to sleep,
  giving the processor away or in a panic), the user id, the effective user id and the groups of every
  process are what they were.
\<close>

theorem trap_protects_ids:
  fixes s :: "'x kern_scheme"
  assumes "p_uid (myproc s) \<noteq> 0"
  shows "ids (final (trap tf dv s)) = ids s"
proof (cases "tf_trapno tf = T_SYSCALL")
  case False
  have "stays ids (sq (trap_irq tf dv) (trap_after tf) :: ('x kern_scheme, unit) kmon)" by (intro stay_rules)
  with False show ?thesis by (simp add: trap_def stays_def)
next
  case True
  let ?u = "upd_myproc (\<lambda>p. p\<lparr>p_tf := tf\<rparr>) s"
  have "p_uid (myproc ?u) \<noteq> 0" using assms by (simp add: myproc_uid)
  from syscall_ids[OF this] have "ids (final (sq syscall exit_if_killed ?u)) = ids ?u"
    by (intro final_sq stays_final[OF stays_exit_if_killed])
  then show ?thesis using True unfolding trap_def
    by (auto intro!: final_sq[of _ exit_if_killed] stays_final[OF stays_exit_if_killed] dest: exit_if_killed_returns)
qed

theorem trap_protects_ids_witness:
  "let s = upd_myproc (\<lambda>p. p\<lparr>p_uid := 7\<rparr>) boot_kern; tf = zero_tf\<lparr>tf_trapno := T_SYSCALL, tf_eax := 24\<rparr> in
     p_uid (myproc s) = 7 \<and> ids (final (trap tf \<lparr>d_kbd = [], d_uart = [], d_cpu = 0, d_cr2 = 0\<rparr> s)) = ids s"
proof -
  have "p_uid (myproc (upd_myproc (\<lambda>p. p\<lparr>p_uid := 7\<rparr>) boot_kern)) = 7"
    by (simp add: myproc_def upd_myproc_def upd_proc_def boot_kern_proc)
  then show ?thesis using trap_protects_ids[of "upd_myproc (\<lambda>p. p\<lparr>p_uid := 7\<rparr>) boot_kern"] by (simp add: Let_def)
qed

subsection \<open>What a child inherits\<close>

text \<open>All of a process but its open files.\<close>

definition no_files :: "'x kproc_scheme \<Rightarrow> proc list" where
  "no_files s = map (\<lambda>p. p\<lparr>p_ofile := []\<rparr>) (ptable s)"

lemma no_files_upd: "(\<And>p. (g p)\<lparr>p_ofile := []\<rparr> = p\<lparr>p_ofile := []\<rparr>) \<Longrightarrow> no_files (upd_proc i g s) = no_files s"
  by (cases "i < length (ptable s)") (simp_all add: no_files_def upd_proc_def map_update list_update_same_conv list_update_beyond)

lemma stays_no_files: "stays procs m \<Longrightarrow> stays no_files m"
  by (simp add: stays_def no_files_def procs_def)

lemma files_fork_files: "stays no_files (fork_files np)"
  unfolding fork_files_def by (intro stay_rules stays_no_files[OF procs_filedup]; simp add: no_files_upd)

lemma no_files_nth:
  "no_files t = no_files s \<Longrightarrow> length (ptable t) = length (ptable s) \<and>
     (i < length (ptable s) \<longrightarrow> (ptable t ! i)\<lparr>p_ofile := []\<rparr> = (ptable s ! i)\<lparr>p_ofile := []\<rparr>)"
  unfolding no_files_def by (metis length_map nth_map)

lemma fork_returns:
  assumes "fork s = Inr (pid, s')" "pid \<noteq> -1"
  obtains np t d u v ip where "allocproc s = Inr (Some np, t)"
    "copyuvm (p_pgdir (myproc s)) (p_sz (myproc s)) t = Inr (d, u)"
    "fork_files np (upd_proc np (fork_child (curproc s) (myproc s) d) u) = Inr ((), v)"
    "p_cwd (myproc s) = Some ip"
    "pid = p_pid (ptable (upd_proc np (\<lambda>x. set_name (p_name (myproc s)) (x\<lparr>p_cwd := Some ip\<rparr>)) (upd_inode ip (\<lambda>i. i\<lparr>i_ref := i_ref i + 1\<rparr>) v)) ! np)"
    "s' = upd_proc np (\<lambda>x. x\<lparr>p_state := RUNNABLE\<rparr>) (upd_proc np (\<lambda>x. set_name (p_name (myproc s)) (x\<lparr>p_cwd := Some ip\<rparr>)) (upd_inode ip (\<lambda>i. i\<lparr>i_ref := i_ref i + 1\<rparr>) v))"
  using assms unfolding fork_def
  by (fastforce simp: bnd_Inr sq_Inr idup_def split: option.splits if_splits)

text \<open>
  The new process in slot \<open>np\<close>: it has the size, the directory and the registers of its parent, apart
  from \<open>eax\<close>, and the identity that the slot had before, not that of its parent.
\<close>

definition forked :: "'x kproc_scheme \<Rightarrow> 'x kproc_scheme \<Rightarrow> int \<Rightarrow> nat \<Rightarrow> bool" where
  "forked s s' pid np \<longleftrightarrow> np < NPROC \<and> p_state (ptable s ! np) = UNUSED \<and> pid = nextpid s \<and>
     (let c = ptable s' ! np in p_state c = RUNNABLE \<and> p_pid c = pid \<and> p_parent c = Some (curproc s)
        \<and> p_sz c = p_sz (myproc s) \<and> p_tf c = (p_tf (myproc s))\<lparr>tf_eax := 0\<rparr> \<and> p_cwd c = p_cwd (myproc s)
        \<and> id_of c = id_of (ptable s ! np))"



end
