(* ===== verification/Spec2Isabelle.thy ===== *)
theory Spec2Isabelle
  imports Spinlock KString Kalloc Ptable Bio Log Crash Trans Ring Console Kbd Inode Fs File Vm Proc Syscall Frames Exec
    Sysfile Permission Trap Identity
begin

text \<open>
  A verification library for the xv6 kernel with users, groups and file permissions
  (\<^verbatim>\<open>src/kernel\<close>).

  \<^bold>\<open>The program.\<close> xv6 is a small Unix kernel in C. From the bottom up: byte and string routines; the
  allocator of physical pages; the table of processes with sleep and wakeup; the buffer cache over a
  disk in memory; a write-ahead log that makes file system calls atomic; the console and the keyboard;
  inodes with owner, group and mode, directories and path names; open files and pipes; page tables;
  processes and the scheduler; the system calls, among them those for user ids, groups, owners and
  modes; the trap handler that leads to all of them.

  \<^bold>\<open>The state.\<close> Kernel code runs in the monad \<open>kmon\<close> of \<open>Prelude\<close>: a state goes in, and either a value and
  a new state come out, or the run ends in a panic, asleep on a channel, or switched away, always with
  the state reached. The state is a record that each component extends with its own globals:
  \<open>kmem\<close> (\<open>Kalloc\<close>: memory, free list), \<open>kproc\<close> (\<open>Ptable\<close>: processes), \<open>kbio\<close> (\<open>Bio\<close>: buffers, disk, the
  history of disk writes), \<open>klog\<close> (\<open>Log\<close>), \<open>kcons\<close> (\<open>Console\<close>), \<open>kfs\<close> (\<open>Inode\<close>: superblock, inode cache,
  devices), \<open>kfile\<close> (\<open>File\<close>: open files, pipes), \<open>kvm\<close> (\<open>Vm\<close>: kernel page directory, \<open>cr3\<close>), \<open>kern\<close> (\<open>Proc\<close>:
  ticks and linker symbols). An operation is defined on the smallest of these records that has what it
  touches, so it applies to every larger one. Pointers to processes, buffers, inodes and files are
  indices into their tables, a pointer into memory is a 32-bit word, null is \<open>None\<close> or 0. Machine integers
  are words of their width where they can wrap.

  \<^bold>\<open>The theories\<close> and the files they model.
  \<^item> \<open>Prelude\<close>: the monad, its Hoare triples \<open>valid\<close> and \<open>validT\<close>, the frame conditions \<open>keeps\<close> (for runs that
    return) and \<open>stays\<close> (for every outcome), little-endian access to byte arrays.
  \<^item> \<open>KString\<close> (\<^verbatim>\<open>string.c\<close>, \<^verbatim>\<open>x86.h\<close>): memory and string routines; overlapping \<open>memmove\<close> is a copy.
  \<^item> \<open>Kalloc\<close> (\<^verbatim>\<open>kalloc.c\<close>, \<^verbatim>\<open>mmu.h\<close>): the free list threaded through the free pages; pages handed out are distinct.
  \<^item> \<open>Ptable\<close> (\<^verbatim>\<open>proc.h\<close>, \<^verbatim>\<open>proc.c\<close>, \<^verbatim>\<open>sleeplock.c\<close>): the process table, sleep and wakeup, sleep locks.
  \<^item> \<open>Bio\<close> (\<^verbatim>\<open>bio.c\<close>, \<^verbatim>\<open>memide.c\<close>): the buffer cache with its least-recently-used list; every read sees the last write.
  \<^item> \<open>Log\<close>, \<open>Crash\<close> (\<^verbatim>\<open>log.c\<close>): the log; a crash at any disk write of a commit or of a recovery leaves all or
    nothing of a transaction. \<open>Trans\<close>: the invariant \<open>tx\<close> of a running transaction, through which the file
    system reads and changes blocks.
  \<^item> \<open>Ring\<close>: ring buffers with free-running 32-bit counters as a locale \<open>ring\<close> and queues as a locale \<open>fifo\<close>,
    interpreted on the console input and on pipes.
  \<^item> \<open>Console\<close> (\<^verbatim>\<open>console.c\<close>, \<^verbatim>\<open>uart.c\<close>), \<open>Kbd\<close> (\<^verbatim>\<open>kbd.c\<close>, \<^verbatim>\<open>kbd.h\<close>): formatted output, line editing, key maps.
  \<^item> \<open>Inode\<close>, \<open>Fs\<close> (\<^verbatim>\<open>fs.c\<close>, \<^verbatim>\<open>fs.h\<close>): block bitmap, on-disk inodes and their cache; file contents, directories, paths.
  \<^item> \<open>File\<close> (\<^verbatim>\<open>file.c\<close>, \<^verbatim>\<open>pipe.c\<close>): open files; pipes refine queues of bytes.
  \<^item> \<open>Vm\<close> (\<^verbatim>\<open>vm.c\<close>, \<^verbatim>\<open>mmu.h\<close>): page tables in memory and the translation the hardware makes of them.
  \<^item> \<open>Proc\<close> (\<^verbatim>\<open>proc.c\<close>), \<open>Syscall\<close> (\<^verbatim>\<open>syscall.c\<close>, \<^verbatim>\<open>sysproc.c\<close>), \<open>Exec\<close> (\<^verbatim>\<open>exec.c\<close>, \<^verbatim>\<open>elf.h\<close>), \<open>Sysfile\<close> (\<^verbatim>\<open>sysfile.c\<close>), \<open>Trap\<close>
    (\<^verbatim>\<open>trap.c\<close>, the table of \<^verbatim>\<open>syscall.c\<close>): processes, argument fetching, every system call, every trap.
  \<^item> \<open>Frames\<close>: what each operation of the lower layers leaves alone in the process table, whatever its outcome.
  \<^item> \<open>Permission\<close>: the permission checks against the Unix rule. \<open>Identity\<close>: who can change user and group ids.

  \<^bold>\<open>What is shown.\<close> Functional behaviour of each layer on every branch (copying, page and block
  allocation, cached inodes, reading files, mapping pages, \<open>fork\<close>); invariants (log, inode cache, size of a
  process); refinement of abstract specifications (pipes and console input as queues and a line
  editor, \<open>readi\<close> and \<open>iupdate\<close> against the contents of files and of the inode table); round trips (on-disk inodes,
  directory entries, printed numbers); atomicity of transactions under crashes; bounds of pointers and
  strings that come from user memory; the end of loops whose bound is not evident; and two properties
  of the whole kernel: no trap of a process that is not the superuser changes an identity, and a killed
  process never returns to user mode. Some theorems state that the code does not do what it means to:
  the log can panic on admitted operations, \<open>sys_open\<close> misses checks, and \<open>fork\<close> gives the child the identity
  of the last process in its slot.

  \<^bold>\<open>Bounds and fuel.\<close> Loops are recursion on what is left to do: bytes, blocks, entries, characters of a
  path. Three take a count. \<open>dealloc_loop\<close> has a turn for every page below the old size, which the theorem on
  its end shows to be enough; \<open>kill_line\<close> has one for every place of the input ring; \<open>fetchstr_loop\<close> one for every
  byte up to the end of the process, as in the code. A loop that sleeps ends the run; its check, which
  runs again after the wakeup, is a definition of its own where a property needs it (\<open>sleep_loop\<close>).

  \<^bold>\<open>Not modelled.\<close> The boot loader, the assembly of \<^verbatim>\<open>entry.S\<close>, \<^verbatim>\<open>swtch.S\<close>, \<^verbatim>\<open>trapasm.S\<close> and \<^verbatim>\<open>vectors\<close>: a context
  switch ends a run. Programming of hardware with no state of its own in the kernel: \<^verbatim>\<open>lapic.c\<close>, \<^verbatim>\<open>ioapic.c\<close>,
  \<^verbatim>\<open>mp.c\<close>, \<^verbatim>\<open>picirq.c\<close>, \<open>uartinit\<close>, \<open>seginit\<close>, \<open>tvinit\<close>, \<open>idtinit\<close>, and \<^verbatim>\<open>ide.c\<close>, the driver of a real
  disk: the model has the disk of \<^verbatim>\<open>memide.c\<close>, which the target \<^verbatim>\<open>kernelmemfs\<close> links in its place. Spin
  locks and other processors: kernel code between two sleeps runs alone. The registers of the trap
  frame that no C code reads. User programs.
\<close>

end
